(* ===== verification/Prelude.thy ===== *)
theory Prelude
  imports Main "HOL-Library.Word" "HOL-Library.List_Lexorder" "HOL-Library.Sublist"
begin

text \<open>
  The shared vocabulary of the development: the machine integers and byte strings of the Rust
  sources, the result type of fallible operations, the big- and little-endian byte images of
  integers, and the lexicographic order on byte strings with the facts about it that every key
  encoding needs.  The two locales at the end are the interfaces the encoders are used through:
  a codec that can be read back from the front of a buffer, and an encoding that keeps the
  order of what it encodes whatever follows it in the key.
\<close>

named_theorems codec_simps \<open>encoders and decoders, unfolded for evaluation\<close>
named_theorems order_simps \<open>comparison of byte strings that share a prefix\<close>

section \<open>Machine integers, byte strings, results\<close>

type_synonym u8 = "8 word"
type_synonym u16 = "16 word"
type_synonym u32 = "32 word"
type_synonym u64 = "64 word"

text \<open>An \<open>i64\<close> is the same 64 bits; it is read with \<^const>\<open>sint\<close>.\<close>

type_synonym i64 = "64 word"
type_synonym bytes = "u8 list"

abbreviation u64_max :: u64 where "u64_max \<equiv> - 1"
abbreviation u32_max :: u32 where "u32_max \<equiv> - 1"

text \<open>
  Rust's \<open>Result\<close>.  A panic (a failed \<open>assert!\<close>, an \<open>unwrap\<close> of nothing, a slice index out of
  range) is a third value, so that a theorem that an operation returns also says it does not
  panic.
\<close>

datatype ('a, 'e) result = Ok 'a | Err 'e | Panic

fun result_bind :: "('a, 'e) result \<Rightarrow> ('a \<Rightarrow> ('b, 'e) result) \<Rightarrow> ('b, 'e) result" where
  "result_bind (Ok a) f = f a"
| "result_bind (Err e) f = Err e"
| "result_bind Panic f = Panic"

fun result_map_err :: "('e \<Rightarrow> 'f) \<Rightarrow> ('a, 'e) result \<Rightarrow> ('a, 'f) result" where
  "result_map_err g (Ok a) = Ok a"
| "result_map_err g (Err e) = Err (g e)"
| "result_map_err g Panic = Panic"

fun result_map :: "('a \<Rightarrow> 'b) \<Rightarrow> ('a, 'e) result \<Rightarrow> ('b, 'e) result" where
  "result_map g (Ok a) = Ok (g a)"
| "result_map g (Err e) = Err e"
| "result_map g Panic = Panic"

lemma result_bind_eq_Ok:
  "result_bind r f = Ok b \<longleftrightarrow> (\<exists>a. r = Ok a \<and> f a = Ok b)"
  by (cases r) auto

section \<open>Saturating and checked integer operations\<close>

definition saturating_sub :: "'n::len word \<Rightarrow> 'n word \<Rightarrow> 'n word" where
  "saturating_sub a b = (if b \<le> a then a - b else 0)"

definition saturating_add :: "'n::len word \<Rightarrow> 'n word \<Rightarrow> 'n word" where
  "saturating_add a b = (if unat a + unat b < 2 ^ LENGTH('n) then a + b else - 1)"

lemma unat_saturating_sub [simp]: "unat (saturating_sub a b) = unat a - unat b"
  by (auto simp: saturating_sub_def unat_sub word_le_nat_alt)

lemma unat_max_word: "unat (- 1 :: 'n::len word) = 2 ^ LENGTH('n) - 1"
  by (simp add: unsigned_minus_1_eq_mask mask_eq_exp_minus_1)

lemma unat_saturating_add [simp]:
  "unat (saturating_add a b :: 'n::len word) = min (unat a + unat b) (2 ^ LENGTH('n) - 1)"
proof (cases "unat a + unat b < 2 ^ LENGTH('n)")
  case True
  then show ?thesis by (simp add: saturating_add_def unat_word_ariths)
next
  case False
  then show ?thesis by (simp add: saturating_add_def unat_max_word)
qed

section \<open>Byte images of integers\<close>

text \<open>
  \<open>to_be_bytes\<close> and \<open>from_be_bytes\<close> (and the little-endian pair) of Rust's integers, over the
  value as a natural number; the width is the number of bytes.
\<close>

fun be_enc :: "nat \<Rightarrow> nat \<Rightarrow> bytes" where
  "be_enc 0 k = []"
| "be_enc (Suc n) k = be_enc n (k div 256) @ [word_of_nat (k mod 256)]"

definition be_val :: "bytes \<Rightarrow> nat" where
  "be_val bs = foldl (\<lambda>a b. a * 256 + unat b) 0 bs"

definition le_enc :: "nat \<Rightarrow> nat \<Rightarrow> bytes" where
  "le_enc n k = rev (be_enc n k)"

definition le_val :: "bytes \<Rightarrow> nat" where
  "le_val bs = be_val (rev bs)"

definition put_u32 :: "u32 \<Rightarrow> bytes" where
  "put_u32 w = be_enc 4 (unat w)"

definition put_u64 :: "u64 \<Rightarrow> bytes" where
  "put_u64 w = be_enc 8 (unat w)"

definition put_u16_le :: "u16 \<Rightarrow> bytes" where
  "put_u16_le w = le_enc 2 (unat w)"

definition put_u32_le :: "u32 \<Rightarrow> bytes" where
  "put_u32_le w = le_enc 4 (unat w)"

definition put_u64_le :: "u64 \<Rightarrow> bytes" where
  "put_u64_le w = le_enc 8 (unat w)"

definition get_u32 :: "bytes \<Rightarrow> u32" where
  "get_u32 bs = word_of_nat (be_val bs)"

definition get_u64 :: "bytes \<Rightarrow> u64" where
  "get_u64 bs = word_of_nat (be_val bs)"

definition get_u16_le :: "bytes \<Rightarrow> u16" where
  "get_u16_le bs = word_of_nat (le_val bs)"

definition get_u32_le :: "bytes \<Rightarrow> u32" where
  "get_u32_le bs = word_of_nat (le_val bs)"

definition get_u64_le :: "bytes \<Rightarrow> u64" where
  "get_u64_le bs = word_of_nat (le_val bs)"

lemma length_be_enc [simp]: "length (be_enc n k) = n"
  by (induction n arbitrary: k) auto

lemma length_le_enc [simp]: "length (le_enc n k) = n"
  by (simp add: le_enc_def)

lemma be_val_Nil [simp]: "be_val [] = 0"
  by (simp add: be_val_def)

lemma be_val_snoc [simp]: "be_val (bs @ [b]) = be_val bs * 256 + unat b"
  by (simp add: be_val_def)

lemma unat_byte_less: "unat (b :: u8) < 256"
  using unsigned_less [of b, where ?'a = nat] by simp

lemma be_val_append: "be_val (xs @ ys) = be_val xs * 256 ^ length ys + be_val ys"
proof (induction ys rule: rev_induct)
  case (snoc y ys)
  then show ?case
    using be_val_snoc [of "xs @ ys" y] by (simp add: algebra_simps)
qed simp

lemma be_val_Cons: "be_val (b # bs) = unat b * 256 ^ length bs + be_val bs"
  using be_val_append [of "[b]" bs] be_val_snoc [of "[]" b] by simp

lemma be_val_less: "be_val bs < 256 ^ length bs"
proof (induction bs rule: rev_induct)
  case (snoc b bs)
  then have "be_val bs + 1 \<le> 256 ^ length bs" by simp
  then have "(be_val bs + 1) * 256 \<le> 256 ^ length bs * 256" by (rule mult_le_mono1)
  with unat_byte_less [of b] show ?case by (simp add: algebra_simps)
qed simp

lemma be_val_be_enc: "be_val (be_enc n k) = k mod 256 ^ n"
proof (induction n arbitrary: k)
  case (Suc n)
  have "unat (word_of_nat (k mod 256) :: u8) = k mod 256"
    by (simp add: unat_of_nat)
  with Suc [of "k div 256"] show ?case
    by (simp add: mod_mult2_eq)
qed simp

lemma be_enc_be_val: "be_enc (length bs) (be_val bs) = bs"
proof (induction bs rule: rev_induct)
  case (snoc b bs)
  have "(be_val bs * 256 + unat b) div 256 = be_val bs"
    and "(be_val bs * 256 + unat b) mod 256 = unat b"
    using unat_byte_less [of b] by simp_all
  with snoc show ?case by simp
qed simp

lemma le_val_le_enc: "le_val (le_enc n k) = k mod 256 ^ n"
  by (simp add: le_val_def le_enc_def be_val_be_enc)

lemma le_enc_le_val: "le_enc (length bs) (le_val bs) = bs"
  using be_enc_be_val [of "rev bs"] by (simp add: le_val_def le_enc_def)

lemma length_puts [simp]:
  "length (put_u32 a) = 4" "length (put_u64 b) = 8"
  "length (put_u16_le c) = 2" "length (put_u32_le a) = 4" "length (put_u64_le b) = 8"
  by (simp_all add: put_u32_def put_u64_def put_u16_le_def put_u32_le_def put_u64_le_def)

lemma unat_u16_less: "unat (w :: u16) < 65536"
  using unsigned_less [of w, where ?'a = nat] by simp

lemma unat_u32_less: "unat (w :: u32) < 4294967296"
  using unsigned_less [of w, where ?'a = nat] by simp

lemma unat_u64_less: "unat (w :: u64) < 18446744073709551616"
  using unsigned_less [of w, where ?'a = nat] by simp

lemma unat_add_u64: "unat a + unat b < 2 ^ 64 \<Longrightarrow> unat (a + b :: u64) = unat a + unat b"
  by (simp add: unat_word_ariths)

lemma unat_u32_of_nat: "i < 2 ^ 32 \<Longrightarrow> unat (word_of_nat i :: 32 word) = i"
  by (simp add: unsigned_of_nat take_bit_nat_eq_self)

lemma unat_u64_of_nat: "i < 2 ^ 64 \<Longrightarrow> unat (word_of_nat i :: u64) = i"
  by (simp add: unsigned_of_nat take_bit_nat_eq_self)

lemma get_put [simp]:
  "get_u32 (put_u32 a) = a" "get_u64 (put_u64 b) = b"
  "get_u16_le (put_u16_le c) = c" "get_u32_le (put_u32_le a) = a" "get_u64_le (put_u64_le b) = b"
  by (simp_all add: get_u32_def put_u32_def get_u64_def put_u64_def get_u16_le_def put_u16_le_def
      get_u32_le_def put_u32_le_def get_u64_le_def put_u64_le_def be_val_be_enc le_val_le_enc
      unat_u16_less unat_u32_less unat_u64_less)

lemma put_get:
  "length bs = 4 \<Longrightarrow> put_u32 (get_u32 bs) = bs"
  "length bs = 8 \<Longrightarrow> put_u64 (get_u64 bs) = bs"
  "length bs = 8 \<Longrightarrow> put_u64_le (get_u64_le bs) = bs"
proof -
  assume l: "length bs = 4"
  with be_val_less [of bs] have "unat (word_of_nat (be_val bs) :: u32) = be_val bs"
    by (simp add: unat_of_nat)
  with be_enc_be_val [of bs] l show "put_u32 (get_u32 bs) = bs"
    by (simp add: put_u32_def get_u32_def)
next
  assume l: "length bs = 8"
  with be_val_less [of bs] have "unat (word_of_nat (be_val bs) :: u64) = be_val bs"
    by (simp add: unat_of_nat)
  with be_enc_be_val [of bs] l show "put_u64 (get_u64 bs) = bs"
    by (simp add: put_u64_def get_u64_def)
next
  assume l: "length bs = 8"
  with be_val_less [of "rev bs"] have "unat (word_of_nat (le_val bs) :: u64) = le_val bs"
    by (simp add: unat_of_nat le_val_def)
  with le_enc_le_val [of bs] l show "put_u64_le (get_u64_le bs) = bs"
    by (simp add: put_u64_le_def get_u64_le_def)
qed

section \<open>The lexicographic order on byte strings\<close>

lemma append_less_append [simp, order_simps]:
  "xs @ ys < xs @ zs \<longleftrightarrow> ys < (zs :: 'a::linorder list)"
  by (induction xs) auto

lemma append_le_append [simp, order_simps]:
  "xs @ ys \<le> xs @ zs \<longleftrightarrow> ys \<le> (zs :: 'a::linorder list)"
  by (induction xs) auto

lemma le_append_self [simp]: "xs \<le> xs @ (ys :: 'a::linorder list)"
  by (induction xs) auto

lemma less_append_self [simp]: "xs < xs @ (ys :: 'a::linorder list) \<longleftrightarrow> ys \<noteq> []"
  by (induction xs) (cases ys, auto)

text \<open>Two strings of the same length, the first smaller: whatever follows them does not matter.\<close>

lemma same_length_less_append:
  "length xs = length ys \<Longrightarrow> xs < (ys :: 'a::linorder list) \<Longrightarrow> xs @ s < ys @ t"
  by (induction xs ys rule: list_induct2) auto

lemma digit_less:
  fixes a b p u v :: nat
  assumes "a < b" and "u < p"
  shows "a * p + u < b * p + v"
proof -
  from assms(1) have "(a + 1) * p \<le> b * p" by (intro mult_le_mono1) simp
  with assms(2) show ?thesis by simp
qed

lemma be_val_less_iff: "length xs = length ys \<Longrightarrow> xs < ys \<longleftrightarrow> be_val xs < be_val ys"
proof (induction xs ys rule: list_induct2)
  case (Cons x xs y ys)
  let ?p = "256 ^ length ys :: nat"
  have vx: "be_val xs < ?p" and vy: "be_val ys < ?p"
    using be_val_less [of xs] be_val_less [of ys] Cons.hyps by simp_all
  show ?case
  proof (cases x y rule: linorder_cases)
    case equal
    with Cons show ?thesis by (simp add: be_val_Cons)
  next
    case less
    then have "unat x < unat y" by (simp add: word_less_nat_alt)
    from digit_less [OF this vx] less Cons.hyps show ?thesis by (simp add: be_val_Cons)
  next
    case greater
    then have "unat y < unat x" by (simp add: word_less_nat_alt)
    from digit_less [OF this vy, of "be_val xs"] greater Cons.hyps show ?thesis
      by (auto simp: be_val_Cons)
  qed
qed simp

lemma be_enc_less_iff:
  "k < 256 ^ n \<Longrightarrow> l < 256 ^ n \<Longrightarrow> be_enc n k < be_enc n l \<longleftrightarrow> k < l"
  by (simp add: be_val_less_iff be_val_be_enc)

section \<open>Interfaces of the encoders\<close>

text \<open>
  A codec that writes a value to the end of a buffer and reads it from the front of one, handing
  back what is left: how \<open>serialize(&self, buf)\<close> and \<open>deserialize(&mut &[u8])\<close> are paired.
\<close>

locale front_codec =
  fixes enc :: "'a \<Rightarrow> bytes"
    and dec :: "bytes \<Rightarrow> ('a \<times> bytes, 'e) result"
    and dom :: "'a \<Rightarrow> bool"
  assumes dec_enc: "dom a \<Longrightarrow> dec (enc a @ rest) = Ok (a, rest)"
begin

lemma enc_append_inject:
  assumes "dom a" and "dom b" and "enc a @ s = enc b @ t"
  shows "a = b \<and> s = t"
proof -
  have "Ok (a, s) = dec (enc a @ s)" by (rule dec_enc [OF assms(1), symmetric])
  also have "\<dots> = Ok (b, t)" unfolding assms(3) by (rule dec_enc [OF assms(2)])
  finally show ?thesis by simp
qed

lemma enc_inject: "dom a \<Longrightarrow> dom b \<Longrightarrow> enc a = enc b \<longleftrightarrow> a = b"
  using enc_append_inject [of a b "[]" "[]"] by auto

text \<open>No encoding is a proper prefix of another: a reader never stops too early.\<close>

lemma prefix_free: "dom a \<Longrightarrow> dom b \<Longrightarrow> prefix (enc a) (enc b) \<Longrightarrow> a = b"
  using enc_append_inject [of a b _ "[]"] by (metis append_Nil2 prefixE)

end

text \<open>
  An encoding that keeps the order of its values when it is a field of a longer key: the byte
  comparison of two keys is decided by this field when the fields differ, whatever follows.
\<close>

locale key_field =
  fixes fld :: "'a::linorder \<Rightarrow> bytes"
  assumes fld_less: "a < b \<Longrightarrow> fld a @ s < fld b @ t"
begin

lemma fld_less_iff: "fld a @ s < fld b @ t \<longleftrightarrow> a < b \<or> a = b \<and> s < t"
proof (cases a b rule: linorder_cases)
  case less
  then show ?thesis using fld_less [of a b s t] by auto
next
  case equal
  then show ?thesis by simp
next
  case greater
  then show ?thesis using fld_less [of b a t s] by auto
qed

lemma fld_eq_iff: "fld a @ s = fld b @ t \<longleftrightarrow> a = b \<and> s = t"
proof
  assume eq: "fld a @ s = fld b @ t"
  then have "\<not> a < b" and "\<not> b < a"
    using fld_less [of a b s t] fld_less [of b a t s] by auto
  then have "a = b" by simp
  with eq show "a = b \<and> s = t" by simp
qed simp

lemma fld_le_iff: "fld a @ s \<le> fld b @ t \<longleftrightarrow> a < b \<or> a = b \<and> s \<le> t"
  by (auto simp: le_less fld_less_iff fld_eq_iff)

lemma fld_mono_iff: "fld a < fld b \<longleftrightarrow> a < b"
  using fld_less_iff [of a "[]" b "[]"] by simp

lemma fld_mono_le_iff: "fld a \<le> fld b \<longleftrightarrow> a \<le> b"
  using fld_le_iff [of a "[]" b "[]"] by auto

lemma fld_inj: "fld a = fld b \<longleftrightarrow> a = b"
  using fld_eq_iff [of a "[]" b "[]"] by simp

end

text \<open>The big-endian images of \<open>u32\<close> and \<open>u64\<close> keep the order, as fields of a key.\<close>

lemma put_u32_less: "(a :: u32) < b \<Longrightarrow> put_u32 a @ s < put_u32 b @ t"
  using be_enc_less_iff [of "unat a" 4 "unat b"] unat_u32_less [of a] unat_u32_less [of b]
  by (intro same_length_less_append) (simp_all add: put_u32_def word_less_nat_alt)

lemma put_u64_less: "(a :: u64) < b \<Longrightarrow> put_u64 a @ s < put_u64 b @ t"
  using be_enc_less_iff [of "unat a" 8 "unat b"] unat_u64_less [of a] unat_u64_less [of b]
  by (intro same_length_less_append) (simp_all add: put_u64_def word_less_nat_alt)

interpretation u32_field: key_field put_u32
  by unfold_locales (rule put_u32_less)

interpretation u64_field: key_field put_u64
  by unfold_locales (rule put_u64_less)

end
