(* ===== verification/Byte_Range.thy ===== *)
theory Byte_Range
  imports Prelude
begin

text \<open>
  Byte ranges (\<open>common/src/bytes.rs\<close>): \<open>lex_increment\<close>, the exclusive upper bound of the keys that
  share a prefix, and \<open>BytesRange\<close>, the range type every storage scan takes.  The main fact is that
  the range built for a prefix contains exactly the keys with that prefix.
\<close>

section \<open>Definitions\<close>

datatype 'a bound = Included 'a | Excluded 'a | Unbounded

text \<open>\<open>lex_increment\<close>: the loop works on the last byte of what is left of the buffer.\<close>

function lex_increment_loop :: "bytes \<Rightarrow> bytes option" where
  "lex_increment_loop result =
     (if result = [] then None
      else if last result < 0xFF then Some (butlast result @ [last result + 1])
      else lex_increment_loop (butlast result))"
  by pat_completeness auto
termination
  by (relation "measure length") auto

definition lex_increment :: "bytes \<Rightarrow> bytes option" where
  "lex_increment data = (if data = [] then None else lex_increment_loop data)"

record bytes_range =
  range_start :: "bytes bound"
  range_end :: "bytes bound"

definition bytes_range_new :: "bytes bound \<Rightarrow> bytes bound \<Rightarrow> bytes_range" where
  "bytes_range_new s e = \<lparr>range_start = s, range_end = e\<rparr>"

definition bytes_range_unbounded :: bytes_range where
  "bytes_range_unbounded = \<lparr>range_start = Unbounded, range_end = Unbounded\<rparr>"

definition bytes_range_prefix :: "bytes \<Rightarrow> bytes_range" where
  "bytes_range_prefix p =
     (if p = [] then bytes_range_unbounded
      else case lex_increment p of
             Some e \<Rightarrow> \<lparr>range_start = Included p, range_end = Excluded e\<rparr>
           | None \<Rightarrow> \<lparr>range_start = Included p, range_end = Unbounded\<rparr>)"

fun above_start :: "bytes bound \<Rightarrow> bytes \<Rightarrow> bool" where
  "above_start (Included s) k = (s \<le> k)"
| "above_start (Excluded s) k = (s < k)"
| "above_start Unbounded k = True"

fun below_end :: "bytes bound \<Rightarrow> bytes \<Rightarrow> bool" where
  "below_end (Included e) k = (k \<le> e)"
| "below_end (Excluded e) k = (k < e)"
| "below_end Unbounded k = True"

definition range_contains :: "bytes_range \<Rightarrow> bytes \<Rightarrow> bool" where
  "range_contains r k = (above_start (range_start r) k \<and> below_end (range_end r) k)"

lemmas range_defs =
  bytes_range_new_def bytes_range_unbounded_def range_contains_def

section \<open>The successor of a prefix\<close>

declare lex_increment_loop.simps [simp del]

lemma lex_increment_loop_Nil [simp]: "lex_increment_loop [] = None"
  by (simp add: lex_increment_loop.simps)

lemma lex_increment_loop_snoc [simp]:
  "lex_increment_loop (xs @ [b]) =
     (if b < 0xFF then Some (xs @ [b + 1]) else lex_increment_loop xs)"
  by (simp add: lex_increment_loop.simps [of "xs @ [b]"])

lemma byte_le_max [simp]: "(b :: u8) \<le> 0xFF"
  using unat_byte_less [of b] by (simp add: word_le_nat_alt)

lemma byte_not_less_max: "\<not> b < 0xFF \<Longrightarrow> b = (0xFF :: u8)"
  by (simp add: order_antisym)

lemma byte_less_succ: "(b :: u8) < 0xFF \<Longrightarrow> c < b + 1 \<longleftrightarrow> c \<le> b"
  by (simp add: word_less_nat_alt word_le_nat_alt unat_word_ariths) linarith

lemma prefix_between_succ:
  assumes "(b :: u8) < 0xFF"
  shows "xs @ [b] \<le> k \<and> k < xs @ [b + 1] \<longleftrightarrow> prefix (xs @ [b]) k"
proof (induction xs arbitrary: k)
  case Nil
  show ?case
  proof (cases k)
    case (Cons c zs)
    have "(b < c \<or> b = c) \<and> c < b + 1 \<longleftrightarrow> b = c"
      unfolding byte_less_succ [OF assms] by auto
    with Cons show ?thesis by simp
  qed simp
next
  case (Cons x xs)
  note IH = Cons.IH
  show ?case
  proof (cases k)
    case (Cons y zs)
    then show ?thesis by (simp add: IH [symmetric]) auto
  qed simp
qed

lemma append_max_le_iff: "xs @ [0xFF :: u8] \<le> xs @ z \<longleftrightarrow> prefix [0xFF] z"
  unfolding append_le_append by (cases z) (auto simp: leD dest: byte_not_less_max)

lemma lex_increment_loop_bounds:
  "(case lex_increment_loop p of
      Some e \<Rightarrow> p \<le> k \<and> k < e \<longleftrightarrow> prefix p k
    | None \<Rightarrow> p \<le> k \<longleftrightarrow> prefix p k)"
proof (induction p rule: rev_induct)
  case (snoc b xs)
  show ?case
  proof (cases "b < 0xFF")
    case True
    then show ?thesis using prefix_between_succ [OF True, of xs k] by simp
  next
    case False
    then have b: "b = 0xFF" by (rule byte_not_less_max)
    have down: "xs \<le> k" if "xs @ [b] \<le> k"
      using that le_append_self [of xs "[b]"] by (rule order_trans [rotated])
    have ext: "prefix xs k \<Longrightarrow> xs @ [b] \<le> k \<longleftrightarrow> prefix (xs @ [b]) k"
      using append_max_le_iff [of xs] b by (auto simp: prefix_def)
    show ?thesis
    proof (cases "lex_increment_loop xs")
      case None
      with snoc.IH False down ext show ?thesis
        by (auto dest: append_prefixD)
    next
      case (Some e)
      with snoc.IH False down ext show ?thesis
        by (auto dest: append_prefixD)
    qed
  qed
qed simp

lemma range_contains_prefix: "range_contains (bytes_range_prefix p) k \<longleftrightarrow> prefix p k"
  using lex_increment_loop_bounds [of p k]
  by (auto simp: bytes_range_prefix_def range_defs lex_increment_def split: option.splits)

section \<open>Properties\<close>

text \<open>
  The range \<open>BytesRange::prefix(p)\<close> contains exactly the keys that start with \<open>p\<close>, for every
  prefix, the empty one and those made of \<open>0xFF\<close> bytes included.
\<close>

theorem bytes_range_prefix_contains: "range_contains (bytes_range_prefix p) k \<longleftrightarrow> prefix p k"
  by (rule range_contains_prefix)

end
