(* ===== verification/Ordered_Map.thy ===== *)
theory Ordered_Map
  imports Byte_Range
begin

text \<open>
  The standard library's \<open>BTreeMap\<close>, as the storage and the segment cache use it: an association
  list in strictly ascending key order.  \<open>range\<close> (on byte-string keys) panics, as the library
  documents, when the start is above the end or when both bounds exclude the same key.
\<close>

section \<open>Definitions\<close>

type_synonym ('k, 'v) omap = "('k \<times> 'v) list"

type_synonym 'v btree = "(bytes, 'v) omap"

definition btree_wf :: "('k::linorder, 'v) omap \<Rightarrow> bool" where
  "btree_wf m = sorted_wrt (<) (map fst m)"

definition btree_get :: "('k, 'v) omap \<Rightarrow> 'k \<Rightarrow> 'v option" where
  "btree_get m = map_of m"

fun btree_insert :: "'k::linorder \<Rightarrow> 'v \<Rightarrow> ('k, 'v) omap \<Rightarrow> ('k, 'v) omap" where
  "btree_insert k v [] = [(k, v)]"
| "btree_insert k v ((k', v') # m) =
     (if k < k' then (k, v) # (k', v') # m
      else if k = k' then (k, v) # m
      else (k', v') # btree_insert k v m)"

definition btree_remove :: "'k \<Rightarrow> ('k, 'v) omap \<Rightarrow> ('k, 'v) omap" where
  "btree_remove k m = filter (\<lambda>(k', _). k' \<noteq> k) m"

fun range_panics :: "bytes bound \<Rightarrow> bytes bound \<Rightarrow> bool" where
  "range_panics (Included s) (Included e) = (e < s)"
| "range_panics (Included s) (Excluded e) = (e < s)"
| "range_panics (Excluded s) (Included e) = (e < s)"
| "range_panics (Excluded s) (Excluded e) = (e \<le> s)"
| "range_panics _ _ = False"

definition btree_range :: "'v btree \<Rightarrow> bytes_range \<Rightarrow> 'v btree option" where
  "btree_range m r =
     (if range_panics (range_start r) (range_end r) then None
      else Some (filter (\<lambda>(k, _). range_contains r k) m))"

section \<open>Lookup after update\<close>

lemma set_btree_insert [simp]: "fst ` set (btree_insert k v m) = insert k (fst ` set m)"
  by (induction k v m rule: btree_insert.induct) (simp_all add: insert_commute)

lemma btree_wf_Nil [simp]: "btree_wf []"
  by (simp add: btree_wf_def)

lemma btree_wf_Cons [simp]:
  "btree_wf ((k, v) # m) \<longleftrightarrow> (\<forall>k' \<in> fst ` set m. k < k') \<and> btree_wf m"
  by (auto simp: btree_wf_def)

lemma btree_wf_insert [simp]: "btree_wf m \<Longrightarrow> btree_wf (btree_insert k v m)"
proof (induction m)
  case (Cons a m)
  obtain k' v' where a: "a = (k', v')" by (cases a)
  from Cons a show ?case by (auto intro: less_trans)
qed simp

lemma btree_wf_filter: "btree_wf m \<Longrightarrow> btree_wf (filter P m)"
  unfolding btree_wf_def by (induction m) auto

lemma btree_wf_remove [simp]: "btree_wf m \<Longrightarrow> btree_wf (btree_remove k m)"
  by (simp add: btree_remove_def btree_wf_filter)

lemma btree_get_insert [simp]:
  "btree_wf m \<Longrightarrow> btree_get (btree_insert k v m) = (btree_get m)(k \<mapsto> v)"
proof (induction m)
  case (Cons a m)
  obtain k' v' where a: "a = (k', v')" by (cases a)
  with Cons show ?case by (auto simp: btree_get_def fun_eq_iff dest: less_imp_neq)
qed (simp add: btree_get_def)

lemma btree_get_remove [simp]: "btree_get (btree_remove k m) = (btree_get m)(k := None)"
  unfolding btree_get_def btree_remove_def by (induction m) (auto simp: fun_eq_iff)

lemma btree_get_Nil [simp]: "btree_get [] k = None"
  by (simp add: btree_get_def)

lemma btree_wf_distinct: "btree_wf m \<Longrightarrow> distinct (map fst m)"
  by (simp add: btree_wf_def strict_sorted_iff)

lemma btree_get_iff: "btree_wf m \<Longrightarrow> btree_get m k = Some v \<longleftrightarrow> (k, v) \<in> set m"
  by (simp add: btree_get_def btree_wf_distinct)

text \<open>A sorted map is determined by what a lookup returns.\<close>

lemma btree_wf_unique:
  assumes "btree_wf m" and "btree_wf n" and "\<And>k. btree_get m k = btree_get n k"
  shows "m = n"
proof (rule map_sorted_distinct_set_unique [of fst])
  from assms have "set m = set n" by (metis btree_get_iff subsetI subset_antisym surj_pair)
  then show "set m = set n" .
  show "inj_on fst (set m \<union> set n)"
    using \<open>set m = set n\<close> btree_wf_distinct [OF assms(1)] by (simp add: distinct_map)
  show "sorted (map fst m)" "sorted (map fst n)"
    using assms by (simp_all add: btree_wf_def strict_sorted_iff)
  show "distinct (map fst m)" "distinct (map fst n)"
    using assms by (simp_all add: btree_wf_distinct)
qed

text \<open>A prefix range never makes \<open>range\<close> panic.\<close>

lemma prefix_range_ok [simp]:
  "\<not> range_panics (range_start (bytes_range_prefix p)) (range_end (bytes_range_prefix p))"
proof -
  have "\<not> e < p" if "lex_increment_loop p = Some e" for e
    using lex_increment_loop_bounds [of p p] that by (simp add: leD)
  then show ?thesis
    by (auto simp: bytes_range_prefix_def range_defs lex_increment_def split: option.splits)
qed

end
