(* ===== verification/Storage_Api.thy ===== *)
theory Storage_Api
  imports Ordered_Map
begin

text \<open>
  The storage abstraction (\<open>common/src/storage/mod.rs\<close>): records, batch operations and errors; the
  \<open>StorageRead\<close>, \<open>StorageSnapshot\<close> and \<open>Storage\<close> traits as a record of operations on a state,
  which the databases take as an argument as the code takes a \<open>dyn Storage\<close>; the trait's provided
  methods; and the locale \<open>storage_laws\<close>, what the databases rely on.

  A \<open>StorageIterator\<close> is the list of the results that \<open>next\<close> returns before \<open>Ok(None)\<close>.
\<close>

section \<open>Definitions\<close>

record checkpoint_info =
  ci_id :: "128 word"
  ci_manifest_id :: u64

datatype ttl = Default | NoExpiry | ExpireAfter u64 | ExpireAt i64

record put_options =
  put_ttl :: ttl

record storage_record =
  rec_key :: bytes
  rec_value :: bytes

record put_record_op =
  put_record :: storage_record
  put_opts :: put_options

record merge_options =
  merge_ttl :: ttl

record merge_record_op =
  merge_record :: storage_record
  merge_opts :: merge_options

datatype record_op = Put put_record_op | Merge merge_record_op | Delete bytes

record write_options =
  await_durable :: bool

datatype storage_error = Storage string | Internal string

record write_result =
  seqnum :: u64

type_synonym 'a storage_result = "('a, storage_error) result"

type_synonym merge_operator = "bytes \<Rightarrow> bytes option \<Rightarrow> bytes list \<Rightarrow> bytes"

definition record_new :: "bytes \<Rightarrow> bytes \<Rightarrow> storage_record" where
  "record_new k v = \<lparr>rec_key = k, rec_value = v\<rparr>"

definition record_empty :: "bytes \<Rightarrow> storage_record" where
  "record_empty k = record_new k []"

fun storage_error_string :: "storage_error \<Rightarrow> string" where
  "storage_error_string (Storage msg) = ''Storage error: '' @ msg"
| "storage_error_string (Internal msg) = ''Internal error: '' @ msg"

definition put_options_default :: put_options where
  "put_options_default = \<lparr>put_ttl = Default\<rparr>"

definition put_record_op_new :: "storage_record \<Rightarrow> put_record_op" where
  "put_record_op_new r = \<lparr>put_record = r, put_opts = put_options_default\<rparr>"

definition put_record_op_new_with_options :: "storage_record \<Rightarrow> put_options \<Rightarrow> put_record_op" where
  "put_record_op_new_with_options r opts = \<lparr>put_record = r, put_opts = opts\<rparr>"

definition put_record_op_with_options :: "put_record_op \<Rightarrow> put_options \<Rightarrow> put_record_op" where
  "put_record_op_with_options op opts = \<lparr>put_record = put_record op, put_opts = opts\<rparr>"

definition merge_record_op_new :: "storage_record \<Rightarrow> merge_record_op" where
  "merge_record_op_new r = \<lparr>merge_record = r, merge_opts = \<lparr>merge_ttl = Default\<rparr>\<rparr>"

definition merge_record_op_new_with_ttl :: "storage_record \<Rightarrow> merge_options \<Rightarrow> merge_record_op" where
  "merge_record_op_new_with_ttl r opts = \<lparr>merge_record = r, merge_opts = opts\<rparr>"

definition write_options_default :: write_options where
  "write_options_default = \<lparr>await_durable = False\<rparr>"

text \<open>\<open>default_merge_batch\<close>; the final \<open>expect\<close> panics on no value and no operands.\<close>

primrec default_merge_loop ::
    "(bytes \<Rightarrow> bytes option \<Rightarrow> bytes \<Rightarrow> bytes) \<Rightarrow> bytes \<Rightarrow> bytes option \<Rightarrow> bytes list \<Rightarrow> bytes option" where
  "default_merge_loop merge key result [] = result"
| "default_merge_loop merge key result (operand # operands) =
     default_merge_loop merge key (Some (merge key result operand)) operands"

definition default_merge_batch ::
    "bytes \<Rightarrow> bytes option \<Rightarrow> bytes list \<Rightarrow> (bytes \<Rightarrow> bytes option \<Rightarrow> bytes \<Rightarrow> bytes) \<Rightarrow> bytes option" where
  "default_merge_batch key existing_value operands merge =
     default_merge_loop merge key existing_value operands"

record ('s, 'r) storage_ops =
  op_get :: "'s \<Rightarrow> bytes \<Rightarrow> storage_record option storage_result"
  op_scan_iter :: "'s \<Rightarrow> bytes_range \<Rightarrow> storage_record storage_result list storage_result"
  op_apply_with_options :: "'s \<Rightarrow> record_op list \<Rightarrow> write_options \<Rightarrow> 's \<times> write_result storage_result"
  op_put_with_options :: "'s \<Rightarrow> put_record_op list \<Rightarrow> write_options \<Rightarrow> 's \<times> write_result storage_result"
  op_merge_with_options :: "'s \<Rightarrow> merge_record_op list \<Rightarrow> write_options \<Rightarrow> 's \<times> write_result storage_result"
  op_snapshot :: "'s \<Rightarrow> 's \<times> 'r storage_result"
  op_snap_get :: "'s \<Rightarrow> 'r \<Rightarrow> bytes \<Rightarrow> storage_record option storage_result"
  op_snap_scan_iter :: "'s \<Rightarrow> 'r \<Rightarrow> bytes_range \<Rightarrow> storage_record storage_result list storage_result"
  op_flush :: "'s \<Rightarrow> 's \<times> unit storage_result"
  op_create_checkpoint :: "'s \<Rightarrow> 's \<times> checkpoint_info storage_result"

subsection \<open>Provided methods of the traits\<close>

text \<open>\<open>scan\<close>: the loop over \<open>next\<close>, which stops at the first error.\<close>

primrec scan_collect :: "storage_record list \<Rightarrow> storage_record storage_result list \<Rightarrow> storage_record list storage_result" where
  "scan_collect records [] = Ok records"
| "scan_collect records (r # iter) =
     result_bind r (\<lambda>record. scan_collect (records @ [record]) iter)"

definition storage_scan :: "('s, 'r) storage_ops \<Rightarrow> 's \<Rightarrow> bytes_range \<Rightarrow> storage_record list storage_result" where
  "storage_scan ops s rg = result_bind (op_scan_iter ops s rg) (scan_collect [])"

definition storage_apply :: "('s, 'r) storage_ops \<Rightarrow> 's \<Rightarrow> record_op list \<Rightarrow> 's \<times> write_result storage_result" where
  "storage_apply ops s recs = op_apply_with_options ops s recs write_options_default"

definition storage_put :: "('s, 'r) storage_ops \<Rightarrow> 's \<Rightarrow> put_record_op list \<Rightarrow> 's \<times> write_result storage_result" where
  "storage_put ops s recs = op_put_with_options ops s recs write_options_default"

definition storage_merge :: "('s, 'r) storage_ops \<Rightarrow> 's \<Rightarrow> merge_record_op list \<Rightarrow> 's \<times> write_result storage_result" where
  "storage_merge ops s recs = op_merge_with_options ops s recs write_options_default"

lemma scan_collect_Ok [simp]: "scan_collect acc (map Ok rs) = Ok (acc @ rs)"
  by (induction rs arbitrary: acc) simp_all

section \<open>The contract of a storage\<close>

text \<open>
  What a reader sees of a storage is a map from keys to values.  A put makes its records visible in
  order (one whose time to live has already passed hides the key), a delete removes its key, and a
  scan lists the visible records of the range in key order.
\<close>

type_synonym view = "bytes \<Rightarrow> bytes option"

definition put_view :: "(ttl \<Rightarrow> bool) \<Rightarrow> put_record_op \<Rightarrow> view \<Rightarrow> view" where
  "put_view live op m =
     m(rec_key (put_record op) :=
         (if live (put_ttl (put_opts op)) then Some (rec_value (put_record op)) else None))"

fun op_view :: "(ttl \<Rightarrow> bool) \<Rightarrow> record_op \<Rightarrow> view \<Rightarrow> view" where
  "op_view live (Put op) m = put_view live op m"
| "op_view live (Delete k) m = m(k := None)"
| "op_view live (Merge op) m = m"

definition lists_view :: "view \<Rightarrow> bytes_range \<Rightarrow> storage_record list \<Rightarrow> bool" where
  "lists_view m r rs \<longleftrightarrow>
     sorted_wrt (<) (map rec_key rs)
     \<and> (\<forall>x. x \<in> set rs \<longleftrightarrow> m (rec_key x) = Some (rec_value x) \<and> range_contains r (rec_key x))"

definition range_ok :: "bytes_range \<Rightarrow> bool" where
  "range_ok r = (\<not> range_panics (range_start r) (range_end r))"

fun is_merge :: "record_op \<Rightarrow> bool" where
  "is_merge (Merge _) = True"
| "is_merge _ = False"

lemma lists_view_unique:
  assumes "lists_view m rg rs" and "lists_view m rg rs'"
  shows "rs = rs'"
proof (rule map_sorted_distinct_set_unique [of rec_key])
  from assms show eq: "set rs = set rs'" by (auto simp: lists_view_def)
  show "sorted (map rec_key rs)" "distinct (map rec_key rs)" "sorted (map rec_key rs')"
      "distinct (map rec_key rs')"
    using assms by (simp_all add: lists_view_def strict_sorted_iff)
  then show "inj_on rec_key (set rs \<union> set rs')" using eq by (simp add: distinct_map)
qed

locale storage_laws =
  fixes ops :: "('s, 'r) storage_ops"
    and inv :: "'s \<Rightarrow> bool" and snap_inv :: "'r \<Rightarrow> bool"
    and view :: "'s \<Rightarrow> view" and snap_view :: "'s \<Rightarrow> 'r \<Rightarrow> view"
    and live :: "'s \<Rightarrow> ttl \<Rightarrow> bool"
  assumes get_view: "inv s \<Longrightarrow> op_get ops s k = Ok (map_option (record_new k) (view s k))"
    and scan_view: "inv s \<Longrightarrow> range_ok rg \<Longrightarrow>
        \<exists>rs. op_scan_iter ops s rg = Ok (map Ok rs) \<and> lists_view (view s) rg rs"
    and put_ok: "inv s \<Longrightarrow> op_put_with_options ops s ps wo = (s', Ok w) \<Longrightarrow>
        inv s' \<and> view s' = fold (put_view (live s)) ps (view s) \<and> live s' = live s"
    and put_err: "inv s \<Longrightarrow> op_put_with_options ops s ps wo = (s', Err e) \<Longrightarrow>
        inv s' \<and> view s' = view s \<and> live s' = live s"
    and put_snap: "inv s \<Longrightarrow> op_put_with_options ops s ps wo = (s', x) \<Longrightarrow> snap_view s' r = snap_view s r"
    and put_total: "inv s \<Longrightarrow> snd (op_put_with_options ops s ps wo) \<noteq> Panic"
    and apply_ok: "inv s \<Longrightarrow> op_apply_with_options ops s rops wo = (s', Ok w) \<Longrightarrow>
        \<not> list_ex is_merge rops \<Longrightarrow>
        inv s' \<and> view s' = fold (op_view (live s)) rops (view s) \<and> live s' = live s"
    and apply_err: "inv s \<Longrightarrow> op_apply_with_options ops s rops wo = (s', Err e) \<Longrightarrow>
        inv s' \<and> view s' = view s \<and> live s' = live s"
    and apply_total: "inv s \<Longrightarrow> \<not> list_ex is_merge rops \<Longrightarrow> snd (op_apply_with_options ops s rops wo) \<noteq> Panic"
    and snapshot_ok: "inv s \<Longrightarrow> op_snapshot ops s = (s', Ok r) \<Longrightarrow>
        inv s' \<and> view s' = view s \<and> live s' = live s \<and> snap_inv r \<and> snap_view s' r = view s"
    and snapshot_err: "inv s \<Longrightarrow> op_snapshot ops s = (s', Err e) \<Longrightarrow>
        inv s' \<and> view s' = view s \<and> live s' = live s"
    and snapshot_total: "inv s \<Longrightarrow> snd (op_snapshot ops s) \<noteq> Panic"
    and snap_get_view: "inv s \<Longrightarrow> snap_inv r \<Longrightarrow>
        op_snap_get ops s r k = Ok (map_option (record_new k) (snap_view s r k))"
    and snap_scan_view: "inv s \<Longrightarrow> snap_inv r \<Longrightarrow> range_ok rg \<Longrightarrow>
        \<exists>rs. op_snap_scan_iter ops s r rg = Ok (map Ok rs) \<and> lists_view (snap_view s r) rg rs"
    and live_no_expiry: "inv s \<Longrightarrow> live s NoExpiry"
    and flush_view: "inv s \<Longrightarrow> op_flush ops s = (s', y) \<Longrightarrow>
        inv s' \<and> view s' = view s \<and> live s' = live s"
    and snapshot_snap: "inv s \<Longrightarrow> op_snapshot ops s = (s', z) \<Longrightarrow> snap_view s' r = snap_view s r"
    and flush_snap: "inv s \<Longrightarrow> op_flush ops s = (s', y) \<Longrightarrow> snap_view s' r = snap_view s r"
begin

lemma scan_lists:
  assumes "inv s" and "range_ok rg"
  shows "\<exists>rs. storage_scan ops s rg = Ok rs \<and> lists_view (view s) rg rs"
  using scan_view [OF assms] by (auto simp: storage_scan_def)

end

end
