(* ===== verification/In_Memory.thy ===== *)
theory In_Memory
  imports Storage_Api
begin

text \<open>
  The in-memory storage and the failure-injecting wrapper
  (\<open>common/src/storage/in_memory.rs\<close>), each as a record of storage operations, with the proof that
  both keep the contract \<open>storage_laws\<close>.

  The clock is the value its \<open>now\<close> returns, a field of the state that the environment changes between
  operations; snapshots read the clock of the storage they came from.  \<open>im_poisoned\<close> is the poison
  flag of the \<open>RwLock\<close>: a panic under the write lock sets it, and every later lock attempt fails.
  \<open>im_durable_sent\<close> records what was sent on the durable-sequence watch channel.
\<close>

section \<open>Definitions\<close>

record stored_value =
  sv_value :: bytes
  sv_expire_ts :: "i64 option"

definition is_expired :: "stored_value \<Rightarrow> i64 \<Rightarrow> bool" where
  "is_expired sv now = (case sv_expire_ts sv of None \<Rightarrow> False | Some ts \<Rightarrow> sint ts \<le> sint now)"

definition compute_expire_ts :: "i64 \<Rightarrow> ttl \<Rightarrow> u64 option \<Rightarrow> i64 option" where
  "compute_expire_ts now t default_ttl =
     (case t of
        Default \<Rightarrow> map_option (\<lambda>ms. now + ms) default_ttl
      | NoExpiry \<Rightarrow> None
      | ExpireAfter ms \<Rightarrow> Some (now + ms)
      | ExpireAt ts \<Rightarrow> Some ts)"

record in_memory_storage =
  im_data :: "stored_value btree"
  im_poisoned :: bool
  im_merge_operator :: "merge_operator option"
  im_clock :: i64
  im_default_ttl :: "u64 option"
  im_written_seq :: u64
  im_durable_seq :: u64
  im_durable_sent :: "u64 list"
  im_defer_durability :: bool

definition in_memory_new :: "i64 \<Rightarrow> in_memory_storage" where
  "in_memory_new wall_clock =
     \<lparr>im_data = [], im_poisoned = False, im_merge_operator = None, im_clock = wall_clock,
      im_default_ttl = None, im_written_seq = 0, im_durable_seq = 0, im_durable_sent = [],
      im_defer_durability = False\<rparr>"

definition in_memory_with_merge_operator :: "i64 \<Rightarrow> merge_operator \<Rightarrow> in_memory_storage" where
  "in_memory_with_merge_operator wall_clock f =
     \<lparr>im_data = [], im_poisoned = False, im_merge_operator = Some f, im_clock = wall_clock,
      im_default_ttl = None, im_written_seq = 0, im_durable_seq = 0, im_durable_sent = [],
      im_defer_durability = False\<rparr>"

definition with_clock :: "in_memory_storage \<Rightarrow> i64 \<Rightarrow> in_memory_storage" where
  "with_clock st now = st\<lparr>im_clock := now\<rparr>"

definition with_default_ttl :: "in_memory_storage \<Rightarrow> u64 \<Rightarrow> in_memory_storage" where
  "with_default_ttl st t = st\<lparr>im_default_ttl := Some t\<rparr>"

definition with_deferred_durability :: "in_memory_storage \<Rightarrow> in_memory_storage" where
  "with_deferred_durability st = st\<lparr>im_defer_durability := True\<rparr>"

definition flush_to :: "in_memory_storage \<Rightarrow> u64 \<Rightarrow> in_memory_storage option" where
  "flush_to st seq =
     (if \<not> seq \<le> im_written_seq st then None
      else if \<not> seq \<ge> im_durable_seq st then None
      else Some (st\<lparr>im_durable_seq := seq, im_durable_sent := im_durable_sent st @ [seq]\<rparr>))"

definition next_seqnum :: "in_memory_storage \<Rightarrow> in_memory_storage \<times> u64" where
  "next_seqnum st =
     (let seq = im_written_seq st + 1; st = st\<lparr>im_written_seq := seq\<rparr> in
      if \<not> im_defer_durability st
      then (st\<lparr>im_durable_seq := seq, im_durable_sent := im_durable_sent st @ [seq]\<rparr>, seq)
      else (st, seq))"

subsection \<open>Reads\<close>

definition data_get :: "stored_value btree \<Rightarrow> i64 \<Rightarrow> bytes \<Rightarrow> storage_record option" where
  "data_get data now key =
     (case btree_get data key of
        Some stored \<Rightarrow> if \<not> is_expired stored now then Some (record_new key (sv_value stored)) else None
      | None \<Rightarrow> None)"

definition data_scan :: "stored_value btree \<Rightarrow> i64 \<Rightarrow> bytes_range \<Rightarrow> storage_record list option" where
  "data_scan data now rg =
     map_option (\<lambda>kvs. map (\<lambda>(k, stored). record_new k (sv_value stored))
                           (filter (\<lambda>(_, stored). \<not> is_expired stored now) kvs))
       (btree_range data rg)"

definition read_lock_error :: storage_error where
  "read_lock_error = Internal ''Failed to acquire read lock: {}''"

definition write_lock_error :: storage_error where
  "write_lock_error = Internal ''Failed to acquire write lock: {}''"

definition im_get :: "in_memory_storage \<Rightarrow> bytes \<Rightarrow> storage_record option storage_result" where
  "im_get st key =
     (if im_poisoned st then Err read_lock_error else Ok (data_get (im_data st) (im_clock st) key))"

record in_memory_iterator =
  it_records :: "storage_record list"
  it_index :: nat

definition im_scan_iter :: "in_memory_storage \<Rightarrow> bytes_range \<Rightarrow> in_memory_iterator storage_result" where
  "im_scan_iter st rg =
     (if im_poisoned st then Err read_lock_error
      else case data_scan (im_data st) (im_clock st) rg of
             None \<Rightarrow> Panic
           | Some records \<Rightarrow> Ok \<lparr>it_records = records, it_index = 0\<rparr>)"

definition iterator_next :: "in_memory_iterator \<Rightarrow> in_memory_iterator \<times> storage_record option storage_result" where
  "iterator_next it =
     (if it_index it \<ge> length (it_records it) then (it, Ok None)
      else (it\<lparr>it_index := it_index it + 1\<rparr>, Ok (Some (it_records it ! it_index it))))"

text \<open>The results \<open>next\<close> returns until it is exhausted.\<close>

function iterator_items :: "in_memory_iterator \<Rightarrow> storage_record storage_result list" where
  "iterator_items it =
     (case iterator_next it of
        (it', Ok (Some r)) \<Rightarrow> Ok r # iterator_items it'
      | (_, Ok None) \<Rightarrow> []
      | (_, Err e) \<Rightarrow> [Err e]
      | (_, Panic) \<Rightarrow> [Panic])"
  by pat_completeness auto
termination
  by (relation "measure (\<lambda>it. length (it_records it) - it_index it)")
     (auto simp: iterator_next_def split: if_splits)

declare iterator_items.simps [simp del]

type_synonym in_memory_snapshot = "stored_value btree"

definition snap_get :: "in_memory_storage \<Rightarrow> in_memory_snapshot \<Rightarrow> bytes \<Rightarrow> storage_record option storage_result" where
  "snap_get st data key = Ok (data_get data (im_clock st) key)"

definition snap_scan_iter :: "in_memory_storage \<Rightarrow> in_memory_snapshot \<Rightarrow> bytes_range \<Rightarrow> in_memory_iterator storage_result" where
  "snap_scan_iter st data rg =
     (case data_scan data (im_clock st) rg of
        None \<Rightarrow> Panic
      | Some records \<Rightarrow> Ok \<lparr>it_records = records, it_index = 0\<rparr>)"

subsection \<open>Writes\<close>

text \<open>The loop bodies; \<^const>\<open>None\<close> is the panic of \<open>merge_operator.as_ref().unwrap()\<close>.\<close>

definition put_one :: "i64 \<Rightarrow> u64 option \<Rightarrow> put_record_op \<Rightarrow> stored_value btree \<Rightarrow> stored_value btree" where
  "put_one now default_ttl op data =
     btree_insert (rec_key (put_record op))
       \<lparr>sv_value = rec_value (put_record op),
        sv_expire_ts = compute_expire_ts now (put_ttl (put_opts op)) default_ttl\<rparr> data"

definition merge_one ::
    "i64 \<Rightarrow> u64 option \<Rightarrow> merge_operator \<Rightarrow> merge_record_op \<Rightarrow> stored_value btree \<Rightarrow> stored_value btree" where
  "merge_one now default_ttl f op data =
     (let key = rec_key (merge_record op);
          existing_value =
            (case btree_get data key of
               Some s \<Rightarrow> if \<not> is_expired s now then Some (sv_value s) else None
             | None \<Rightarrow> None);
          merged_value = f key existing_value [rec_value (merge_record op)]
      in btree_insert key
           \<lparr>sv_value = merged_value,
            sv_expire_ts = compute_expire_ts now (merge_ttl (merge_opts op)) default_ttl\<rparr> data)"

fun apply_one ::
    "i64 \<Rightarrow> u64 option \<Rightarrow> merge_operator option \<Rightarrow> record_op \<Rightarrow> stored_value btree \<Rightarrow> stored_value btree option" where
  "apply_one now default_ttl f (Put op) data = Some (put_one now default_ttl op data)"
| "apply_one now default_ttl f (Merge op) data =
     (case f of None \<Rightarrow> None | Some g \<Rightarrow> Some (merge_one now default_ttl g op data))"
| "apply_one now default_ttl f (Delete key) data = Some (btree_remove key data)"

text \<open>The data at the end of the loop, and whether the loop completed.\<close>

primrec apply_loop ::
    "i64 \<Rightarrow> u64 option \<Rightarrow> merge_operator option \<Rightarrow> record_op list \<Rightarrow> stored_value btree \<Rightarrow> stored_value btree \<times> bool" where
  "apply_loop now default_ttl f [] data = (data, True)"
| "apply_loop now default_ttl f (op # records) data =
     (case apply_one now default_ttl f op data of
        None \<Rightarrow> (data, False)
      | Some data' \<Rightarrow> apply_loop now default_ttl f records data')"

definition finish_write :: "in_memory_storage \<Rightarrow> in_memory_storage \<times> write_result storage_result" where
  "finish_write st = (let (st', seq) = next_seqnum st in (st', Ok \<lparr>seqnum = seq\<rparr>))"

definition im_apply_with_options ::
    "in_memory_storage \<Rightarrow> record_op list \<Rightarrow> write_options \<Rightarrow> in_memory_storage \<times> write_result storage_result" where
  "im_apply_with_options st records wo =
     (if im_poisoned st then (st, Err write_lock_error)
      else case apply_loop (im_clock st) (im_default_ttl st) (im_merge_operator st) records (im_data st) of
             (data, False) \<Rightarrow> (st\<lparr>im_data := data, im_poisoned := True\<rparr>, Panic)
           | (data, True) \<Rightarrow> finish_write (st\<lparr>im_data := data\<rparr>))"

definition im_put_with_options ::
    "in_memory_storage \<Rightarrow> put_record_op list \<Rightarrow> write_options \<Rightarrow> in_memory_storage \<times> write_result storage_result" where
  "im_put_with_options st records wo =
     (if im_poisoned st then (st, Err write_lock_error)
      else finish_write
        (st\<lparr>im_data := fold (put_one (im_clock st) (im_default_ttl st)) records (im_data st)\<rparr>))"

definition im_merge_with_options ::
    "in_memory_storage \<Rightarrow> merge_record_op list \<Rightarrow> write_options \<Rightarrow> in_memory_storage \<times> write_result storage_result" where
  "im_merge_with_options st records wo =
     (case im_merge_operator st of
        None \<Rightarrow> (st, Err (Storage ''Merge operator not configured: in-memory storage requires a merge operator to be set during construction''))
      | Some merge_op \<Rightarrow>
          if im_poisoned st then (st, Err write_lock_error)
          else finish_write
            (st\<lparr>im_data := fold (merge_one (im_clock st) (im_default_ttl st) merge_op) records (im_data st)\<rparr>))"

definition im_snapshot :: "in_memory_storage \<Rightarrow> in_memory_storage \<times> in_memory_snapshot storage_result" where
  "im_snapshot st = (st, if im_poisoned st then Err read_lock_error else Ok (im_data st))"

definition im_flush :: "in_memory_storage \<Rightarrow> in_memory_storage \<times> unit storage_result" where
  "im_flush st =
     (if im_defer_durability st
      then case flush_to st (im_written_seq st) of None \<Rightarrow> (st, Panic) | Some st' \<Rightarrow> (st', Ok ())
      else (st, Ok ()))"

definition im_create_checkpoint :: "in_memory_storage \<Rightarrow> in_memory_storage \<times> checkpoint_info storage_result" where
  "im_create_checkpoint st =
     (st, Err (Storage ''checkpoints are not supported for in-memory storage''))"

definition in_memory_ops :: "(in_memory_storage, in_memory_snapshot) storage_ops" where
  "in_memory_ops =
     \<lparr>op_get = im_get,
      op_scan_iter = (\<lambda>st rg. result_map iterator_items (im_scan_iter st rg)),
      op_apply_with_options = im_apply_with_options,
      op_put_with_options = im_put_with_options,
      op_merge_with_options = im_merge_with_options,
      op_snapshot = im_snapshot,
      op_snap_get = snap_get,
      op_snap_scan_iter = (\<lambda>st data rg. result_map iterator_items (snap_scan_iter st data rg)),
      op_flush = im_flush,
      op_create_checkpoint = im_create_checkpoint\<rparr>"

subsection \<open>Failure injection\<close>

datatype failure = Once storage_error | Persistent storage_error

record 's failing_storage =
  fs_inner :: 's
  fs_fail_apply :: "failure option"
  fs_fail_put :: "failure option"
  fs_fail_flush :: "failure option"
  fs_fail_snapshot :: "failure option"

text \<open>\<open>check_failure\<close> returns what the slot holds afterwards and the injected error, if any.\<close>

fun check_failure :: "failure option \<Rightarrow> failure option \<times> storage_error option" where
  "check_failure None = (None, None)"
| "check_failure (Some (Persistent err)) = (Some (Persistent err), Some err)"
| "check_failure (Some (Once err)) = (None, Some err)"

definition failing_wrap :: "'s \<Rightarrow> 's failing_storage" where
  "failing_wrap inner =
     \<lparr>fs_inner = inner, fs_fail_apply = None, fs_fail_put = None, fs_fail_flush = None,
      fs_fail_snapshot = None\<rparr>"

definition fail_apply :: "'s failing_storage \<Rightarrow> storage_error \<Rightarrow> 's failing_storage" where
  "fail_apply fs err = fs\<lparr>fs_fail_apply := Some (Persistent err)\<rparr>"

definition fail_apply_once :: "'s failing_storage \<Rightarrow> storage_error \<Rightarrow> 's failing_storage" where
  "fail_apply_once fs err = fs\<lparr>fs_fail_apply := Some (Once err)\<rparr>"

definition fail_put :: "'s failing_storage \<Rightarrow> storage_error \<Rightarrow> 's failing_storage" where
  "fail_put fs err = fs\<lparr>fs_fail_put := Some (Persistent err)\<rparr>"

definition fail_put_once :: "'s failing_storage \<Rightarrow> storage_error \<Rightarrow> 's failing_storage" where
  "fail_put_once fs err = fs\<lparr>fs_fail_put := Some (Once err)\<rparr>"

definition fail_flush :: "'s failing_storage \<Rightarrow> storage_error \<Rightarrow> 's failing_storage" where
  "fail_flush fs err = fs\<lparr>fs_fail_flush := Some (Persistent err)\<rparr>"

definition fail_flush_once :: "'s failing_storage \<Rightarrow> storage_error \<Rightarrow> 's failing_storage" where
  "fail_flush_once fs err = fs\<lparr>fs_fail_flush := Some (Once err)\<rparr>"

definition fail_snapshot :: "'s failing_storage \<Rightarrow> storage_error \<Rightarrow> 's failing_storage" where
  "fail_snapshot fs err = fs\<lparr>fs_fail_snapshot := Some (Persistent err)\<rparr>"

definition fail_snapshot_once :: "'s failing_storage \<Rightarrow> storage_error \<Rightarrow> 's failing_storage" where
  "fail_snapshot_once fs err = fs\<lparr>fs_fail_snapshot := Some (Once err)\<rparr>"

definition inner_call :: "'s failing_storage \<Rightarrow> ('s \<Rightarrow> 's \<times> 'a) \<Rightarrow> 's failing_storage \<times> 'a" where
  "inner_call fs f = (let (s', x) = f (fs_inner fs) in (fs\<lparr>fs_inner := s'\<rparr>, x))"

definition failing_apply ::
    "('s, 'r) storage_ops \<Rightarrow> 's failing_storage \<Rightarrow> record_op list \<Rightarrow> write_options
     \<Rightarrow> 's failing_storage \<times> write_result storage_result" where
  "failing_apply ops fs rops wo =
     (case check_failure (fs_fail_apply fs) of
        (slot, Some err) \<Rightarrow> (fs\<lparr>fs_fail_apply := slot\<rparr>, Err err)
      | (slot, None) \<Rightarrow> inner_call (fs\<lparr>fs_fail_apply := slot\<rparr>) (\<lambda>s. op_apply_with_options ops s rops wo))"

definition failing_put ::
    "('s, 'r) storage_ops \<Rightarrow> 's failing_storage \<Rightarrow> put_record_op list \<Rightarrow> write_options
     \<Rightarrow> 's failing_storage \<times> write_result storage_result" where
  "failing_put ops fs records wo =
     (case check_failure (fs_fail_put fs) of
        (slot, Some err) \<Rightarrow> (fs\<lparr>fs_fail_put := slot\<rparr>, Err err)
      | (slot, None) \<Rightarrow> inner_call (fs\<lparr>fs_fail_put := slot\<rparr>) (\<lambda>s. op_put_with_options ops s records wo))"

definition failing_snapshot ::
    "('s, 'r) storage_ops \<Rightarrow> 's failing_storage \<Rightarrow> 's failing_storage \<times> 'r storage_result" where
  "failing_snapshot ops fs =
     (case check_failure (fs_fail_snapshot fs) of
        (slot, Some err) \<Rightarrow> (fs\<lparr>fs_fail_snapshot := slot\<rparr>, Err err)
      | (slot, None) \<Rightarrow> inner_call (fs\<lparr>fs_fail_snapshot := slot\<rparr>) (op_snapshot ops))"

definition failing_flush ::
    "('s, 'r) storage_ops \<Rightarrow> 's failing_storage \<Rightarrow> 's failing_storage \<times> unit storage_result" where
  "failing_flush ops fs =
     (case check_failure (fs_fail_flush fs) of
        (slot, Some err) \<Rightarrow> (fs\<lparr>fs_fail_flush := slot\<rparr>, Err err)
      | (slot, None) \<Rightarrow> inner_call (fs\<lparr>fs_fail_flush := slot\<rparr>) (op_flush ops))"

definition failing_ops :: "('s, 'r) storage_ops \<Rightarrow> ('s failing_storage, 'r) storage_ops" where
  "failing_ops ops =
     \<lparr>op_get = (\<lambda>fs. op_get ops (fs_inner fs)),
      op_scan_iter = (\<lambda>fs. op_scan_iter ops (fs_inner fs)),
      op_apply_with_options = failing_apply ops,
      op_put_with_options = failing_put ops,
      op_merge_with_options =
        (\<lambda>fs records wo. inner_call fs (\<lambda>s. op_merge_with_options ops s records wo)),
      op_snapshot = failing_snapshot ops,
      op_snap_get = (\<lambda>fs. op_snap_get ops (fs_inner fs)),
      op_snap_scan_iter = (\<lambda>fs. op_snap_scan_iter ops (fs_inner fs)),
      op_flush = failing_flush ops,
      op_create_checkpoint = (\<lambda>fs. inner_call fs (op_create_checkpoint ops))\<rparr>"

section \<open>The in-memory storage keeps the contract\<close>

definition im_view :: "in_memory_storage \<Rightarrow> view" where
  "im_view st k = map_option rec_value (data_get (im_data st) (im_clock st) k)"

definition im_snap_view :: "in_memory_storage \<Rightarrow> in_memory_snapshot \<Rightarrow> view" where
  "im_snap_view st data k = map_option rec_value (data_get data (im_clock st) k)"

definition live_at :: "i64 \<Rightarrow> u64 option \<Rightarrow> ttl \<Rightarrow> bool" where
  "live_at now dt t = (\<not> is_expired \<lparr>sv_value = [], sv_expire_ts = compute_expire_ts now t dt\<rparr> now)"

definition im_live :: "in_memory_storage \<Rightarrow> ttl \<Rightarrow> bool" where
  "im_live st = live_at (im_clock st) (im_default_ttl st)"

definition im_inv :: "in_memory_storage \<Rightarrow> bool" where
  "im_inv st \<longleftrightarrow> btree_wf (im_data st) \<and> \<not> im_poisoned st"

definition data_view :: "i64 \<Rightarrow> stored_value btree \<Rightarrow> view" where
  "data_view now data k = map_option rec_value (data_get data now k)"

lemma data_get_view: "data_get data now k = map_option (record_new k) (data_view now data k)"
  by (simp add: data_view_def data_get_def record_new_def split: option.split)

lemma view_data_view: "im_view st = data_view (im_clock st) (im_data st)"
  "im_snap_view st data = data_view (im_clock st) data"
  by (simp_all add: fun_eq_iff im_view_def im_snap_view_def data_view_def)

lemma data_view_insert:
  "btree_wf data \<Longrightarrow>
   data_view now (btree_insert k sv data) = (data_view now data)(k := if is_expired sv now then None else Some (sv_value sv))"
  by (auto simp: fun_eq_iff data_view_def data_get_def record_new_def)

lemma data_view_remove: "data_view now (btree_remove k data) = (data_view now data)(k := None)"
  by (auto simp: fun_eq_iff data_view_def data_get_def)

lemma is_expired_live_at:
  "is_expired \<lparr>sv_value = v, sv_expire_ts = compute_expire_ts now t dt\<rparr> now \<longleftrightarrow> \<not> live_at now dt t"
  by (simp add: is_expired_def live_at_def)

lemma iterator_items_drop:
  "iterator_items it = map Ok (drop (it_index it) (it_records it))"
proof (induction it rule: iterator_items.induct)
  case (1 it)
  then show ?case
    using Cons_nth_drop_Suc [of "it_index it" "it_records it", symmetric]
    by (subst iterator_items.simps) (auto simp: iterator_next_def not_le)
qed

lemma data_view_iff:
  "btree_wf data \<Longrightarrow>
   data_view now data k = Some v \<longleftrightarrow> (\<exists>sv. (k, sv) \<in> set data \<and> \<not> is_expired sv now \<and> v = sv_value sv)"
  by (auto simp: data_view_def data_get_def record_new_def btree_get_iff [symmetric] split: option.split)

lemma data_scan_lists:
  assumes "btree_wf data" and "range_ok rg"
  shows "\<exists>rs. data_scan data now rg = Some rs \<and> lists_view (data_view now data) rg rs"
proof -
  let ?kvs = "filter (\<lambda>(k, sv). range_contains rg k \<and> \<not> is_expired sv now) data"
  let ?rs = "map (\<lambda>(k, sv). record_new k (sv_value sv)) ?kvs"
  have keys: "map rec_key ?rs = map fst ?kvs" by (simp add: record_new_def case_prod_beta comp_def)
  have "btree_wf ?kvs" using assms(1) by (rule btree_wf_filter)
  then have "sorted_wrt (<) (map rec_key ?rs)" unfolding keys btree_wf_def .
  moreover have "x \<in> set ?rs \<longleftrightarrow> data_view now data (rec_key x) = Some (rec_value x) \<and> range_contains rg (rec_key x)" for x
    by (cases x) (force simp: data_view_iff [OF assms(1)] record_new_def image_iff)
  ultimately have "lists_view (data_view now data) rg ?rs" by (simp add: lists_view_def)
  moreover have "data_scan data now rg = Some ?rs"
    using assms(2) by (simp add: data_scan_def btree_range_def range_ok_def filter_filter case_prod_unfold conj_commute)
  ultimately show ?thesis by blast
qed

lemma put_one_view [simp]:
  "btree_wf data \<Longrightarrow> data_view now (put_one now dt op data) =
     put_view (live_at now dt) op (data_view now data)"
  by (simp add: put_one_def put_view_def data_view_insert is_expired_live_at)

text \<open>What a batch operation means for a reader, merges included.\<close>

fun op_meaning :: "(ttl \<Rightarrow> bool) \<Rightarrow> merge_operator \<Rightarrow> record_op \<Rightarrow> view \<Rightarrow> view" where
  "op_meaning live f (Put op) m = put_view live op m"
| "op_meaning live f (Delete k) m = m(k := None)"
| "op_meaning live f (Merge op) m =
     (let k = rec_key (merge_record op) in
      m(k := if live (merge_ttl (merge_opts op)) then Some (f k (m k) [rec_value (merge_record op)]) else None))"

lemma merge_one_view [simp]:
  assumes "btree_wf data"
  shows "data_view now (merge_one now dt f op data) =
     op_meaning (live_at now dt) f
       (Merge op) (data_view now data)"
proof -
  have "(case btree_get data k of Some s \<Rightarrow> if \<not> is_expired s now then Some (sv_value s) else None
          | None \<Rightarrow> None) = data_view now data k" for k
    by (simp add: data_view_def data_get_def record_new_def split: option.split)
  then show ?thesis
    using assms by (simp add: merge_one_def data_view_insert Let_def is_expired_live_at)
qed

lemma btree_wf_one [simp]:
  "btree_wf data \<Longrightarrow> btree_wf (put_one now dt op data)"
  "btree_wf data \<Longrightarrow> btree_wf (merge_one now dt f op' data)"
  by (simp_all add: put_one_def merge_one_def Let_def)

lemma put_fold_view:
  assumes "btree_wf data"
  shows "btree_wf (fold (put_one now dt) ps data) \<and>
    data_view now (fold (put_one now dt) ps data) =
      fold (put_view (live_at now dt))
        ps (data_view now data)"
  using assms by (induction ps arbitrary: data) simp_all

text \<open>The loop completes unless it meets a merge and there is no merge operator.\<close>

lemma apply_loop_view:
  assumes "btree_wf data" and "\<not> list_ex is_merge rops \<or> f = Some g"
  shows "\<exists>data'. apply_loop now dt f rops data = (data', True) \<and> btree_wf data' \<and>
    data_view now data' =
      fold (op_meaning (live_at now dt) g)
        rops (data_view now data)"
  using assms
proof (induction rops arbitrary: data)
  case (Cons op rops)
  show ?case
  proof (cases op)
    case (Put p)
    with Cons.IH [of "put_one now dt p data"] Cons.prems show ?thesis by auto
  next
    case (Merge p)
    with Cons.IH [of "merge_one now dt g p data"] Cons.prems show ?thesis
      by (auto simp del: op_meaning.simps)
  next
    case (Delete k)
    with Cons.IH [of "btree_remove k data"] Cons.prems show ?thesis
      by (auto simp: data_view_remove fun_upd_def)
  qed
qed simp

lemma apply_loop_panic:
  "list_ex is_merge rops \<Longrightarrow> snd (apply_loop now dt None rops data) = False"
proof (induction rops arbitrary: data)
  case (Cons op rops)
  then show ?case by (cases op) auto
qed simp

lemma finish_write_simps [simp]:
  "im_data (fst (finish_write st)) = im_data st"
  "im_poisoned (fst (finish_write st)) = im_poisoned st"
  "im_clock (fst (finish_write st)) = im_clock st"
  "im_default_ttl (fst (finish_write st)) = im_default_ttl st"
  "im_merge_operator (fst (finish_write st)) = im_merge_operator st"
  "im_written_seq (fst (finish_write st)) = im_written_seq st + 1"
  "im_defer_durability (fst (finish_write st)) = im_defer_durability st"
  "snd (finish_write st) = Ok \<lparr>seqnum = im_written_seq st + 1\<rparr>"
  by (simp_all add: finish_write_def next_seqnum_def Let_def)

lemmas storage_ops_simps = in_memory_ops_def failing_ops_def

lemma im_put_Ok:
  assumes "im_inv st" and "im_put_with_options st ps wo = (st', x)"
  shows "x = Ok \<lparr>seqnum = im_written_seq st + 1\<rparr> \<and> im_inv st' \<and> im_clock st' = im_clock st
    \<and> im_default_ttl st' = im_default_ttl st
    \<and> im_view st' = fold (put_view (im_live st)) ps (im_view st)"
proof -
  from assms have "(st', x) = finish_write
      (st\<lparr>im_data := fold (put_one (im_clock st) (im_default_ttl st)) ps (im_data st)\<rparr>)"
    by (simp add: im_put_with_options_def im_inv_def)
  then have "st' = fst (finish_write (st\<lparr>im_data := fold (put_one (im_clock st) (im_default_ttl st)) ps (im_data st)\<rparr>))"
    "x = snd (finish_write (st\<lparr>im_data := fold (put_one (im_clock st) (im_default_ttl st)) ps (im_data st)\<rparr>))"
    by (metis fst_conv, metis snd_conv)
  with assms(1) put_fold_view [of "im_data st" "im_clock st" "im_default_ttl st" ps] show ?thesis
    by (simp add: im_inv_def view_data_view im_live_def)
qed

lemma im_apply_Ok:
  assumes "im_inv st" and "\<not> list_ex is_merge rops \<or> im_merge_operator st = Some g"
    and "im_apply_with_options st rops wo = (st', x)"
  shows "x = Ok \<lparr>seqnum = im_written_seq st + 1\<rparr> \<and> im_inv st' \<and> im_clock st' = im_clock st
    \<and> im_default_ttl st' = im_default_ttl st
    \<and> im_view st' = fold (op_meaning (im_live st) g) rops (im_view st)"
proof -
  from assms(1) have "btree_wf (im_data st)" by (simp add: im_inv_def)
  from apply_loop_view [OF this assms(2), of "im_clock st" "im_default_ttl st"] obtain data'
    where loop: "apply_loop (im_clock st) (im_default_ttl st) (im_merge_operator st) rops (im_data st) = (data', True)"
      and wf: "btree_wf data'"
      and vw: "data_view (im_clock st) data' = fold (op_meaning (im_live st) g) rops (im_view st)"
    by (auto simp: im_live_def view_data_view)
  from assms(1,3) loop have eq: "(st', x) = finish_write (st\<lparr>im_data := data'\<rparr>)"
    by (simp add: im_apply_with_options_def im_inv_def)
  then have "st' = fst (finish_write (st\<lparr>im_data := data'\<rparr>))" "x = snd (finish_write (st\<lparr>im_data := data'\<rparr>))"
    by (metis fst_conv, metis snd_conv)
  with assms(1) wf vw show ?thesis by (simp add: im_inv_def view_data_view)
qed

lemma op_meaning_no_merge: "\<not> list_ex is_merge rops \<Longrightarrow> fold (op_meaning live g) rops m = fold (op_view live) rops m"
proof (induction rops arbitrary: m)
  case (Cons op rops)
  then show ?case by (cases op) simp_all
qed simp

lemma im_flush_view:
  assumes "im_flush st = (st', x)"
  shows "im_data st' = im_data st \<and> im_poisoned st' = im_poisoned st \<and> im_clock st' = im_clock st
    \<and> im_default_ttl st' = im_default_ttl st"
  using assms by (auto simp: im_flush_def flush_to_def split: if_splits)

lemma im_scan_lists:
  assumes "btree_wf data" and "range_ok rg"
  shows "\<exists>rs. result_map iterator_items (snap_scan_iter st data rg) = Ok (map Ok rs)
           \<and> lists_view (data_view (im_clock st) data) rg rs"
  using data_scan_lists [OF assms, of "im_clock st"]
  by (auto simp: snap_scan_iter_def iterator_items_drop)

lemma im_scan_iter_snap: "\<not> im_poisoned st \<Longrightarrow> im_scan_iter st rg = snap_scan_iter st (im_data st) rg"
  by (simp add: im_scan_iter_def snap_scan_iter_def)

lemma im_apply_total: "im_apply_with_options st rops wo = (st', Err e) \<Longrightarrow> st' = st"
  by (auto simp: im_apply_with_options_def finish_write_def Let_def split: if_splits bool.splits prod.splits)

interpretation im: storage_laws in_memory_ops im_inv btree_wf im_view im_snap_view im_live
proof
  fix s k assume "im_inv s"
  then show "op_get in_memory_ops s k = Ok (map_option (record_new k) (im_view s k))"
    by (simp add: in_memory_ops_def im_get_def im_inv_def data_get_view view_data_view)
next
  fix s rg assume "im_inv s" "range_ok rg"
  then show "\<exists>rs. op_scan_iter in_memory_ops s rg = Ok (map Ok rs) \<and> lists_view (im_view s) rg rs"
    using im_scan_lists [of "im_data s" rg s]
    by (simp add: in_memory_ops_def im_inv_def im_scan_iter_snap view_data_view)
next
  fix s ps wo s' w assume "im_inv s" "op_put_with_options in_memory_ops s ps wo = (s', Ok w)"
  then show "im_inv s' \<and> im_view s' = fold (put_view (im_live s)) ps (im_view s) \<and> im_live s' = im_live s"
    using im_put_Ok [of s ps wo s'] by (simp add: in_memory_ops_def im_live_def)
next
  fix s ps wo s' e assume "im_inv s" "op_put_with_options in_memory_ops s ps wo = (s', Err e)"
  then show "im_inv s' \<and> im_view s' = im_view s \<and> im_live s' = im_live s"
    using im_put_Ok [of s ps wo s' "Err e"] by (simp add: in_memory_ops_def)
next
  fix s ps wo s' x r assume "im_inv s" "op_put_with_options in_memory_ops s ps wo = (s', x)"
  then show "im_snap_view s' r = im_snap_view s r"
    using im_put_Ok [of s ps wo s' x] by (simp add: in_memory_ops_def view_data_view)
next
  fix s ps wo assume "im_inv s"
  then show "snd (op_put_with_options in_memory_ops s ps wo) \<noteq> Panic"
    using im_put_Ok [of s ps wo] by (metis in_memory_ops_def prod.collapse result.distinct(3) storage_ops.select_convs(4))
next
  fix s rops wo s' w
  assume "im_inv s" "op_apply_with_options in_memory_ops s rops wo = (s', Ok w)" "\<not> list_ex is_merge rops"
  then show "im_inv s' \<and> im_view s' = fold (op_view (im_live s)) rops (im_view s) \<and> im_live s' = im_live s"
    using im_apply_Ok [of s rops "\<lambda>_ _ _. []" wo s' "Ok w"]
    by (simp add: in_memory_ops_def im_live_def op_meaning_no_merge)
next
  fix s rops wo s' e assume "im_inv s" "op_apply_with_options in_memory_ops s rops wo = (s', Err e)"
  then show "im_inv s' \<and> im_view s' = im_view s \<and> im_live s' = im_live s"
    using im_apply_total [of s rops wo s' e] by (simp add: in_memory_ops_def)
next
  fix s rops wo assume "im_inv s" "\<not> list_ex is_merge rops"
  then show "snd (op_apply_with_options in_memory_ops s rops wo) \<noteq> Panic"
    using im_apply_Ok [of s rops "\<lambda>_ _ _. []" wo, OF _ _ prod.collapse [symmetric]]
    by (simp add: in_memory_ops_def)
next
  fix s s' r assume "im_inv s" "op_snapshot in_memory_ops s = (s', Ok r)"
  then show "im_inv s' \<and> im_view s' = im_view s \<and> im_live s' = im_live s \<and> btree_wf r \<and> im_snap_view s' r = im_view s"
    by (auto simp: in_memory_ops_def im_snapshot_def im_inv_def view_data_view)
next
  fix s s' e assume "im_inv s" "op_snapshot in_memory_ops s = (s', Err e)"
  then show "im_inv s' \<and> im_view s' = im_view s \<and> im_live s' = im_live s"
    by (auto simp: in_memory_ops_def im_snapshot_def)
next
  fix s assume "im_inv s"
  then show "snd (op_snapshot in_memory_ops s) \<noteq> Panic"
    by (simp add: in_memory_ops_def im_snapshot_def)
next
  fix s and r :: in_memory_snapshot and k assume "im_inv s" "btree_wf r"
  then show "op_snap_get in_memory_ops s r k = Ok (map_option (record_new k) (im_snap_view s r k))"
    by (simp add: in_memory_ops_def snap_get_def data_get_view view_data_view)
next
  fix s and r :: in_memory_snapshot and rg assume "im_inv s" "btree_wf r" "range_ok rg"
  then show "\<exists>rs. op_snap_scan_iter in_memory_ops s r rg = Ok (map Ok rs) \<and> lists_view (im_snap_view s r) rg rs"
    using im_scan_lists [of r rg s] by (simp add: in_memory_ops_def view_data_view)
next
  fix s assume "im_inv s"
  then show "im_live s NoExpiry" by (simp add: im_live_def live_at_def is_expired_def compute_expire_ts_def)
next
  fix s s' y assume "im_inv s" "op_flush in_memory_ops s = (s', y)"
  then show "im_inv s' \<and> im_view s' = im_view s \<and> im_live s' = im_live s"
    using im_flush_view [of s s' y]
    by (simp add: in_memory_ops_def im_inv_def im_live_def view_data_view)
next
  fix s s' z r assume "im_inv s" "op_snapshot in_memory_ops s = (s', z)"
  then show "im_snap_view s' r = im_snap_view s r"
    by (auto simp: in_memory_ops_def im_snapshot_def view_data_view)
next
  fix s s' y r assume "im_inv s" "op_flush in_memory_ops s = (s', y)"
  then show "im_snap_view s' r = im_snap_view s r"
    using im_flush_view [of s s' y] by (simp add: in_memory_ops_def view_data_view)
qed

section \<open>Failure injection keeps the contract\<close>

lemma check_failure_cases:
  obtains slot where "check_failure f = (slot, None)" | slot err where "check_failure f = (slot, Some err)"
  by (metis prod.collapse option.exhaust)

context storage_laws
begin

lemma failing_put_cases:
  assumes "failing_put ops fs ps wo = (fs', x)"
  shows "(\<exists>err. x = Err err \<and> fs_inner fs' = fs_inner fs)
    \<or> op_put_with_options ops (fs_inner fs) ps wo = (fs_inner fs', x)"
  using assms
  by (cases rule: check_failure_cases [of "fs_fail_put fs"])
     (auto simp: failing_put_def inner_call_def split: prod.splits)

lemma failing_apply_cases:
  assumes "failing_apply ops fs rops wo = (fs', x)"
  shows "(\<exists>err. x = Err err \<and> fs_inner fs' = fs_inner fs)
    \<or> op_apply_with_options ops (fs_inner fs) rops wo = (fs_inner fs', x)"
  using assms
  by (cases rule: check_failure_cases [of "fs_fail_apply fs"])
     (auto simp: failing_apply_def inner_call_def split: prod.splits)

lemma failing_snapshot_cases:
  assumes "failing_snapshot ops fs = (fs', x)"
  shows "(\<exists>err. x = Err err \<and> fs_inner fs' = fs_inner fs) \<or> op_snapshot ops (fs_inner fs) = (fs_inner fs', x)"
  using assms
  by (cases rule: check_failure_cases [of "fs_fail_snapshot fs"])
     (auto simp: failing_snapshot_def inner_call_def split: prod.splits)

lemma failing_flush_cases:
  assumes "failing_flush ops fs = (fs', x)"
  shows "(\<exists>err. x = Err err \<and> fs_inner fs' = fs_inner fs) \<or> op_flush ops (fs_inner fs) = (fs_inner fs', x)"
  using assms
  by (cases rule: check_failure_cases [of "fs_fail_flush fs"])
     (auto simp: failing_flush_def inner_call_def split: prod.splits)

lemma failing_laws:
  "storage_laws (failing_ops ops) (\<lambda>fs. inv (fs_inner fs)) snap_inv (\<lambda>fs. view (fs_inner fs))
     (\<lambda>fs. snap_view (fs_inner fs)) (\<lambda>fs. live (fs_inner fs))"
proof
  fix fs ps wo and fs' :: "'s failing_storage" and w
  assume "inv (fs_inner fs)" "op_put_with_options (failing_ops ops) fs ps wo = (fs', Ok w)"
  then show "inv (fs_inner fs') \<and> view (fs_inner fs') = fold (put_view (live (fs_inner fs))) ps (view (fs_inner fs))
      \<and> live (fs_inner fs') = live (fs_inner fs)"
    using failing_put_cases [of fs ps wo fs' "Ok w"] put_ok by (auto simp: failing_ops_def)
next
  fix fs ps wo and fs' :: "'s failing_storage" and e
  assume "inv (fs_inner fs)" "op_put_with_options (failing_ops ops) fs ps wo = (fs', Err e)"
  then show "inv (fs_inner fs') \<and> view (fs_inner fs') = view (fs_inner fs) \<and> live (fs_inner fs') = live (fs_inner fs)"
    using failing_put_cases [of fs ps wo fs' "Err e"] put_err by (auto simp: failing_ops_def)
next
  fix fs ps wo and fs' :: "'s failing_storage" and x r
  assume "inv (fs_inner fs)" "op_put_with_options (failing_ops ops) fs ps wo = (fs', x)"
  then show "snap_view (fs_inner fs') r = snap_view (fs_inner fs) r"
    using failing_put_cases [of fs ps wo fs' x] put_snap by (auto simp: failing_ops_def)
next
  fix fs :: "'s failing_storage" and ps wo assume "inv (fs_inner fs)"
  then show "snd (op_put_with_options (failing_ops ops) fs ps wo) \<noteq> Panic"
    using failing_put_cases [of fs ps wo "fst (failing_put ops fs ps wo)" "snd (failing_put ops fs ps wo)"]
      put_total [of "fs_inner fs" ps wo] by (auto simp: failing_ops_def)
next
  fix fs rops wo and fs' :: "'s failing_storage" and w
  assume "inv (fs_inner fs)" "op_apply_with_options (failing_ops ops) fs rops wo = (fs', Ok w)" "\<not> list_ex is_merge rops"
  then show "inv (fs_inner fs') \<and> view (fs_inner fs') = fold (op_view (live (fs_inner fs))) rops (view (fs_inner fs))
      \<and> live (fs_inner fs') = live (fs_inner fs)"
    using failing_apply_cases [of fs rops wo fs' "Ok w"] apply_ok by (auto simp: failing_ops_def)
next
  fix fs rops wo and fs' :: "'s failing_storage" and e
  assume "inv (fs_inner fs)" "op_apply_with_options (failing_ops ops) fs rops wo = (fs', Err e)"
  then show "inv (fs_inner fs') \<and> view (fs_inner fs') = view (fs_inner fs) \<and> live (fs_inner fs') = live (fs_inner fs)"
    using failing_apply_cases [of fs rops wo fs' "Err e"] apply_err by (auto simp: failing_ops_def)
next
  fix fs :: "'s failing_storage" and rops wo assume "inv (fs_inner fs)" "\<not> list_ex is_merge rops"
  then show "snd (op_apply_with_options (failing_ops ops) fs rops wo) \<noteq> Panic"
    using failing_apply_cases [of fs rops wo "fst (failing_apply ops fs rops wo)" "snd (failing_apply ops fs rops wo)"]
      apply_total [of "fs_inner fs" rops wo] by (auto simp: failing_ops_def)
next
  fix fs and fs' :: "'s failing_storage" and r
  assume "inv (fs_inner fs)" "op_snapshot (failing_ops ops) fs = (fs', Ok r)"
  then show "inv (fs_inner fs') \<and> view (fs_inner fs') = view (fs_inner fs) \<and> live (fs_inner fs') = live (fs_inner fs)
      \<and> snap_inv r \<and> snap_view (fs_inner fs') r = view (fs_inner fs)"
    using failing_snapshot_cases [of fs fs' "Ok r"] snapshot_ok by (auto simp: failing_ops_def)
next
  fix fs and fs' :: "'s failing_storage" and e
  assume "inv (fs_inner fs)" "op_snapshot (failing_ops ops) fs = (fs', Err e)"
  then show "inv (fs_inner fs') \<and> view (fs_inner fs') = view (fs_inner fs) \<and> live (fs_inner fs') = live (fs_inner fs)"
    using failing_snapshot_cases [of fs fs' "Err e"] snapshot_err by (auto simp: failing_ops_def)
next
  fix fs :: "'s failing_storage" assume "inv (fs_inner fs)"
  then show "snd (op_snapshot (failing_ops ops) fs) \<noteq> Panic"
    using failing_snapshot_cases [of fs "fst (failing_snapshot ops fs)" "snd (failing_snapshot ops fs)"]
      snapshot_total [of "fs_inner fs"] by (auto simp: failing_ops_def)
next
  fix fs and fs' :: "'s failing_storage" and y
  assume "inv (fs_inner fs)" "op_flush (failing_ops ops) fs = (fs', y)"
  then show "inv (fs_inner fs') \<and> view (fs_inner fs') = view (fs_inner fs) \<and> live (fs_inner fs') = live (fs_inner fs)"
    using failing_flush_cases [of fs fs' y] flush_view by (auto simp: failing_ops_def)
next
  fix fs and fs' :: "'s failing_storage" and z r
  assume "inv (fs_inner fs)" "op_snapshot (failing_ops ops) fs = (fs', z)"
  then show "snap_view (fs_inner fs') r = snap_view (fs_inner fs) r"
    using failing_snapshot_cases [of fs fs' z] snapshot_snap by (auto simp: failing_ops_def)
next
  fix fs and fs' :: "'s failing_storage" and y r
  assume "inv (fs_inner fs)" "op_flush (failing_ops ops) fs = (fs', y)"
  then show "snap_view (fs_inner fs') r = snap_view (fs_inner fs) r"
    using failing_flush_cases [of fs fs' y] flush_snap by (auto simp: failing_ops_def)
qed (simp_all add: failing_ops_def get_view scan_view snap_get_view snap_scan_view live_no_expiry)

end

interpretation failing_im: storage_laws "failing_ops in_memory_ops" "\<lambda>fs. im_inv (fs_inner fs)" btree_wf
    "\<lambda>fs. im_view (fs_inner fs)" "\<lambda>fs. im_snap_view (fs_inner fs)" "\<lambda>fs. im_live (fs_inner fs)"
  by (rule im.failing_laws)

section \<open>Batches and watermarks\<close>

lemma apply_loop_puts: "apply_loop now dt f (map Put ps) data = (fold (put_one now dt) ps data, True)"
  by (induction ps arbitrary: data) simp_all

lemma apply_loop_merges: "apply_loop now dt (Some g) (map Merge ms) data = (fold (merge_one now dt g) ms data, True)"
  by (induction ms arbitrary: data) simp_all

lemma put_is_apply: "im_put_with_options st ps wo = im_apply_with_options st (map Put ps) wo"
  by (simp add: im_put_with_options_def im_apply_with_options_def apply_loop_puts)

lemma merge_is_apply:
  "im_merge_operator st = Some g \<Longrightarrow> im_merge_with_options st ms wo = im_apply_with_options st (map Merge ms) wo"
  by (simp add: im_merge_with_options_def im_apply_with_options_def apply_loop_merges)

text \<open>
  The operations that change an in-memory storage, as steps; \<open>tick\<close> is the clock moving.  The write
  steps are those of the first \<open>2\<^sup>6\<^sup>4 - 1\<close> writes, before the sequence counter wraps.
\<close>

inductive im_step :: "in_memory_storage \<Rightarrow> in_memory_storage \<Rightarrow> bool" where
  apply_step: "im_written_seq st \<noteq> u64_max \<Longrightarrow> im_apply_with_options st rops wo = (st', x) \<Longrightarrow> im_step st st'"
| put_step: "im_written_seq st \<noteq> u64_max \<Longrightarrow> im_put_with_options st ps wo = (st', x) \<Longrightarrow> im_step st st'"
| merge_step: "im_written_seq st \<noteq> u64_max \<Longrightarrow> im_merge_with_options st ms wo = (st', x) \<Longrightarrow> im_step st st'"
| flush_step: "im_flush st = (st', y) \<Longrightarrow> im_step st st'"
| flush_to_step: "im_defer_durability st \<Longrightarrow> flush_to st seq = Some st' \<Longrightarrow> im_step st st'"
| tick: "im_step st (with_clock st now)"

inductive im_reachable :: "in_memory_storage \<Rightarrow> bool" where
  start: "im_reachable (in_memory_new now)"
| start_merge: "im_reachable (in_memory_with_merge_operator now f)"
| start_ttl: "im_reachable (with_default_ttl (in_memory_new now) t)"
| start_deferred: "im_reachable (with_deferred_durability (in_memory_new now))"
| more: "im_reachable st \<Longrightarrow> im_step st st' \<Longrightarrow> im_reachable st'"

definition watermarks_ok :: "in_memory_storage \<Rightarrow> bool" where
  "watermarks_ok st \<longleftrightarrow>
     im_durable_seq st \<le> im_written_seq st
     \<and> (\<not> im_defer_durability st \<longrightarrow> im_durable_seq st = im_written_seq st)
     \<and> (\<forall>q \<in> set (im_durable_sent st). q \<le> im_durable_seq st)"

lemma u64_less_succ: "w \<noteq> u64_max \<Longrightarrow> (w :: u64) < w + 1"
  using unat_u64_less [of w] word_unat_eq_iff [of w u64_max]
  by (simp add: word_less_nat_alt unat_word_ariths unat_max_word)

lemma watermarks_ok_data [simp]:
  "watermarks_ok (st\<lparr>im_data := d\<rparr>) = watermarks_ok st"
  "watermarks_ok (st\<lparr>im_data := d, im_poisoned := p\<rparr>) = watermarks_ok st"
  by (simp_all add: watermarks_ok_def)

lemma finish_write_watermarks:
  assumes "watermarks_ok st" and "im_written_seq st \<noteq> u64_max" and "finish_write st = (st', x)"
  shows "watermarks_ok st'"
proof -
  have "q \<le> im_written_seq st \<Longrightarrow> q \<le> im_written_seq st + 1" for q
    using u64_less_succ [OF assms(2)] by order
  with assms show ?thesis
    by (auto simp: watermarks_ok_def finish_write_def next_seqnum_def Let_def split: if_splits)
qed

lemma im_apply_watermarks:
  assumes "watermarks_ok st" and "im_written_seq st \<noteq> u64_max"
    and "im_apply_with_options st rops wo = (st', x)"
  shows "watermarks_ok st'"
proof (cases "apply_loop (im_clock st) (im_default_ttl st) (im_merge_operator st) rops (im_data st)")
  case (Pair d b)
  then show ?thesis
    using assms finish_write_watermarks [of "st\<lparr>im_data := d\<rparr>" st' x]
    by (cases b) (auto simp: im_apply_with_options_def split: if_splits)
qed

lemma flush_to_watermarks:
  assumes "watermarks_ok st" and "im_defer_durability st" and "flush_to st seq = Some st'"
  shows "watermarks_ok st'"
proof -
  have "im_durable_seq st \<le> seq" using assms(3) by (simp add: flush_to_def split: if_splits)
  then have "q \<le> im_durable_seq st \<Longrightarrow> q \<le> seq" for q by order
  with assms show ?thesis by (auto simp: watermarks_ok_def flush_to_def split: if_splits)
qed

lemma im_step_watermarks: "im_step st st' \<Longrightarrow> watermarks_ok st \<Longrightarrow> watermarks_ok st'"
proof (induction rule: im_step.induct)
  case (merge_step st ms wo st' x)
  show ?case
  proof (cases "im_merge_operator st")
    case None
    with merge_step show ?thesis by (simp add: im_merge_with_options_def)
  next
    case (Some g)
    with merge_step show ?thesis by (simp add: merge_is_apply im_apply_watermarks)
  qed
next
  case (flush_step st st' y)
  then show ?case
    by (auto simp: im_flush_def intro: flush_to_watermarks split: if_splits option.splits)
next
  case (flush_to_step st seq st')
  then show ?case by (blast intro: flush_to_watermarks)
next
  case (tick st now)
  then show ?case by (simp add: watermarks_ok_def with_clock_def)
qed (simp_all add: put_is_apply im_apply_watermarks)

lemma im_reachable_watermarks: "im_reachable st \<Longrightarrow> watermarks_ok st"
proof (induction rule: im_reachable.induct)
  case (more st st')
  then show ?case by (blast intro: im_step_watermarks)
qed (simp_all add: watermarks_ok_def in_memory_new_def in_memory_with_merge_operator_def
    with_default_ttl_def with_deferred_durability_def)

lemma sint_add_unsigned:
  fixes a b :: u64
  assumes "sint a + int (unat b) < 2 ^ 63"
  shows "sint (a + b) = sint a + int (unat b)"
proof -
  have "a + b = word_of_int (sint a + int (unat b))" by simp
  then have "sint (a + b) = (sint a + int (unat b) + 2 ^ 63) mod 2 ^ 64 - 2 ^ 63"
    using int_word_sint [of "sint a + int (unat b)", where ?'a = 64] by simp
  also have "(sint a + int (unat b) + 2 ^ 63) mod 2 ^ 64 = sint a + int (unat b) + 2 ^ 63"
  proof (rule mod_pos_pos_trivial)
    have "- (2 ^ 63) \<le> sint a" "0 \<le> int (unat b)" using sint_ge [of a] by simp_all
    then show "0 \<le> sint a + int (unat b) + 2 ^ 63" by linarith
    show "sint a + int (unat b) + 2 ^ 63 < 2 ^ 64" using assms by simp
  qed
  finally show ?thesis by simp
qed

lemma eq_record_new: "(\<exists>v. m = Some v \<and> r = record_new (rec_key r) v) \<longleftrightarrow> m = Some (rec_value r)"
  by (cases r) (auto simp: record_new_def)

section \<open>Properties\<close>

text \<open>
  C24. A batch of puts, deletes and merges applied to the in-memory storage always succeeds when a
  merge operator is configured or the batch has no merge, and a reader then sees the operations
  applied in order: a put whose time to live has already passed hides the key, a merge combines
  with the value a reader saw before it.
\<close>

theorem in_memory_apply_meaning:
  assumes "im_inv st" and "list_ex is_merge rops \<Longrightarrow> im_merge_operator st = Some f"
  shows "\<exists>st'. im_apply_with_options st rops wo = (st', Ok \<lparr>seqnum = im_written_seq st + 1\<rparr>)
    \<and> im_inv st' \<and> im_view st' = fold (op_meaning (im_live st) f) rops (im_view st)"
proof -
  obtain st' x where eq: "im_apply_with_options st rops wo = (st', x)" by fastforce
  with im_apply_Ok [OF assms(1) _ eq, of f] assms(2) show ?thesis by blast
qed

definition concat_merge :: merge_operator where
  "concat_merge k e ops = (case e of None \<Rightarrow> [] | Some v \<Rightarrow> v) @ concat ops"

theorem in_memory_apply_meaning_witness:
  "\<exists>st'. im_apply_with_options (in_memory_with_merge_operator 5 concat_merge)
       [Put (put_record_op_new (record_new [1] [10])),
        Merge (merge_record_op_new (record_new [1] [11])),
        Put (put_record_op_new_with_options (record_new [2] [12]) \<lparr>put_ttl = ExpireAfter 0\<rparr>),
        Delete [3]] write_options_default = (st', Ok \<lparr>seqnum = 1\<rparr>)
     \<and> im_view st' [1] = Some [10, 11] \<and> im_view st' [2] = None"
proof -
  let ?st = "in_memory_with_merge_operator 5 concat_merge"
  have "im_inv ?st" "im_merge_operator ?st = Some concat_merge"
    by (simp_all add: im_inv_def in_memory_with_merge_operator_def)
  from in_memory_apply_meaning [OF this, of
       "[Put (put_record_op_new (record_new [1] [10])),
         Merge (merge_record_op_new (record_new [1] [11])),
         Put (put_record_op_new_with_options (record_new [2] [12]) \<lparr>put_ttl = ExpireAfter 0\<rparr>),
         Delete [3]]" write_options_default]
  show ?thesis
    by (auto simp: in_memory_with_merge_operator_def put_view_def put_record_op_new_def
        put_record_op_new_with_options_def merge_record_op_new_def record_new_def
        put_options_default_def im_live_def live_at_def is_expired_def compute_expire_ts_def
        concat_merge_def Let_def)
qed



text \<open>
  Time to live: a record put with \<open>ExpireAfter(ms)\<close> is returned by \<open>get\<close> as long as the clock
  has not reached the time of the put plus \<open>ms\<close>, and never from then on, whatever the clock reads
  later (the sum not overflowing an \<open>i64\<close>).
\<close>

theorem in_memory_expire_after:
  assumes "im_inv st" and "sint (im_clock st) + int (unat ms) < 2 ^ 63"
    and "im_put_with_options st [put_record_op_new_with_options (record_new k v) \<lparr>put_ttl = ExpireAfter ms\<rparr>] wo = (st', Ok w)"
  shows "im_get (with_clock st' now) k =
    Ok (if sint now < sint (im_clock st) + int (unat ms) then Some (record_new k v) else None)"
proof -
  have "sint (im_clock st + ms) = sint (im_clock st) + int (unat ms)"
    using assms(2) by (rule sint_add_unsigned)
  then show ?thesis
    using assms(1,3)
    by (auto simp: im_put_with_options_def im_inv_def finish_write_def next_seqnum_def Let_def put_one_def
        put_record_op_new_with_options_def record_new_def im_get_def with_clock_def data_get_def
        is_expired_def compute_expire_ts_def split: if_splits)
qed

theorem in_memory_expire_after_witness:
  "im_get (with_clock (fst (im_put_with_options (in_memory_new 100)
       [put_record_op_new_with_options (record_new [1] [2]) \<lparr>put_ttl = ExpireAfter 50\<rparr>] write_options_default)) 149) [1]
     = Ok (Some (record_new [1] [2]))
   \<and> im_get (with_clock (fst (im_put_with_options (in_memory_new 100)
       [put_record_op_new_with_options (record_new [1] [2]) \<lparr>put_ttl = ExpireAfter 50\<rparr>] write_options_default)) 150) [1]
     = Ok None"
proof -
  let ?put = "im_put_with_options (in_memory_new 100)
       [put_record_op_new_with_options (record_new [1] [2]) \<lparr>put_ttl = ExpireAfter 50\<rparr>] write_options_default"
  have inv: "im_inv (in_memory_new 100)" by (simp add: im_inv_def in_memory_new_def)
  have time: "sint (im_clock (in_memory_new 100)) + int (unat (50 :: u64)) < 2 ^ 63"
    by (simp add: in_memory_new_def)
  have "snd ?put = Ok \<lparr>seqnum = im_written_seq (in_memory_new 100) + 1\<rparr>"
    using im_put_Ok [OF inv prod.collapse [symmetric]] by blast
  then have put: "?put = (fst ?put, Ok \<lparr>seqnum = im_written_seq (in_memory_new 100) + 1\<rparr>)"
    by (metis prod.collapse)
  show ?thesis
    using in_memory_expire_after [OF inv time put, of 149] in_memory_expire_after [OF inv time put, of 150]
    by (simp add: in_memory_new_def)
qed

text \<open>
  C31. Durable watermark: in every state the in-memory storage can reach before its sequence counter
  wraps, the durable sequence never exceeds the written one and everything published on the durable
  channel is durable; \<open>flush\<close> never panics and makes every written sequence durable.
\<close>

theorem in_memory_flush_durable:
  assumes "im_reachable st"
  shows "im_durable_seq st \<le> im_written_seq st
    \<and> (\<forall>q \<in> set (im_durable_sent st). q \<le> im_durable_seq st)
    \<and> (\<exists>st'. im_flush st = (st', Ok ()) \<and> im_durable_seq st' = im_written_seq st)"
  using im_reachable_watermarks [OF assms]
  by (auto simp: watermarks_ok_def im_flush_def flush_to_def)

theorem in_memory_flush_durable_witness:
  "\<exists>st. im_reachable st \<and> im_written_seq st = 1 \<and> im_durable_seq st = 0
     \<and> (\<exists>st'. im_flush st = (st', Ok ()) \<and> im_durable_seq st' = 1)"
proof -
  let ?st = "with_deferred_durability (in_memory_new 0)"
  let ?st' = "fst (im_put_with_options ?st [] write_options_default)"
  have "im_written_seq ?st \<noteq> u64_max" by (simp add: with_deferred_durability_def in_memory_new_def)
  then have "im_reachable ?st'"
    using im_reachable.more [OF im_reachable.start_deferred im_step.put_step, of 0 "[]" write_options_default]
    by (metis prod.collapse)
  with in_memory_flush_durable [OF this] show ?thesis
    by (intro exI [of _ ?st'])
       (simp add: im_put_with_options_def with_deferred_durability_def in_memory_new_def finish_write_def
         next_seqnum_def)
qed

text \<open>
  C32. A prefix scan of the in-memory storage, and of a snapshot taken from it, succeeds and returns
  in ascending key order exactly the records a reader can get whose key starts with the prefix.
\<close>

theorem in_memory_prefix_scan:
  assumes "im_inv st" and "btree_wf snap"
  shows "(\<exists>rs. storage_scan in_memory_ops st (bytes_range_prefix p) = Ok rs
      \<and> sorted_wrt (<) (map rec_key rs)
      \<and> (\<forall>r. r \<in> set rs \<longleftrightarrow> im_get st (rec_key r) = Ok (Some r) \<and> prefix p (rec_key r)))
    \<and> (\<exists>rs. op_snap_scan_iter in_memory_ops st snap (bytes_range_prefix p) = Ok (map Ok rs)
      \<and> sorted_wrt (<) (map rec_key rs)
      \<and> (\<forall>r. r \<in> set rs \<longleftrightarrow> snap_get st snap (rec_key r) = Ok (Some r) \<and> prefix p (rec_key r)))"
proof -
  have ok: "range_ok (bytes_range_prefix p)" by (simp add: range_ok_def)
  have get: "im_get st k = Ok (Some r) \<longleftrightarrow> (\<exists>v. im_view st k = Some v \<and> r = record_new k v)"
    and sget: "snap_get st snap k = Ok (Some r) \<longleftrightarrow> (\<exists>v. im_snap_view st snap k = Some v \<and> r = record_new k v)" for k r
    using im.get_view [OF assms(1), of k] im.snap_get_view [OF assms, of k]
    by (auto simp: in_memory_ops_def)
  from im.scan_lists [OF assms(1) ok] im.snap_scan_view [OF assms ok] show ?thesis
    unfolding get sget by (simp add: lists_view_def range_contains_prefix eq_record_new)
qed

theorem in_memory_prefix_scan_witness:
  "\<exists>rs. storage_scan in_memory_ops (in_memory_new 0) (bytes_range_prefix [1]) = Ok rs \<and> set rs = {}"
proof -
  have "im_inv (in_memory_new 0)" "btree_wf ([] :: in_memory_snapshot)"
    by (simp_all add: im_inv_def in_memory_new_def)
  from in_memory_prefix_scan [OF this, of "[1]"] show ?thesis
    by (auto simp: im_get_def in_memory_new_def data_get_def)
qed

end
