(* ===== verification/KeyValue.thy ===== *)
theory KeyValue
  imports In_Memory
begin

text \<open>
  The key-value database (\<open>keyvalue/src\<close>): user keys under a three-byte prefix of the shared key space
  (\<open>serde.rs\<close>), the read and write wrappers over a storage (\<open>storage.rs\<close>) and the database type
  (\<open>keyvalue.rs\<close>, \<open>reader.rs\<close>).  Over any storage that keeps its contract the database is a map, and
  a scan lists the map's entries of the user range in key order.
\<close>

section \<open>Definitions\<close>

definition kv_KEY_VERSION :: u8 where "kv_KEY_VERSION = 0x01"

definition kv_SUBSYSTEM :: u8 where "kv_SUBSYSTEM = 0x04"

definition kv_RECORD_TAG :: u8 where "kv_RECORD_TAG = 0x10"

definition kv_NEXT_RECORD_TAG :: u8 where "kv_NEXT_RECORD_TAG = 0x11"

lemmas kv_consts = kv_KEY_VERSION_def kv_SUBSYSTEM_def kv_RECORD_TAG_def kv_NEXT_RECORD_TAG_def

datatype kv_error =
    KvStorage string
  | KvEncoding string "int list"
  | KvInvalidInput string
  | KvInternal string

fun kv_error_from :: "storage_error \<Rightarrow> kv_error" where
  "kv_error_from (Storage msg) = KvStorage msg"
| "kv_error_from (Internal msg) = KvInternal msg"

definition kv_map_err :: "'a storage_result \<Rightarrow> ('a, kv_error) result" where
  "kv_map_err = result_map_err (\<lambda>e. KvStorage (storage_error_string e))"

definition kv_encode_key :: "bytes \<Rightarrow> bytes" where
  "kv_encode_key user_key = [kv_SUBSYSTEM] @ [kv_KEY_VERSION] @ [kv_RECORD_TAG] @ user_key"

definition kv_decode_key :: "bytes \<Rightarrow> (bytes, kv_error) result" where
  "kv_decode_key storage_key =
     (if length storage_key < 3
      then Err (KvEncoding ''key too short: expected at least 3 bytes, got {}'' [int (length storage_key)])
      else if storage_key ! 0 \<noteq> kv_SUBSYSTEM
      then Err (KvEncoding ''invalid subsystem: expected 0x{:02x}, got 0x{:02x}''
                  [uint kv_SUBSYSTEM, uint (storage_key ! 0)])
      else if storage_key ! 1 \<noteq> kv_KEY_VERSION
      then Err (KvEncoding ''invalid key version: expected 0x{:02x}, got 0x{:02x}''
                  [uint kv_KEY_VERSION, uint (storage_key ! 1)])
      else if storage_key ! 2 \<noteq> kv_RECORD_TAG
      then Err (KvEncoding ''invalid record tag: expected 0x{:02x}, got 0x{:02x}''
                  [uint kv_RECORD_TAG, uint (storage_key ! 2)])
      else Ok (drop 3 storage_key))"

definition kv_encode_key_range :: "bytes_range \<Rightarrow> bytes_range" where
  "kv_encode_key_range user_range =
     bytes_range_new
       (case range_start user_range of
          Included key \<Rightarrow> Included (kv_encode_key key)
        | Excluded key \<Rightarrow> Excluded (kv_encode_key key)
        | Unbounded \<Rightarrow> Included [kv_SUBSYSTEM, kv_KEY_VERSION, kv_RECORD_TAG])
       (case range_end user_range of
          Included key \<Rightarrow> Included (kv_encode_key key)
        | Excluded key \<Rightarrow> Excluded (kv_encode_key key)
        | Unbounded \<Rightarrow> Excluded [kv_SUBSYSTEM, kv_KEY_VERSION, kv_NEXT_RECORD_TAG])"

subsection \<open>The storage wrappers\<close>

definition kv_get :: "('s, 'r) storage_ops \<Rightarrow> 's \<Rightarrow> bytes \<Rightarrow> (bytes option, kv_error) result" where
  "kv_get ops s key =
     result_bind (kv_map_err (op_get ops s (kv_encode_key key))) (\<lambda>record. Ok (map_option rec_value record))"

record key_value_entry =
  kve_key :: bytes
  kve_value :: bytes

text \<open>One call of \<open>KeyValueScanIterator::next\<close> on the result the inner iterator returned.\<close>

definition kv_scan_next :: "storage_record storage_result \<Rightarrow> (key_value_entry, kv_error) result" where
  "kv_scan_next r =
     result_bind (kv_map_err r) (\<lambda>rec.
     result_bind (kv_decode_key (rec_key rec)) (\<lambda>user_key.
       Ok \<lparr>kve_key = user_key, kve_value = rec_value rec\<rparr>))"

definition kv_scan ::
    "('s, 'r) storage_ops \<Rightarrow> 's \<Rightarrow> bytes_range \<Rightarrow> ((key_value_entry, kv_error) result list, kv_error) result" where
  "kv_scan ops s key_range =
     result_bind (kv_map_err (op_scan_iter ops s (kv_encode_key_range key_range)))
       (\<lambda>inner. Ok (map kv_scan_next inner))"

definition kv_put_with_options ::
    "('s, 'r) storage_ops \<Rightarrow> 's \<Rightarrow> bytes \<Rightarrow> bytes \<Rightarrow> write_options \<Rightarrow> 's \<times> (unit, kv_error) result" where
  "kv_put_with_options ops s key val options =
     (let record = record_new (kv_encode_key key) val;
          storage_options = \<lparr>await_durable = await_durable options\<rparr>;
          (s', r) = op_put_with_options ops s [put_record_op_new record] storage_options
      in (s', result_map (\<lambda>_. ()) (kv_map_err r)))"

definition kv_put ::
    "('s, 'r) storage_ops \<Rightarrow> 's \<Rightarrow> bytes \<Rightarrow> bytes \<Rightarrow> 's \<times> (unit, kv_error) result" where
  "kv_put ops s key val = kv_put_with_options ops s key val write_options_default"

definition kv_flush :: "('s, 'r) storage_ops \<Rightarrow> 's \<Rightarrow> 's \<times> (unit, kv_error) result" where
  "kv_flush ops s = (let (s', r) = op_flush ops s in (s', kv_map_err r))"

definition kv_delete_with_options ::
    "('s, 'r) storage_ops \<Rightarrow> 's \<Rightarrow> bytes \<Rightarrow> write_options \<Rightarrow> 's \<times> (unit, kv_error) result" where
  "kv_delete_with_options ops s key options =
     (case storage_apply ops s [Delete (kv_encode_key key)] of
        (s', Ok _) \<Rightarrow> if await_durable options then kv_flush ops s' else (s', Ok ())
      | (s', r) \<Rightarrow> (s', result_map (\<lambda>_. ()) (kv_map_err r)))"

definition kv_delete :: "('s, 'r) storage_ops \<Rightarrow> 's \<Rightarrow> bytes \<Rightarrow> 's \<times> (unit, kv_error) result" where
  "kv_delete ops s key = kv_delete_with_options ops s key write_options_default"

section \<open>Keys and ranges\<close>

lemma kv_encode_key_prefix: "kv_encode_key k = [4, 1, 16] @ k"
  by (simp add: kv_encode_key_def kv_consts)

lemma kv_decode_encode [simp, codec_simps]: "kv_decode_key (kv_encode_key k) = Ok k"
  by (simp add: kv_decode_key_def kv_encode_key_def)

lemma kv_encode_key_inject [simp]: "kv_encode_key a = kv_encode_key b \<longleftrightarrow> a = b"
  by (simp add: kv_encode_key_prefix)

lemma kv_encode_key_order [simp]:
  "kv_encode_key a < kv_encode_key b \<longleftrightarrow> a < b" "kv_encode_key a \<le> kv_encode_key b \<longleftrightarrow> a \<le> b"
  by (simp_all add: kv_encode_key_prefix)

lemma kv_space: "[4, 1, 16] \<le> k \<and> k < [4, 1, 17] \<longleftrightarrow> (\<exists>u. k = kv_encode_key u)"
proof -
  have "lex_increment_loop ([4, 1] @ [16]) = Some ([4, 1] @ [17])" by (subst lex_increment_loop_snoc) simp
  with lex_increment_loop_bounds [of "[4, 1, 16]" k] show ?thesis
    by (auto simp: prefix_def kv_encode_key_prefix)
qed

lemma kv_key_in_space: "[4, 1, 16] \<le> kv_encode_key u" "kv_encode_key u < [4, 1, 17]"
  using kv_space [of "kv_encode_key u"] by blast+

text \<open>The storage range of a user range holds exactly the encoded keys of the user range.\<close>

lemma kv_range_contains:
  "range_contains (kv_encode_key_range rg) k \<longleftrightarrow> (\<exists>u. k = kv_encode_key u \<and> range_contains rg u)"
proof
  assume k: "range_contains (kv_encode_key_range rg) k"
  then have "[4, 1, 16] \<le> k \<and> k < [4, 1, 17]"
    using kv_key_in_space
    by (auto simp: kv_encode_key_range_def range_defs kv_consts split: bound.splits
        intro: order.trans order.strict_trans less_imp_le le_less_trans)
  with kv_space obtain u where "k = kv_encode_key u" by blast
  with k show "\<exists>u. k = kv_encode_key u \<and> range_contains rg u"
    by (auto simp: kv_encode_key_range_def range_defs split: bound.splits)
next
  assume "\<exists>u. k = kv_encode_key u \<and> range_contains rg u"
  then show "range_contains (kv_encode_key_range rg) k"
    using kv_key_in_space by (auto simp: kv_encode_key_range_def range_defs kv_consts split: bound.splits)
qed

lemma kv_range_ok: "range_ok rg \<Longrightarrow> range_ok (kv_encode_key_range rg)"
  using kv_key_in_space
  by (auto simp: range_ok_def kv_encode_key_range_def range_defs kv_consts not_le not_less
      intro: less_imp_le split: bound.splits)

section \<open>The database as a map\<close>

lemma kv_map_err_simps [simp]:
  "kv_map_err (Ok a) = Ok a" "kv_map_err (Err e) = Err (KvStorage (storage_error_string e))"
  "kv_map_err Panic = Panic"
  by (simp_all add: kv_map_err_def)

context storage_laws
begin

definition kv_map :: "'s \<Rightarrow> view" where
  "kv_map s u = view s (kv_encode_key u)"

lemma kv_get_map: "inv s \<Longrightarrow> kv_get ops s k = Ok (kv_map s k)"
  by (simp add: kv_get_def get_view kv_map_def option.map_comp comp_def record_new_def option.map_ident)

lemma kv_put_map:
  assumes "inv s" and "live s Default" and "kv_put_with_options ops s k v wo = (s', x)"
  shows "inv s' \<and> live s' = live s \<and>
    (x = Ok () \<and> kv_map s' = (kv_map s)(k \<mapsto> v) \<or> (\<exists>e. x = Err e \<and> kv_map s' = kv_map s))"
proof -
  let ?ps = "[put_record_op_new (record_new (kv_encode_key k) v)]"
  let ?wo = "\<lparr>await_durable = await_durable wo\<rparr>"
  obtain r where put: "op_put_with_options ops s ?ps ?wo = (s', r)" and x: "x = result_map (\<lambda>_. ()) (kv_map_err r)"
    using assms(3) by (auto simp: kv_put_with_options_def Let_def split: prod.splits)
  show ?thesis
  proof (cases r)
    case (Ok w)
    with put_ok [OF assms(1) put [unfolded Ok]] assms(2) x show ?thesis
      by (auto simp: kv_map_def fun_eq_iff put_view_def put_record_op_new_def record_new_def put_options_default_def)
  next
    case (Err e)
    with put_err [OF assms(1) put [unfolded Err]] x show ?thesis
      by (auto simp: kv_map_def fun_eq_iff)
  next
    case Panic
    with put put_total [OF assms(1), of ?ps ?wo] show ?thesis by simp
  qed
qed

lemma kv_delete_map:
  assumes "inv s" and "kv_delete_with_options ops s k wo = (s', x)"
  shows "inv s' \<and> live s' = live s \<and>
    (x = Ok () \<and> kv_map s' = (kv_map s)(k := None) \<or> x \<noteq> Ok () \<and> kv_map s' \<in> {kv_map s, (kv_map s)(k := None)})"
proof -
  let ?ops = "[Delete (kv_encode_key k)]"
  obtain t r where ap: "storage_apply ops s ?ops = (t, r)" by fastforce
  show ?thesis
  proof (cases r)
    case (Ok w)
    with apply_ok [OF assms(1), of ?ops _ t w] ap
    have t: "inv t" "live t = live s" "kv_map t = (kv_map s)(k := None)"
      by (simp_all add: storage_apply_def kv_map_def fun_eq_iff)
    with Ok ap assms(2) flush_view [OF t(1)] show ?thesis
      by (auto simp: kv_delete_with_options_def kv_flush_def kv_map_def fun_eq_iff split: if_splits prod.splits)
  next
    case (Err e)
    with apply_err [OF assms(1), of ?ops _ t e] ap assms(2) show ?thesis
      by (auto simp: storage_apply_def kv_delete_with_options_def kv_map_def fun_eq_iff)
  next
    case Panic
    with apply_total [OF assms(1), of ?ops write_options_default] ap show ?thesis
      by (simp add: storage_apply_def)
  qed
qed

lemma kv_scan_map:
  assumes "inv s" and "range_ok rg"
  shows "\<exists>es. kv_scan ops s rg = Ok (map Ok es) \<and> sorted_wrt (<) (map kve_key es)
    \<and> (\<forall>e. e \<in> set es \<longleftrightarrow> kv_map s (kve_key e) = Some (kve_value e) \<and> range_contains rg (kve_key e))"
proof -
  from scan_view [OF assms(1) kv_range_ok [OF assms(2)]] obtain rs where
    rs: "op_scan_iter ops s (kv_encode_key_range rg) = Ok (map Ok rs)"
      "lists_view (view s) (kv_encode_key_range rg) rs" by blast
  define dec where "dec r = \<lparr>kve_key = drop 3 (rec_key r), kve_value = rec_value r\<rparr>" for r :: storage_record
  have enc: "\<exists>u. rec_key r = kv_encode_key u" if "r \<in> set rs" for r
    using rs(2) that by (auto simp: lists_view_def kv_range_contains)
  have dec_key: "rec_key r = kv_encode_key (kve_key (dec r))" if "r \<in> set rs" for r
    using enc [OF that] by (auto simp: dec_def kv_encode_key_prefix)
  have "kv_scan_next (Ok r) = Ok (dec r)" if "r \<in> set rs" for r
    using enc [OF that] by (auto simp: kv_scan_next_def dec_def) (simp add: kv_encode_key_prefix)
  then have scan: "kv_scan ops s rg = Ok (map Ok (map dec rs))"
    using rs(1) by (simp add: kv_scan_def)
  have "map rec_key rs = map kv_encode_key (map kve_key (map dec rs))" using dec_key by simp
  then have "sorted_wrt (<) (map kv_encode_key (map kve_key (map dec rs)))"
    using rs(2) by (metis lists_view_def)
  then have sorted: "sorted_wrt (<) (map kve_key (map dec rs))" by (simp add: sorted_wrt_map)
  have "e \<in> set (map dec rs) \<longleftrightarrow> kv_map s (kve_key e) = Some (kve_value e) \<and> range_contains rg (kve_key e)" for e
  proof
    assume "e \<in> set (map dec rs)"
    then obtain r where r: "r \<in> set rs" "e = dec r" by auto
    with rs(2) dec_key [OF r(1)] show "kv_map s (kve_key e) = Some (kve_value e) \<and> range_contains rg (kve_key e)"
      by (auto simp: lists_view_def kv_range_contains kv_map_def dec_def)
  next
    assume e: "kv_map s (kve_key e) = Some (kve_value e) \<and> range_contains rg (kve_key e)"
    then have "record_new (kv_encode_key (kve_key e)) (kve_value e) \<in> set rs"
      using rs(2) by (auto simp: lists_view_def kv_range_contains kv_map_def record_new_def)
    then show "e \<in> set (map dec rs)"
      by (force simp: image_iff dec_def record_new_def kv_encode_key_prefix)
  qed
  with scan sorted show ?thesis by blast
qed

end

lemma im_flush_Ok: "watermarks_ok st \<Longrightarrow> \<exists>st'. im_flush st = (st', Ok ())"
  by (auto simp: watermarks_ok_def im_flush_def flush_to_def)

section \<open>Properties\<close>

text \<open>
  C12. Over the in-memory storage the key-value database is a map: a put and a delete always succeed
  (whatever their durability option), a get returns what the last put or delete of its key left, and
  no other key changes.
\<close>

theorem kv_is_a_map:
  assumes "im_inv s" and "im_live s Default" and "watermarks_ok s" and "im_written_seq s \<noteq> u64_max"
  shows "(\<exists>s'. kv_put_with_options in_memory_ops s k v wo = (s', Ok ())
      \<and> (\<forall>u. kv_get in_memory_ops s' u = (if u = k then Ok (Some v) else kv_get in_memory_ops s u)))
    \<and> (\<exists>s'. kv_delete_with_options in_memory_ops s k wo = (s', Ok ())
      \<and> (\<forall>u. kv_get in_memory_ops s' u = (if u = k then Ok None else kv_get in_memory_ops s u)))"
proof
  obtain s' x where put: "kv_put_with_options in_memory_ops s k v wo = (s', x)" by fastforce
  have "x = Ok ()"
    using put
    by (auto simp: kv_put_with_options_def in_memory_ops_def Let_def split: prod.splits
        dest!: im_put_Ok [OF assms(1)])
  with im.kv_put_map [OF assms(1,2) put] put show "\<exists>s'. kv_put_with_options in_memory_ops s k v wo = (s', Ok ())
      \<and> (\<forall>u. kv_get in_memory_ops s' u = (if u = k then Ok (Some v) else kv_get in_memory_ops s u))"
    by (auto simp: im.kv_get_map assms(1))
next
  obtain s' x where del: "kv_delete_with_options in_memory_ops s k wo = (s', x)" by fastforce
  obtain t r where ap: "storage_apply in_memory_ops s [Delete (kv_encode_key k)] = (t, r)" by fastforce
  then have im_ap: "im_apply_with_options s [Delete (kv_encode_key k)] write_options_default = (t, r)"
    by (simp add: storage_apply_def in_memory_ops_def)
  have "r = Ok \<lparr>seqnum = im_written_seq s + 1\<rparr>"
    using im_apply_Ok [OF assms(1) _ im_ap] by simp
  moreover have "watermarks_ok t"
    using im_apply_watermarks [OF assms(3,4) im_ap] .
  ultimately have "x = Ok ()"
    using del ap im_flush_Ok [of t]
    by (auto simp: kv_delete_with_options_def kv_flush_def in_memory_ops_def split: if_splits)
  with im.kv_delete_map [OF assms(1) del] del show "\<exists>s'. kv_delete_with_options in_memory_ops s k wo = (s', Ok ())
      \<and> (\<forall>u. kv_get in_memory_ops s' u = (if u = k then Ok None else kv_get in_memory_ops s u))"
    by (auto simp: im.kv_get_map assms(1))
qed

theorem kv_is_a_map_witness:
  "\<exists>s'. kv_put_with_options in_memory_ops (in_memory_new 0) [97] [1] \<lparr>await_durable = True\<rparr> = (s', Ok ())
     \<and> kv_get in_memory_ops s' [97] = Ok (Some [1])"
proof -
  have "im_inv (in_memory_new 0)" "im_live (in_memory_new 0) Default" "watermarks_ok (in_memory_new 0)"
      "im_written_seq (in_memory_new 0) \<noteq> u64_max"
    by (simp_all add: im_inv_def in_memory_new_def im_live_def live_at_def is_expired_def
        compute_expire_ts_def watermarks_ok_def)
  from kv_is_a_map [OF this, of "[97]" "[1]" "\<lparr>await_durable = True\<rparr>"] show ?thesis by auto
qed

text \<open>
  C33. A put that returns an error has changed nothing a reader can see, and one that returns
  success is visible, also when the storage injects failures.
\<close>

theorem kv_put_all_or_nothing:
  assumes "im_inv (fs_inner s)" and "im_live (fs_inner s) Default"
    and "kv_put_with_options (failing_ops in_memory_ops) s k v wo = (s', x)"
  shows "(x = Ok () \<and> (\<forall>u. kv_get (failing_ops in_memory_ops) s' u =
            (if u = k then Ok (Some v) else kv_get (failing_ops in_memory_ops) s u)))
    \<or> (\<exists>e. x = Err e \<and> kv_get (failing_ops in_memory_ops) s' = kv_get (failing_ops in_memory_ops) s)"
  using failing_im.kv_put_map [OF assms]
  by (auto simp: fun_eq_iff failing_im.kv_get_map assms(1))

theorem kv_put_all_or_nothing_witness:
  "let s = fail_put_once (failing_wrap (in_memory_new 0)) (Storage ''disk full'');
       (s', x) = kv_put_with_options (failing_ops in_memory_ops) s [97] [1] write_options_default in
   (x = Ok () \<and> kv_get (failing_ops in_memory_ops) s' [97] = Ok (Some [1]))
   \<or> (\<exists>e. x = Err e \<and> kv_get (failing_ops in_memory_ops) s' [97] = kv_get (failing_ops in_memory_ops) s [97])"
proof -
  let ?s = "fail_put_once (failing_wrap (in_memory_new 0)) (Storage ''disk full'')"
  obtain s' x where eq: "kv_put_with_options (failing_ops in_memory_ops) ?s [97] [1] write_options_default = (s', x)"
    by fastforce
  have "im_inv (fs_inner ?s)" "im_live (fs_inner ?s) Default"
    by (simp_all add: fail_put_once_def failing_wrap_def im_inv_def in_memory_new_def im_live_def
        live_at_def is_expired_def compute_expire_ts_def)
  from kv_put_all_or_nothing [OF this eq] eq show ?thesis by auto
qed

text \<open>
  C34. A scan of a user key range lists, in ascending key order, exactly the pairs of the database
  whose key lies in the range; no key of another subsystem ever reaches the decoder.
\<close>

theorem kv_scan_lists_range:
  assumes "im_inv s" and "range_ok rg"
  shows "\<exists>es. kv_scan in_memory_ops s rg = Ok (map Ok es) \<and> sorted_wrt (<) (map kve_key es)
    \<and> (\<forall>e. e \<in> set es \<longleftrightarrow>
          kv_get in_memory_ops s (kve_key e) = Ok (Some (kve_value e)) \<and> range_contains rg (kve_key e))"
  using im.kv_scan_map [OF assms] by (simp add: im.kv_get_map [OF assms(1)])

theorem kv_scan_lists_range_witness:
  "\<exists>es. kv_scan in_memory_ops (in_memory_new 0) bytes_range_unbounded = Ok (map Ok es) \<and> set es = {}"
proof -
  have "im_inv (in_memory_new 0)" "range_ok bytes_range_unbounded"
    by (simp_all add: im_inv_def in_memory_new_def range_ok_def bytes_range_unbounded_def)
  from kv_scan_lists_range [OF this] show ?thesis
    by (auto simp: kv_get_def in_memory_ops_def im_get_def in_memory_new_def data_get_def)
qed

end
