(* ===== verification/Encoding.thy ===== *)
theory Encoding
  imports Prelude
begin

unbundle bit_operations_syntax

text \<open>
  The fixed-width encoders of \<open>common/src/serde\<close>: length-prefixed UTF-8 strings and counts
  (\<open>encoding.rs\<close>), sequence blocks (\<open>seq_block.rs\<close>), record tags (\<open>record_tag.rs\<close>), the three-byte
  key prefix of every record (\<open>key_prefix.rs\<close>) and the sortable integers (\<open>sortable.rs\<close>).

  An error carries the template of the source's \<open>format!\<close> and the values it is filled with.  An
  encoder returns what it appends to the buffer; a decoder takes the buffer and returns what is left
  of it.  \<^const>\<open>Panic\<close> (or \<^const>\<open>None\<close>, for code that returns no \<open>Result\<close>) is a failed
  assertion.
\<close>

section \<open>Definitions\<close>

datatype deserialize_error = DeserializeError string "int list"

datatype encoding_error = EncodingError string "int list"

primrec encoding_error_from :: "deserialize_error \<Rightarrow> encoding_error" where
  "encoding_error_from (DeserializeError m args) = EncodingError m args"

subsection \<open>UTF-8 strings and counts\<close>

text \<open>What \<open>String::from_utf8\<close> accepts: well-formed UTF-8 (RFC 3629).\<close>

definition utf8_cont :: "u8 \<Rightarrow> bool" where
  "utf8_cont b = (0x80 \<le> b \<and> b \<le> 0xBF)"

fun utf8_valid :: "bytes \<Rightarrow> bool" where
  "utf8_valid [] = True"
| "utf8_valid (a # bs) =
     (if a < 0x80 then utf8_valid bs
      else if 0xC2 \<le> a \<and> a \<le> 0xDF then
        (case bs of b # r \<Rightarrow> utf8_cont b \<and> utf8_valid r | _ \<Rightarrow> False)
      else if 0xE0 \<le> a \<and> a \<le> 0xEF then
        (case bs of b # c # r \<Rightarrow>
             utf8_cont b \<and> utf8_cont c \<and> (a = 0xE0 \<longrightarrow> 0xA0 \<le> b) \<and> (a = 0xED \<longrightarrow> b \<le> 0x9F)
             \<and> utf8_valid r
         | _ \<Rightarrow> False)
      else if 0xF0 \<le> a \<and> a \<le> 0xF4 then
        (case bs of b # c # d # r \<Rightarrow>
             utf8_cont b \<and> utf8_cont c \<and> utf8_cont d \<and> (a = 0xF0 \<longrightarrow> 0x90 \<le> b)
             \<and> (a = 0xF4 \<longrightarrow> b \<le> 0x8F) \<and> utf8_valid r
         | _ \<Rightarrow> False)
      else False)"

definition encode_utf8 :: "bytes \<Rightarrow> bytes option" where
  "encode_utf8 s =
     (if length s > 65535 then None else Some (put_u16_le (word_of_nat (length s)) @ s))"

definition decode_utf8 :: "bytes \<Rightarrow> (bytes \<times> bytes, encoding_error) result" where
  "decode_utf8 buf =
     (if length buf < 2 then Err (EncodingError ''Buffer too short for UTF-8 length'' [])
      else
        let len = unat (get_u16_le (take 2 buf)); buf = drop 2 buf in
        if length buf < len
        then Err (EncodingError ''Buffer too short for UTF-8 payload: need {} bytes, have {}''
                    [int len, int (length buf)])
        else if utf8_valid (take len buf) then Ok (take len buf, drop len buf)
        else Err (EncodingError ''Invalid UTF-8: {}'' []))"

definition encode_optional_utf8 :: "bytes option \<Rightarrow> bytes option" where
  "encode_optional_utf8 opt =
     (case opt of Some s \<Rightarrow> encode_utf8 s | None \<Rightarrow> Some (put_u16_le 0))"

definition decode_optional_utf8 :: "bytes \<Rightarrow> (bytes option \<times> bytes, encoding_error) result" where
  "decode_optional_utf8 buf =
     (if length buf < 2 then Err (EncodingError ''Buffer too short for optional UTF-8 length'' [])
      else if get_u16_le (take 2 buf) = 0 then Ok (None, drop 2 buf)
      else result_map (\<lambda>(s, rest). (Some s, rest)) (decode_utf8 buf))"

definition decode_array_count :: "bytes \<Rightarrow> (nat \<times> bytes, encoding_error) result" where
  "decode_array_count buf =
     (if length buf < 2 then Err (EncodingError ''Buffer too short for array count'' [])
      else Ok (unat (get_u16_le (take 2 buf)), drop 2 buf))"

definition encode_array_count :: "nat \<Rightarrow> bytes option" where
  "encode_array_count count =
     (if count > 65535 then None else Some (put_u16_le (word_of_nat count)))"

text \<open>\<open>is_multiple_of(0)\<close> holds of 0 only, and the division by a zero element size then panics.\<close>

definition validate_fixed_element_array_len :: "nat \<Rightarrow> nat \<Rightarrow> (nat, encoding_error) result" where
  "validate_fixed_element_array_len buf_len element_size =
     (if buf_len mod element_size \<noteq> 0
      then Err (EncodingError ''Buffer length {} is not divisible by element size {}''
                  [int buf_len, int element_size])
      else if element_size = 0 then Panic
      else Ok (buf_len div element_size))"

definition encode_u64 :: "u64 \<Rightarrow> bytes" where
  "encode_u64 value = put_u64_le value"

definition decode_u64 :: "bytes \<Rightarrow> (u64 \<times> bytes, encoding_error) result" where
  "decode_u64 buf =
     (if length buf < 8
      then Err (EncodingError ''Buffer too short for u64: need 8 bytes, have {}'' [int (length buf)])
      else Ok (get_u64_le (take 8 buf), drop 8 buf))"

subsection \<open>Sequence blocks\<close>

record seq_block =
  base_sequence :: u64
  block_size :: u64

definition seq_block_new :: "u64 \<Rightarrow> u64 \<Rightarrow> seq_block" where
  "seq_block_new b n = \<lparr>base_sequence = b, block_size = n\<rparr>"

definition seq_block_serialize :: "seq_block \<Rightarrow> bytes" where
  "seq_block_serialize b = put_u64 (base_sequence b) @ put_u64 (block_size b)"

definition seq_block_deserialize :: "bytes \<Rightarrow> (seq_block, deserialize_error) result" where
  "seq_block_deserialize data =
     (if length data < 16
      then Err (DeserializeError ''buffer too short for SeqBlock value: need 16 bytes, got {}''
                  [int (length data)])
      else Ok \<lparr>base_sequence = get_u64 (take 8 data), block_size = get_u64 (take 8 (drop 8 data))\<rparr>)"

definition next_base :: "seq_block \<Rightarrow> u64" where
  "next_base b = base_sequence b + block_size b"

subsection \<open>Record tags\<close>

datatype record_tag = RecordTag u8

definition record_tag_new :: "u8 \<Rightarrow> u8 \<Rightarrow> record_tag option" where
  "record_tag_new record_type reserved =
     (if \<not> (record_type > 0 \<and> record_type \<le> 0x0F) then None
      else if \<not> reserved \<le> 0x0F then None
      else Some (RecordTag (push_bit 4 record_type OR reserved)))"

primrec as_byte :: "record_tag \<Rightarrow> u8" where
  "as_byte (RecordTag b) = b"

definition tag_record_type :: "record_tag \<Rightarrow> u8" where
  "tag_record_type t = drop_bit 4 (as_byte t AND 0xF0)"

definition tag_reserved :: "record_tag \<Rightarrow> u8" where
  "tag_reserved t = as_byte t AND 0x0F"

definition record_tag_from_byte :: "u8 \<Rightarrow> (record_tag, deserialize_error) result" where
  "record_tag_from_byte byte =
     (if drop_bit 4 (byte AND 0xF0) = 0
      then Err (DeserializeError ''invalid record tag: 0x{:02x} (record type 0 is reserved)'' [uint byte])
      else Ok (RecordTag byte))"

definition with_reserved :: "record_tag \<Rightarrow> u8 \<Rightarrow> record_tag option" where
  "with_reserved t reserved =
     (if \<not> reserved \<le> 0x0F then None else Some (RecordTag ((as_byte t AND 0xF0) OR reserved)))"

subsection \<open>Key prefixes\<close>

record key_prefix =
  kp_subsystem :: u8
  kp_version :: u8
  kp_tag :: u8

definition key_prefix_new :: "u8 \<Rightarrow> u8 \<Rightarrow> u8 \<Rightarrow> key_prefix option" where
  "key_prefix_new subsystem version tag =
     (if \<not> subsystem > 0 then None else if \<not> version > 0 then None else if \<not> tag > 0 then None
      else Some \<lparr>kp_subsystem = subsystem, kp_version = version, kp_tag = tag\<rparr>)"

definition validate_key_version :: "u8 \<Rightarrow> (u8, deserialize_error) result" where
  "validate_key_version byte =
     (if byte = 0
      then Err (DeserializeError ''invalid key version: 0x{:02x} (version 0 is reserved)'' [uint byte])
      else Ok byte)"

definition validate_subsystem :: "u8 \<Rightarrow> (u8, deserialize_error) result" where
  "validate_subsystem byte =
     (if byte = 0
      then Err (DeserializeError ''invalid subsystem: 0x{:02x} (subsystem 0 is reserved)'' [uint byte])
      else Ok byte)"

definition validate_record_tag :: "u8 \<Rightarrow> (u8, deserialize_error) result" where
  "validate_record_tag byte =
     (if byte = 0
      then Err (DeserializeError ''invalid record tag: 0x{:02x} (tag 0 is reserved)'' [uint byte])
      else Ok byte)"

definition key_prefix_from_bytes :: "bytes \<Rightarrow> (key_prefix, deserialize_error) result" where
  "key_prefix_from_bytes data =
     (if length data < 3
      then Err (DeserializeError ''buffer too short for key prefix: need 3 bytes, got {}''
                  [int (length data)])
      else
        result_bind (validate_subsystem (data ! 0)) (\<lambda>subsystem.
        result_bind (validate_key_version (data ! 1)) (\<lambda>version.
        result_bind (validate_record_tag (data ! 2)) (\<lambda>tag.
          Ok \<lparr>kp_subsystem = subsystem, kp_version = version, kp_tag = tag\<rparr>))))"

definition from_bytes_with_validation ::
    "bytes \<Rightarrow> u8 \<Rightarrow> u8 \<Rightarrow> (key_prefix, deserialize_error) result" where
  "from_bytes_with_validation data expected_subsystem expected_version =
     result_bind (key_prefix_from_bytes data) (\<lambda>p.
       if kp_subsystem p \<noteq> expected_subsystem
       then Err (DeserializeError ''invalid subsystem: expected 0x{:02x}, got 0x{:02x}''
                   [uint expected_subsystem, uint (kp_subsystem p)])
       else if kp_version p \<noteq> expected_version
       then Err (DeserializeError ''invalid key version: expected 0x{:02x}, got 0x{:02x}''
                   [uint expected_version, uint (kp_version p)])
       else Ok p)"

definition key_prefix_to_bytes :: "key_prefix \<Rightarrow> bytes" where
  "key_prefix_to_bytes p = [kp_subsystem p, kp_version p, kp_tag p]"

definition key_prefix_write_to :: "key_prefix \<Rightarrow> bytes \<Rightarrow> bytes" where
  "key_prefix_write_to p buf = buf @ [kp_subsystem p] @ [kp_version p] @ [kp_tag p]"

subsection \<open>Sortable numbers\<close>

text \<open>An \<open>f64\<close> is its IEEE 754 bit pattern (\<open>to_bits\<close> and \<open>from_bits\<close> are the identity on it).\<close>

definition encode_i64_sortable :: "i64 \<Rightarrow> u64" where
  "encode_i64_sortable value = value XOR 0x8000000000000000"

definition decode_i64_sortable :: "u64 \<Rightarrow> i64" where
  "decode_i64_sortable sortable = sortable XOR 0x8000000000000000"

definition encode_f64_sortable :: "u64 \<Rightarrow> u64" where
  "encode_f64_sortable bits =
     (if bits AND 0x8000000000000000 \<noteq> 0 then NOT bits else bits XOR 0x8000000000000000)"

definition decode_f64_sortable :: "u64 \<Rightarrow> u64" where
  "decode_f64_sortable sortable =
     (if sortable AND 0x8000000000000000 \<noteq> 0 then sortable XOR 0x8000000000000000 else NOT sortable)"

section \<open>Round trips\<close>

lemma take_drop_put_u16_le [simp]:
  "take 2 (put_u16_le w @ xs) = put_u16_le w" "drop 2 (put_u16_le w @ xs) = xs"
  by simp_all

lemma unat_word16_of_nat: "n \<le> 65535 \<Longrightarrow> unat (word_of_nat n :: u16) = n"
  by (simp add: unat_of_nat)

lemma decode_utf8_encode:
  assumes "utf8_valid s" and "length s \<le> 65535"
  shows "decode_utf8 (the (encode_utf8 s) @ rest) = Ok (s, rest)"
  using assms by (simp add: decode_utf8_def encode_utf8_def unat_word16_of_nat Let_def)

interpretation utf8: front_codec "\<lambda>s. the (encode_utf8 s)" decode_utf8
    "\<lambda>s. utf8_valid s \<and> length s \<le> 65535"
  by unfold_locales (simp add: decode_utf8_encode)

lemma decode_array_count_encode:
  "n \<le> 65535 \<Longrightarrow> decode_array_count (the (encode_array_count n) @ rest) = Ok (n, rest)"
  by (simp add: decode_array_count_def encode_array_count_def unat_word16_of_nat)

interpretation array_count: front_codec "\<lambda>n. the (encode_array_count n)" decode_array_count
    "\<lambda>n. n \<le> 65535"
  by unfold_locales (rule decode_array_count_encode)

interpretation le_u64: front_codec encode_u64 decode_u64 "\<lambda>_. True"
  by unfold_locales (simp add: encode_u64_def decode_u64_def)

lemma seq_block_round_trip [codec_simps]:
  "seq_block_deserialize (seq_block_serialize b @ rest) = Ok b"
  by (simp add: seq_block_deserialize_def seq_block_serialize_def)

lemmas seq_block_round_trip_exact = seq_block_round_trip [of _ "[]", unfolded append_Nil2]

lemma key_prefix_from_bytes_to_bytes [codec_simps]:
  assumes "key_prefix_new s v t = Some p"
  shows "key_prefix_from_bytes (key_prefix_to_bytes p @ rest) = Ok p"
  using assms
  by (auto simp: key_prefix_new_def key_prefix_from_bytes_def key_prefix_to_bytes_def
      validate_subsystem_def validate_key_version_def validate_record_tag_def split: if_splits)

lemma validate_eq_Ok [simp]:
  "validate_subsystem b = Ok c \<longleftrightarrow> b \<noteq> 0 \<and> c = b"
  "validate_key_version b = Ok c \<longleftrightarrow> b \<noteq> 0 \<and> c = b"
  "validate_record_tag b = Ok c \<longleftrightarrow> b \<noteq> 0 \<and> c = b"
  by (auto simp: validate_subsystem_def validate_key_version_def validate_record_tag_def)

lemma from_bytes_with_validation_eq_Ok:
  "from_bytes_with_validation data s v = Ok p \<longleftrightarrow>
     3 \<le> length data \<and> data ! 0 = s \<and> data ! 1 = v \<and> s \<noteq> 0 \<and> v \<noteq> 0 \<and> data ! 2 \<noteq> 0
     \<and> p = \<lparr>kp_subsystem = s, kp_version = v, kp_tag = data ! 2\<rparr>"
  by (auto simp: from_bytes_with_validation_def key_prefix_from_bytes_def result_bind_eq_Ok
      split: if_splits)

lemma nibble_take_bit: "(a :: u8) \<le> 0x0F \<Longrightarrow> take_bit 4 a = a"
  by (simp add: word_unat_eq_iff take_bit_eq_mod word_le_nat_alt unat_mod)

lemma nibble_bit: "(a :: u8) \<le> 0x0F \<Longrightarrow> bit a n \<Longrightarrow> n < 4"
  by (metis bit_take_bit_iff nibble_take_bit)

lemma nibbles:
  fixes a b :: u8
  assumes "a \<le> 0x0F" and "b \<le> 0x0F"
  shows "drop_bit 4 ((push_bit 4 a OR b) AND 0xF0) = a" and "(push_bit 4 a OR b) AND 0x0F = b"
proof -
  have masks: "(0xF0 :: u8) = push_bit 4 (mask 4)" "(0x0F :: u8) = mask 4"
    by (simp_all add: mask_eq_exp_minus_1 push_bit_eq_mult)
  note nb = nibble_bit [OF assms(1)] nibble_bit [OF assms(2)]
  show "drop_bit 4 ((push_bit 4 a OR b) AND 0xF0) = a"
    unfolding masks by (rule bit_word_eqI) (use nb in \<open>auto simp: bit_simps\<close>)
  show "(push_bit 4 a OR b) AND 0x0F = b"
    unfolding masks by (rule bit_word_eqI) (use nb in \<open>auto simp: bit_simps\<close>)
qed

lemma record_tag_bytes:
  assumes "record_tag_new ty rs = Some t"
  shows "tag_record_type t = ty \<and> tag_reserved t = rs \<and> record_tag_from_byte (as_byte t) = Ok t"
  using assms nibbles [of ty rs]
  by (auto simp: record_tag_new_def tag_record_type_def tag_reserved_def record_tag_from_byte_def
      split: if_splits)

section \<open>Order of the sortable numbers\<close>

lemma bit_top_iff: "bit (w :: u64) 63 \<longleftrightarrow> 9223372036854775808 \<le> unat w"
proof -
  have "bit w 63 \<longleftrightarrow> odd (unat w div 2 ^ 63)"
    using bit_iff_odd [of "unat w" 63] by (simp add: bit_unsigned_iff)
  moreover have "unat w div 2 ^ 63 < 2"
    using unat_u64_less [of w] by (simp add: less_mult_imp_div_less)
  ultimately show ?thesis by (auto simp: less_2_cases_iff)
qed

lemma and_top_iff: "(w :: u64) AND 0x8000000000000000 = 0 \<longleftrightarrow> unat w < 9223372036854775808"
  using and_exp_eq_0_iff_not_bit [of w 63] by (simp add: bit_top_iff not_le)

lemma xor_top: "(w :: u64) XOR 0x8000000000000000 = w + 0x8000000000000000"
proof (cases "w AND 0x8000000000000000 = 0")
  case True
  then show ?thesis by (rule disjunctive_add_eq_xor [symmetric])
next
  case False
  let ?v = "w XOR 0x8000000000000000"
  have "?v AND 0x8000000000000000 = 0"
    using False and_exp_eq_0_iff_not_bit [of w 63] and_exp_eq_0_iff_not_bit [of ?v 63]
    by (simp add: bit_xor_iff)
  then have "?v + 0x8000000000000000 = ?v XOR 0x8000000000000000"
    by (rule disjunctive_add_eq_xor)
  then have "?v + 0x8000000000000000 = w" by (simp add: xor.assoc)
  then have "w + 0x8000000000000000 = ?v + 0x8000000000000000 + 0x8000000000000000" by (simp only:)
  also have "\<dots> = ?v" unfolding add.assoc by simp
  finally show ?thesis by (rule sym)
qed

lemma uint_encode_i64: "uint (encode_i64_sortable w) = sint w + 9223372036854775808"
  using int_word_sint [of "uint w", where ?'a = 64]
  by (simp add: encode_i64_sortable_def xor_top uint_word_ariths)

lemma decode_encode_sortable:
  "decode_i64_sortable (encode_i64_sortable w) = w" "decode_f64_sortable (encode_f64_sortable b) = b"
proof -
  show "decode_i64_sortable (encode_i64_sortable w) = w"
    by (simp add: decode_i64_sortable_def encode_i64_sortable_def xor.assoc)
  have "bit (encode_f64_sortable b) 63 \<longleftrightarrow> \<not> bit b 63"
    using and_exp_eq_0_iff_not_bit [of b 63]
    by (simp add: encode_f64_sortable_def bit_not_iff bit_xor_iff)
  then show "decode_f64_sortable (encode_f64_sortable b) = b"
    using and_exp_eq_0_iff_not_bit [of b 63] and_exp_eq_0_iff_not_bit [of "encode_f64_sortable b" 63]
    by (auto simp: decode_f64_sortable_def) (simp_all add: encode_f64_sortable_def xor.assoc)
qed

text \<open>
  The value of an \<open>f64\<close>, scaled by \<open>2\<^sup>1\<^sup>0\<^sup>7\<^sup>4\<close> so that it is an integer: exponent field \<open>e\<close> and
  fraction \<open>m\<close> are the two parts of the magnitude bits, and an infinity is one binade above the
  largest finite number.
\<close>

definition f64_magnitude :: "nat \<Rightarrow> nat" where
  "f64_magnitude n =
     (let e = n div 2 ^ 52; m = n mod 2 ^ 52 in if e = 0 then m else (2 ^ 52 + m) * 2 ^ (e - 1))"

definition f64_scaled :: "u64 \<Rightarrow> int" where
  "f64_scaled bits =
     (if unat bits < 2 ^ 63 then int (f64_magnitude (unat bits))
      else - int (f64_magnitude (unat bits - 2 ^ 63)))"

lemma binade_step:
  fixes K n :: nat
  assumes "0 < K"
  defines "g \<equiv> \<lambda>n. if n div K = 0 then n mod K else (K + n mod K) * 2 ^ (n div K - 1)"
  shows "g n < g (Suc n)"
proof (cases "Suc (n mod K) = K")
  case True
  then have "K + n mod K < 2 * K" by simp
  then have "(K + n mod K) * 2 ^ (n div K - 1) < 2 * K * 2 ^ (n div K - 1)"
    by (rule mult_strict_right_mono) simp
  with True show ?thesis
    by (cases "n div K") (simp_all add: g_def div_Suc mod_Suc)
next
  case False
  with assms(1) show ?thesis by (simp add: g_def div_Suc mod_Suc)
qed

lemma f64_magnitude_Suc: "f64_magnitude n < f64_magnitude (Suc n)"
  unfolding f64_magnitude_def Let_def by (rule binade_step) simp

lemma f64_magnitude_less_iff: "f64_magnitude m < f64_magnitude n \<longleftrightarrow> m < n"
  using lift_Suc_mono_less_iff [of f64_magnitude, OF f64_magnitude_Suc] .

text \<open>The unsigned value of the encoded pattern is the sign-magnitude reading of the bits.\<close>

lemma unat_top_iff: "unat (b :: u64) < 9223372036854775808 \<longleftrightarrow> uint b < 9223372036854775808"
  using of_nat_less_iff [of "unat b" 9223372036854775808, where ?'a = int] by simp

lemma uint_encode_f64:
  "uint (encode_f64_sortable b) =
     (if unat b < 2 ^ 63 then int (unat b) else 2 ^ 63 - 1 - int (unat b)) + 2 ^ 63"
proof (cases "uint b < 9223372036854775808")
  case True
  then have "uint (b + 0x8000000000000000) = uint b + 9223372036854775808"
    by (simp add: uint_word_ariths)
  with True show ?thesis
    using and_top_iff [of b] by (simp add: encode_f64_sortable_def xor_top unat_top_iff)
next
  case False
  have "uint (- 1 - b) = uint (- 1 :: u64) - uint b"
    by (rule uint_sub_lem [THEN iffD1]) (simp flip: word_le_def)
  moreover have "NOT b = - 1 - b" by (simp add: not_eq_complement)
  ultimately have "uint (NOT b) = 18446744073709551615 - uint b"
    by (simp add: unsigned_minus_1_eq_mask mask_eq_exp_minus_1)
  with False show ?thesis
    using and_top_iff [of b] by (simp add: encode_f64_sortable_def unat_top_iff)
qed

lemma sign_magnitude_order:
  fixes m n :: nat
  assumes "(if m < 2 ^ 63 then int (f64_magnitude m) else - int (f64_magnitude (m - 2 ^ 63)))
         < (if n < 2 ^ 63 then int (f64_magnitude n) else - int (f64_magnitude (n - 2 ^ 63)))"
  shows "(if m < 2 ^ 63 then int m else 2 ^ 63 - 1 - int m)
       < (if n < 2 ^ 63 then int n else 2 ^ 63 - 1 - int n)"
  using assms by (auto simp: f64_magnitude_less_iff split: if_splits)

lemma encode_f64_less: "f64_scaled a < f64_scaled b \<Longrightarrow> encode_f64_sortable a < encode_f64_sortable b"
  unfolding word_less_def uint_encode_f64 f64_scaled_def
  by (intro add_strict_right_mono sign_magnitude_order)

section \<open>Properties\<close>

text \<open>
  Sortable \<open>i64\<close> keys: the big-endian bytes of the encoded integers compare as the signed
  integers do, and decoding gives the integer back.
\<close>

theorem sortable_i64_order:
  "(put_u64 (encode_i64_sortable a) < put_u64 (encode_i64_sortable b) \<longleftrightarrow> sint a < sint b)
   \<and> decode_i64_sortable (encode_i64_sortable a) = a"
  by (simp add: u64_field.fld_mono_iff word_less_def uint_encode_i64 decode_encode_sortable)

text \<open>
  C25. Sortable \<open>f64\<close> keys: when one number is smaller than another (both patterns read by IEEE 754,
  infinities included), the big-endian bytes of its encoding are smaller; and decoding gives the
  pattern back, so distinct patterns (the two zeros included) keep distinct keys.
\<close>

theorem sortable_f64_order:
  "decode_f64_sortable (encode_f64_sortable a) = a
   \<and> (f64_scaled a < f64_scaled b
      \<longrightarrow> put_u64 (encode_f64_sortable a) < put_u64 (encode_f64_sortable b))"
  by (simp add: u64_field.fld_mono_iff decode_encode_sortable encode_f64_less)

theorem sortable_f64_order_witness:
  "put_u64 (encode_f64_sortable 0xC000000000000000) < put_u64 (encode_f64_sortable 0x3FF0000000000000)"
  using sortable_f64_order [of "0xC000000000000000" "0x3FF0000000000000"]
  by (simp add: f64_scaled_def f64_magnitude_def)

end
