(* ===== verification/Sequence.thy ===== *)
theory Sequence
  imports Encoding In_Memory
begin

text \<open>
  Sequence allocation (\<open>common/src/sequence.rs\<close>): sequence numbers are handed out from blocks that
  are reserved in storage before use.  The allocator hands out one contiguous increasing run; when
  each block record is stored before its numbers are used, a restart never hands out a number again.
\<close>

section \<open>Definitions\<close>

definition DEFAULT_BLOCK_SIZE :: u64 where "DEFAULT_BLOCK_SIZE = 4096"

datatype sequence_error = SeqStorage storage_error | SeqDeserialize deserialize_error

record allocated_seq_block =
  current_block :: "seq_block option"
  next_sequence :: u64

definition remaining :: "allocated_seq_block \<Rightarrow> u64" where
  "remaining blk =
     (case current_block blk of
        None \<Rightarrow> 0
      | Some b \<Rightarrow> saturating_sub (next_base b) (next_sequence blk))"

definition allocated_seq_block_load ::
    "('s, 'r) storage_ops \<Rightarrow> 's \<Rightarrow> bytes \<Rightarrow> (allocated_seq_block, sequence_error) result" where
  "allocated_seq_block_load ops s key =
     result_bind (result_map_err SeqStorage (op_get ops s key)) (\<lambda>got.
     result_bind
       (case got of
          Some record \<Rightarrow> result_map Some (result_map_err SeqDeserialize (seq_block_deserialize (rec_value record)))
        | None \<Rightarrow> Ok None)
       (\<lambda>current.
         Ok \<lparr>current_block = current,
             next_sequence = (case current of Some b \<Rightarrow> next_base b | None \<Rightarrow> 0)\<rparr>))"

record sequence_allocator =
  sa_key :: bytes
  sa_block :: allocated_seq_block

definition sequence_allocator_new :: "bytes \<Rightarrow> allocated_seq_block \<Rightarrow> sequence_allocator" where
  "sequence_allocator_new key blk = \<lparr>sa_key = key, sa_block = blk\<rparr>"

definition sequence_allocator_load ::
    "('s, 'r) storage_ops \<Rightarrow> 's \<Rightarrow> bytes \<Rightarrow> (sequence_allocator, sequence_error) result" where
  "sequence_allocator_load ops s key =
     result_bind (allocated_seq_block_load ops s key) (\<lambda>blk. Ok \<lparr>sa_key = key, sa_block = blk\<rparr>)"

definition peek_next_sequence :: "sequence_allocator \<Rightarrow> u64" where
  "peek_next_sequence a = next_sequence (sa_block a)"

definition init_next_block :: "sequence_allocator \<Rightarrow> u64 \<Rightarrow> seq_block \<times> storage_record" where
  "init_next_block a min_count =
     (let base = (case current_block (sa_block a) of Some b \<Rightarrow> next_base b | None \<Rightarrow> 0);
          size = max min_count DEFAULT_BLOCK_SIZE;
          new_block = seq_block_new base size
      in (new_block, record_new (sa_key a) (seq_block_serialize new_block)))"

definition allocate :: "sequence_allocator \<Rightarrow> u64 \<Rightarrow> sequence_allocator \<times> u64 \<times> storage_record option" where
  "allocate a count =
     (let blk = sa_block a; rem = remaining blk in
      if rem \<ge> count
      then (a\<lparr>sa_block := blk\<lparr>next_sequence := next_sequence blk + count\<rparr>\<rparr>, next_sequence blk, None)
      else
        let from_new_block = count - rem;
            (new_block, record) = init_next_block a from_new_block;
            base = (if rem > 0 then next_sequence blk else base_sequence new_block)
        in (a\<lparr>sa_block := \<lparr>current_block = Some new_block,
                            next_sequence = base_sequence new_block + from_new_block\<rparr>\<rparr>,
            base, Some record))"

definition allocate_one :: "sequence_allocator \<Rightarrow> sequence_allocator \<times> u64 \<times> storage_record option" where
  "allocate_one a = allocate a 1"

definition allocator_freeze :: "sequence_allocator \<Rightarrow> bytes \<times> allocated_seq_block" where
  "allocator_freeze a = (sa_key a, sa_block a)"

section \<open>The run of an allocator\<close>

text \<open>The end of the reserved block, and the invariant: the numbers left lie before it.\<close>

definition reserved_end :: "seq_block option \<Rightarrow> nat" where
  "reserved_end b = (case b of None \<Rightarrow> 0 | Some b \<Rightarrow> unat (base_sequence b) + unat (block_size b))"

definition alloc_wf :: "sequence_allocator \<Rightarrow> bool" where
  "alloc_wf a \<longleftrightarrow>
     unat (next_sequence (sa_block a)) \<le> reserved_end (current_block (sa_block a))
     \<and> reserved_end (current_block (sa_block a)) < 2 ^ 64"

lemma unat_next_base: "reserved_end (Some b) < 2 ^ 64 \<Longrightarrow> unat (next_base b) = reserved_end (Some b)"
  by (simp add: next_base_def reserved_end_def unat_word_ariths)

lemma unat_remaining:
  assumes "alloc_wf a"
  shows "unat (remaining (sa_block a)) =
    reserved_end (current_block (sa_block a)) - unat (next_sequence (sa_block a))"
  using assms unat_next_base
  by (auto simp: remaining_def alloc_wf_def split: option.splits) (simp add: reserved_end_def)

lemma unat_max_u64: "unat (max a b :: u64) = max (unat a) (unat b)"
  by (simp add: max_def word_le_nat_alt)

lemma allocate_reserved:
  assumes wf: "alloc_wf a" and n: "unat n \<le> unat (remaining (sa_block a))"
  shows "allocate a n = (a\<lparr>sa_block := (sa_block a)\<lparr>next_sequence := next_sequence (sa_block a) + n\<rparr>\<rparr>,
      next_sequence (sa_block a), None)"
    and "unat (next_sequence (sa_block a) + n) = unat (next_sequence (sa_block a)) + unat n"
proof -
  show "allocate a n = (a\<lparr>sa_block := (sa_block a)\<lparr>next_sequence := next_sequence (sa_block a) + n\<rparr>\<rparr>,
      next_sequence (sa_block a), None)"
    using n by (simp add: allocate_def Let_def word_le_nat_alt)
  show "unat (next_sequence (sa_block a) + n) = unat (next_sequence (sa_block a)) + unat n"
    using wf n unat_remaining [OF wf] by (intro unat_add_u64) (auto simp: alloc_wf_def)
qed

lemma allocate_new_block:
  assumes wf: "alloc_wf a" and n: "unat (remaining (sa_block a)) < unat n"
    and room: "reserved_end (current_block (sa_block a)) + max (unat n) 4096 < 2 ^ 64"
  obtains b where
    "allocate a n = (a\<lparr>sa_block := \<lparr>current_block = Some b, next_sequence = next_sequence (sa_block a) + n\<rparr>\<rparr>,
       next_sequence (sa_block a), Some (record_new (sa_key a) (seq_block_serialize b)))"
    and "unat (next_sequence (sa_block a) + n) = unat (next_sequence (sa_block a)) + unat n"
    and "unat (base_sequence b) = reserved_end (current_block (sa_block a))"
    and "unat (next_sequence (sa_block a)) + unat n \<le> reserved_end (Some b)"
    and "reserved_end (Some b) \<le> reserved_end (current_block (sa_block a)) + max (unat n) 4096"
proof -
  let ?nx = "next_sequence (sa_block a)" and ?e = "reserved_end (current_block (sa_block a))"
  define base where "base = (case current_block (sa_block a) of Some b \<Rightarrow> next_base b | None \<Rightarrow> 0)"
  define fresh where "fresh = n - remaining (sa_block a)"
  let ?b = "seq_block_new base (max fresh DEFAULT_BLOCK_SIZE)"
  note rem = unat_remaining [OF wf]
  have base: "unat base = ?e"
    using wf unat_next_base
    by (cases "current_block (sa_block a)") (simp_all add: base_def alloc_wf_def reserved_end_def)
  have fresh: "unat fresh = unat n - (?e - unat ?nx)"
    using n rem unat_sub [of "remaining (sa_block a)" n] by (simp add: fresh_def word_le_nat_alt)
  have size: "unat (max fresh DEFAULT_BLOCK_SIZE) = max (unat fresh) 4096"
    by (simp add: unat_max_u64 DEFAULT_BLOCK_SIZE_def)
  have nx: "unat (?nx + n) = unat ?nx + unat n"
    using wf room by (intro unat_add_u64) (auto simp: alloc_wf_def)
  have "unat base + unat fresh < 2 ^ 64" using room by (simp add: base fresh)
  then have "unat (base + fresh) = unat (?nx + n)"
    using wf n rem by (auto simp: nx unat_add_u64 base fresh alloc_wf_def)
  then have nxt: "base + fresh = ?nx + n" by (simp add: word_unat_eq_iff)
  have first: "(if remaining (sa_block a) > 0 then ?nx else base) = ?nx"
    using base rem wf by (auto simp: alloc_wf_def word_less_nat_alt word_unat_eq_iff)
  show thesis
  proof (rule that [of ?b])
    show "allocate a n = (a\<lparr>sa_block := \<lparr>current_block = Some ?b, next_sequence = ?nx + n\<rparr>\<rparr>, ?nx,
        Some (record_new (sa_key a) (seq_block_serialize ?b)))"
      using n first nxt
      by (simp add: allocate_def init_next_block_def Let_def seq_block_new_def word_le_nat_alt not_le
          flip: base_def fresh_def split: if_splits)
  qed (use wf nx base size fresh n rem in
      \<open>auto simp: seq_block_new_def reserved_end_def alloc_wf_def\<close>)
qed

text \<open>Both cases of \<open>allocate\<close> at once.\<close>

lemma allocate_spec:
  assumes wf: "alloc_wf a" and room: "reserved_end (current_block (sa_block a)) + max (unat n) 4096 < 2 ^ 64"
    and al: "allocate a n = (a', base, r)"
  shows "alloc_wf a' \<and> sa_key a' = sa_key a \<and> base = peek_next_sequence a
    \<and> unat (peek_next_sequence a') = unat (peek_next_sequence a) + unat n
    \<and> reserved_end (current_block (sa_block a')) \<le> reserved_end (current_block (sa_block a)) + max (unat n) 4096
    \<and> reserved_end (current_block (sa_block a)) \<le> reserved_end (current_block (sa_block a'))
    \<and> (case r of
          None \<Rightarrow> current_block (sa_block a') = current_block (sa_block a)
        | Some rec \<Rightarrow> \<exists>b. current_block (sa_block a') = Some b \<and> rec = record_new (sa_key a) (seq_block_serialize b))"
proof (cases "unat n \<le> unat (remaining (sa_block a))")
  case True
  note res = allocate_reserved [OF wf True]
  from res(1) al have "a' = a\<lparr>sa_block := (sa_block a)\<lparr>next_sequence := next_sequence (sa_block a) + n\<rparr>\<rparr>"
    "base = next_sequence (sa_block a)" "r = None" by simp_all
  with res(2) wf True unat_remaining [OF wf] show ?thesis
    by (auto simp: alloc_wf_def peek_next_sequence_def)
next
  case False
  then have less: "unat (remaining (sa_block a)) < unat n" by simp
  obtain b where b:
    "allocate a n = (a\<lparr>sa_block := \<lparr>current_block = Some b, next_sequence = next_sequence (sa_block a) + n\<rparr>\<rparr>,
       next_sequence (sa_block a), Some (record_new (sa_key a) (seq_block_serialize b)))"
    "unat (next_sequence (sa_block a) + n) = unat (next_sequence (sa_block a)) + unat n"
    "unat (base_sequence b) = reserved_end (current_block (sa_block a))"
    "unat (next_sequence (sa_block a)) + unat n \<le> reserved_end (Some b)"
    "reserved_end (Some b) \<le> reserved_end (current_block (sa_block a)) + max (unat n) 4096"
    by (rule allocate_new_block [OF wf less room])
  from b(1) al have "a' = a\<lparr>sa_block := \<lparr>current_block = Some b, next_sequence = next_sequence (sa_block a) + n\<rparr>\<rparr>"
    "base = next_sequence (sa_block a)" "r = Some (record_new (sa_key a) (seq_block_serialize b))" by simp_all
  moreover have "reserved_end (current_block (sa_block a)) \<le> reserved_end (Some b)"
    using b(3) by (simp add: reserved_end_def)
  ultimately show ?thesis
    using b(2,4,5) room by (simp add: alloc_wf_def peek_next_sequence_def)
qed

section \<open>Restarts\<close>

text \<open>
  A session of the allocator over a storage: an allocation whose block record, if any, is put before
  the numbers are used, and a restart that loads the allocator again.  \<open>issued\<close> collects the ranges
  \<open>[base, base + count)\<close> that were handed out.
\<close>

record 's seq_session =
  ss_storage :: 's
  ss_alloc :: sequence_allocator
  ss_issued :: "(nat \<times> nat) list"

inductive seq_step :: "('s, 'r) storage_ops \<Rightarrow> 's seq_session \<Rightarrow> 's seq_session \<Rightarrow> bool"
  for ops :: "('s, 'r) storage_ops" where
  use: "allocate (ss_alloc x) n = (a', base, None) \<Longrightarrow>
    reserved_end (current_block (sa_block (ss_alloc x))) + max (unat n) 4096 < 2 ^ 64 \<Longrightarrow>
    seq_step ops x (x\<lparr>ss_alloc := a', ss_issued := ss_issued x @ [(unat base, unat n)]\<rparr>)"
| reserve: "allocate (ss_alloc x) n = (a', base, Some rec) \<Longrightarrow>
    reserved_end (current_block (sa_block (ss_alloc x))) + max (unat n) 4096 < 2 ^ 64 \<Longrightarrow>
    storage_put ops (ss_storage x) [put_record_op_new rec] = (s', Ok w) \<Longrightarrow>
    seq_step ops x (x\<lparr>ss_storage := s', ss_alloc := a', ss_issued := ss_issued x @ [(unat base, unat n)]\<rparr>)"
| restart: "sequence_allocator_load ops (ss_storage x) (sa_key (ss_alloc x)) = Ok a' \<Longrightarrow>
    seq_step ops x (x\<lparr>ss_alloc := a'\<rparr>)"

inductive seq_run :: "('s, 'r) storage_ops \<Rightarrow> 's \<Rightarrow> bytes \<Rightarrow> 's seq_session \<Rightarrow> bool"
  for ops :: "('s, 'r) storage_ops" and s key where
  load: "sequence_allocator_load ops s key = Ok a \<Longrightarrow>
    seq_run ops s key \<lparr>ss_storage = s, ss_alloc = a, ss_issued = []\<rparr>"
| next_step: "seq_run ops s key x \<Longrightarrow> seq_step ops x y \<Longrightarrow> seq_run ops s key y"

definition disjoint_ranges :: "(nat \<times> nat) list \<Rightarrow> bool" where
  "disjoint_ranges rs = sorted_wrt (\<lambda>(a, m) (b, n). a + m \<le> b) rs"

lemma disjoint_ranges_snoc:
  "disjoint_ranges (rs @ [(b, n)]) \<longleftrightarrow> disjoint_ranges rs \<and> (\<forall>(a, m) \<in> set rs. a + m \<le> b)"
  by (auto simp: disjoint_ranges_def sorted_wrt_append)

context storage_laws
begin

definition stored_block :: "'s \<Rightarrow> bytes \<Rightarrow> seq_block option \<Rightarrow> bool" where
  "stored_block s key b \<longleftrightarrow> view s key = map_option seq_block_serialize b"

definition session_inv :: "bytes \<Rightarrow> 's seq_session \<Rightarrow> bool" where
  "session_inv key x \<longleftrightarrow>
     inv (ss_storage x) \<and> live (ss_storage x) Default \<and> sa_key (ss_alloc x) = key
     \<and> alloc_wf (ss_alloc x)
     \<and> stored_block (ss_storage x) key (current_block (sa_block (ss_alloc x)))
     \<and> disjoint_ranges (ss_issued x)
     \<and> (\<forall>(b, n) \<in> set (ss_issued x). b + n \<le> unat (peek_next_sequence (ss_alloc x)))"

lemma load_block:
  assumes "inv s" and "stored_block s key b" and "reserved_end b < 2 ^ 64"
  shows "\<exists>a. sequence_allocator_load ops s key = Ok a \<and> alloc_wf a \<and> sa_key a = key
    \<and> current_block (sa_block a) = b \<and> unat (peek_next_sequence a) = reserved_end b"
proof (cases b)
  case None
  with assms show ?thesis
    by (simp add: sequence_allocator_load_def allocated_seq_block_load_def get_view stored_block_def
        alloc_wf_def peek_next_sequence_def reserved_end_def)
next
  case (Some blk)
  with assms unat_next_base [of blk] show ?thesis
    by (simp add: sequence_allocator_load_def allocated_seq_block_load_def get_view stored_block_def
        record_new_def seq_block_round_trip_exact alloc_wf_def peek_next_sequence_def)
qed

lemma session_step:
  assumes "seq_step ops x y" and "session_inv key x"
  shows "session_inv key y"
  using assms
proof (induction rule: seq_step.induct)
  case (use x n a' base)
  then have "alloc_wf (ss_alloc x)" by (simp add: session_inv_def)
  from allocate_spec [OF this use(2,1)] use(3) show ?case
    by (fastforce simp: session_inv_def disjoint_ranges_snoc)
next
  case (reserve x n a' base rec s' w)
  then have "alloc_wf (ss_alloc x)" by (simp add: session_inv_def)
  note spec = allocate_spec [OF this reserve(2,1)]
  from spec obtain b where b: "current_block (sa_block a') = Some b"
      "rec = record_new (sa_key (ss_alloc x)) (seq_block_serialize b)" by auto
  from reserve(3,4) have "inv s' \<and> view s' = put_view (live (ss_storage x)) (put_record_op_new rec) (view (ss_storage x))
      \<and> live s' = live (ss_storage x)"
    using put_ok [of "ss_storage x" "[put_record_op_new rec]"] by (simp add: session_inv_def storage_put_def)
  with spec b reserve(4) show ?case
    by (fastforce simp: session_inv_def disjoint_ranges_snoc stored_block_def put_view_def
        put_record_op_new_def put_options_default_def record_new_def)
next
  case (restart x a')
  then have "inv (ss_storage x)" "stored_block (ss_storage x) key (current_block (sa_block (ss_alloc x)))"
      "reserved_end (current_block (sa_block (ss_alloc x))) < 2 ^ 64" "sa_key (ss_alloc x) = key"
      "unat (peek_next_sequence (ss_alloc x)) \<le> reserved_end (current_block (sa_block (ss_alloc x)))"
    by (simp_all add: session_inv_def alloc_wf_def peek_next_sequence_def)
  with load_block [of "ss_storage x" key] restart show ?case
    by (fastforce simp: session_inv_def)
qed

lemma run_inv:
  assumes "seq_run ops s key x" and "inv s" and "live s Default" and "view s key = None"
  shows "session_inv key x"
  using assms
proof (induction rule: seq_run.induct)
  case (load a)
  with load_block [of s key None] show ?case
    by (auto simp: session_inv_def disjoint_ranges_def stored_block_def reserved_end_def)
next
  case (next_step x y)
  then show ?case by (blast intro: session_step)
qed

end

text \<open>On an in-memory storage an allocation always goes through.\<close>

lemma im_can_allocate:
  fixes n :: u64
  assumes "im.session_inv key x"
    and "reserved_end (current_block (sa_block (ss_alloc x))) + max (unat n) 4096 < 2 ^ 64"
  shows "\<exists>y. seq_step in_memory_ops x y \<and> length (ss_issued y) = Suc (length (ss_issued x))
    \<and> reserved_end (current_block (sa_block (ss_alloc y)))
        \<le> reserved_end (current_block (sa_block (ss_alloc x))) + max (unat n) 4096"
proof -
  obtain a' base r where al: "allocate (ss_alloc x) n = (a', base, r)" by (cases "allocate (ss_alloc x) n")
  from assms(1) have "alloc_wf (ss_alloc x)" "im_inv (ss_storage x)" by (simp_all add: im.session_inv_def)
  note spec = allocate_spec [OF this(1) assms(2) al]
  show ?thesis
  proof (cases r)
    case None
    with al have "allocate (ss_alloc x) n = (a', base, None)" by simp
    from seq_step.use [OF this assms(2)] spec show ?thesis by (intro exI conjI) auto
  next
    case (Some rec)
    with al have al': "allocate (ss_alloc x) n = (a', base, Some rec)" by simp
    obtain s' w where "storage_put in_memory_ops (ss_storage x) [put_record_op_new rec] = (s', Ok w)"
      using im_put_Ok [OF \<open>im_inv (ss_storage x)\<close> prod.collapse [symmetric]]
      by (metis prod.collapse storage_put_def in_memory_ops_def storage_ops.select_convs(4))
    from seq_step.reserve [OF al' assms(2) this] spec show ?thesis by (intro exI conjI) auto
  qed
qed

section \<open>Properties\<close>

text \<open>
  One allocation: whatever is left of the current block, \<open>allocate(n)\<close> returns the number that
  \<open>peek_next_sequence\<close> announced, moves it on by exactly \<open>n\<close> (so consecutive allocations are
  contiguous, across a change of block too), keeps the numbers handed out inside the reserved block,
  and returns a record to store exactly when it has reserved a new block.
\<close>

theorem allocate_contiguous:
  assumes "alloc_wf a" and "reserved_end (current_block (sa_block a)) + max (unat n) 4096 < 2 ^ 64"
    and "allocate a n = (a', base, r)"
  shows "base = peek_next_sequence a
    \<and> unat (peek_next_sequence a') = unat (peek_next_sequence a) + unat n
    \<and> alloc_wf a'
    \<and> (r = None \<longleftrightarrow> unat n \<le> unat (remaining (sa_block a)))
    \<and> (\<forall>rec. r = Some rec \<longrightarrow>
          (\<exists>b. current_block (sa_block a') = Some b \<and> rec = record_new (sa_key a) (seq_block_serialize b)))"
proof -
  have "r = None \<longleftrightarrow> unat n \<le> unat (remaining (sa_block a))"
    using assms(3) by (auto simp: allocate_def Let_def word_le_nat_alt split: if_splits prod.splits)
  with allocate_spec [OF assms] show ?thesis by auto
qed

theorem allocate_contiguous_witness:
  "\<exists>a' base r. allocate \<lparr>sa_key = [7], sa_block = \<lparr>current_block = Some (seq_block_new 0 4096), next_sequence = 4000\<rparr>\<rparr> 100
     = (a', base, r) \<and> base = 4000 \<and> unat (peek_next_sequence a') = 4100 \<and> r \<noteq> None"
proof -
  let ?a = "\<lparr>sa_key = [7], sa_block = \<lparr>current_block = Some (seq_block_new 0 4096), next_sequence = 4000\<rparr>\<rparr>"
  obtain a' base r where eq: "allocate ?a 100 = (a', base, r)" by (cases "allocate ?a 100")
  have "alloc_wf ?a" "reserved_end (current_block (sa_block ?a)) + max (unat (100 :: u64)) 4096 < 2 ^ 64"
    by (simp_all add: alloc_wf_def reserved_end_def seq_block_new_def)
  from allocate_contiguous [OF this eq] eq show ?thesis
    by (simp add: peek_next_sequence_def remaining_def next_base_def seq_block_new_def)
qed

text \<open>
  C11. No reuse across restarts: when each block record is put before its numbers are used, the
  ranges handed out over any number of restarts on an in-memory storage are pairwise disjoint and in
  increasing order.
\<close>

theorem sequences_never_reused:
  assumes "seq_run in_memory_ops (in_memory_new now) key x"
  shows "disjoint_ranges (ss_issued x)"
proof -
  have "im_inv (in_memory_new now)" "im_live (in_memory_new now) Default" "im_view (in_memory_new now) key = None"
    by (simp_all add: im_inv_def in_memory_new_def im_live_def live_at_def is_expired_def
        compute_expire_ts_def im_view_def data_get_def)
  from im.run_inv [OF assms this] show ?thesis by (simp add: im.session_inv_def)
qed

theorem sequences_never_reused_witness:
  "\<exists>x. seq_run in_memory_ops (in_memory_new 0) [7] x \<and> length (ss_issued x) = 2
     \<and> disjoint_ranges (ss_issued x)"
proof -
  let ?s = "in_memory_new 0"
  have init: "im_inv ?s" "im_live ?s Default" "im_view ?s [7] = None"
    by (simp_all add: im_inv_def in_memory_new_def im_live_def live_at_def is_expired_def
        compute_expire_ts_def im_view_def data_get_def)
  obtain a where a: "sequence_allocator_load in_memory_ops ?s [7] = Ok a" "current_block (sa_block a) = None"
    using im.load_block [of ?s "[7]" None] init
    by (auto simp: im.stored_block_def reserved_end_def)
  let ?x = "\<lparr>ss_storage = ?s, ss_alloc = a, ss_issued = []\<rparr>"
  have run: "seq_run in_memory_ops ?s [7] ?x" by (rule seq_run.load) (rule a(1))
  obtain y where y: "seq_step in_memory_ops ?x y" "length (ss_issued y) = 1"
      "reserved_end (current_block (sa_block (ss_alloc y))) \<le> 4096"
    using im_can_allocate [OF im.run_inv [OF run init], of 1] a(2) by (auto simp: reserved_end_def)
  have run_y: "seq_run in_memory_ops ?s [7] y" by (rule seq_run.next_step [OF run y(1)])
  note inv_y = im.run_inv [OF run_y init]
  obtain b where b: "seq_step in_memory_ops y (y\<lparr>ss_alloc := b\<rparr>)"
      "current_block (sa_block b) = current_block (sa_block (ss_alloc y))"
    using im.load_block [of "ss_storage y" "[7]" "current_block (sa_block (ss_alloc y))"] inv_y seq_step.restart [of in_memory_ops y] y(3)
    by (auto simp: im.session_inv_def)
  have run_b: "seq_run in_memory_ops ?s [7] (y\<lparr>ss_alloc := b\<rparr>)" by (rule seq_run.next_step [OF run_y b(1)])
  obtain z where "seq_step in_memory_ops (y\<lparr>ss_alloc := b\<rparr>) z" "length (ss_issued z) = 2"
    using im_can_allocate [OF im.run_inv [OF run_b init], of 1] b(2) y(2,3) by auto
  then have "seq_run in_memory_ops ?s [7] z" using seq_run.next_step [OF run_b] by blast
  from sequences_never_reused [OF this] this \<open>length (ss_issued z) = 2\<close> show ?thesis by blast
qed

end
