(* ===== verification/Terminated_Bytes.thy ===== *)
theory Terminated_Bytes
  imports Byte_Range Encoding
begin

text \<open>
  Terminated bytes (\<open>common/src/serde/terminated_bytes.rs\<close>): user keys of any length inside a
  composite key, escaped so that the terminator \<open>0x00\<close> does not occur in them.  The encoding is
  order preserving and prefix free, its decoder accepts nothing but encodings, and the range for
  a key prefix selects exactly the keys that have it.
\<close>

section \<open>Definitions\<close>

definition TERMINATOR_BYTE :: u8 where "TERMINATOR_BYTE = 0x00"

definition ESCAPE_BYTE :: u8 where "ESCAPE_BYTE = 0x01"

definition escape_byte :: "u8 \<Rightarrow> bytes" where
  "escape_byte byte =
     (if byte = TERMINATOR_BYTE then [ESCAPE_BYTE, 0x01]
      else if byte = ESCAPE_BYTE then [ESCAPE_BYTE, 0x02]
      else [byte])"

primrec terminated_serialize :: "bytes \<Rightarrow> bytes" where
  "terminated_serialize [] = [TERMINATOR_BYTE]"
| "terminated_serialize (byte # data) = escape_byte byte @ terminated_serialize data"

definition terminated_serialize_to_bytes :: "bytes \<Rightarrow> bytes" where
  "terminated_serialize_to_bytes data = [] @ terminated_serialize data"

text \<open>The loop of \<open>deserialize\<close>: \<open>result\<close> so far, and the part of the buffer from position \<open>i\<close>.\<close>

fun terminated_deserialize_loop :: "bytes \<Rightarrow> bytes \<Rightarrow> (bytes \<times> bytes, deserialize_error) result" where
  "terminated_deserialize_loop result [] =
     Err (DeserializeError ''unterminated bytes sequence (missing 0x00 terminator)'' [])"
| "terminated_deserialize_loop result (byte # buf) =
     (if byte = TERMINATOR_BYTE then Ok (result, buf)
      else if byte = ESCAPE_BYTE then
        (case buf of
           [] \<Rightarrow> Err (DeserializeError ''truncated escape sequence in terminated bytes'' [])
         | nxt # buf' \<Rightarrow>
             if nxt = 0x01 then terminated_deserialize_loop (result @ [TERMINATOR_BYTE]) buf'
             else if nxt = 0x02 then terminated_deserialize_loop (result @ [ESCAPE_BYTE]) buf'
             else Err (DeserializeError ''invalid escape sequence: 0x01 0x{:02x}'' [uint nxt]))
      else terminated_deserialize_loop (result @ [byte]) buf)"

definition terminated_deserialize :: "bytes \<Rightarrow> (bytes \<times> bytes, deserialize_error) result" where
  "terminated_deserialize buf = terminated_deserialize_loop [] buf"

definition prefix_range :: "bytes \<Rightarrow> bytes_range" where
  "prefix_range p =
     (if p = [] then bytes_range_unbounded
      else let start = terminated_serialize_to_bytes p in
        case lex_increment p of
          Some e \<Rightarrow> bytes_range_new (Included start) (Excluded (terminated_serialize_to_bytes e))
        | None \<Rightarrow> bytes_range_new (Included start) Unbounded)"

lemmas escape_defs = escape_byte_def TERMINATOR_BYTE_def ESCAPE_BYTE_def

section \<open>Round trip\<close>

lemma deserialize_loop_serialize:
  "terminated_deserialize_loop acc (terminated_serialize key @ rest) = Ok (acc @ key, rest)"
  by (induction key arbitrary: acc) (simp_all add: escape_defs)

lemma terminated_round_trip [codec_simps]:
  "terminated_deserialize (terminated_serialize key @ rest) = Ok (key, rest)"
  by (simp add: terminated_deserialize_def deserialize_loop_serialize)

interpretation terminated: front_codec terminated_serialize terminated_deserialize "\<lambda>_. True"
  by unfold_locales (rule terminated_round_trip)

lemma deserialize_loop_canonical:
  assumes "terminated_deserialize_loop acc buf = Ok (key, rest)"
  shows "\<exists>key'. key = acc @ key' \<and> buf = terminated_serialize key' @ rest"
  using assms
proof (induction acc buf rule: terminated_deserialize_loop.induct)
  case (2 acc byte buf)
  show ?case
  proof (cases "byte = TERMINATOR_BYTE")
    case True
    with "2.prems" show ?thesis by (intro exI [of _ "[]"]) simp
  next
    case not_term: False
    show ?thesis
    proof (cases "byte = ESCAPE_BYTE")
      case False
      with "2.IH"(3) "2.prems" not_term obtain k where
        "key = (acc @ [byte]) @ k" "buf = terminated_serialize k @ rest" by auto
      with False not_term show ?thesis by (intro exI [of _ "byte # k"]) (simp add: escape_byte_def)
    next
      case True
      with "2.prems" not_term obtain nxt buf' where buf: "buf = nxt # buf'"
        by (cases buf) auto
      with True not_term "2.prems" have "nxt = 0x01 \<or> nxt = 0x02" by (auto split: if_splits)
      then show ?thesis
      proof
        assume n: "nxt = 0x01"
        with "2.IH"(1) [OF not_term True buf n] "2.prems" True not_term buf obtain k where
          "key = (acc @ [TERMINATOR_BYTE]) @ k" "buf' = terminated_serialize k @ rest" by auto
        with n buf True show ?thesis
          by (intro exI [of _ "TERMINATOR_BYTE # k"]) (simp add: escape_byte_def)
      next
        assume n: "nxt = 0x02"
        with "2.IH"(2) [OF not_term True buf _ n] "2.prems" True not_term buf obtain k where
          "key = (acc @ [ESCAPE_BYTE]) @ k" "buf' = terminated_serialize k @ rest" by auto
        with n buf True show ?thesis
          by (intro exI [of _ "ESCAPE_BYTE # k"]) (simp add: escape_defs)
      qed
    qed
  qed
qed simp

section \<open>Order\<close>

lemma one_less_byte: "b \<noteq> 0 \<Longrightarrow> b \<noteq> 1 \<Longrightarrow> (1 :: u8) < b"
  using word_unat_eq_iff [of b 0] word_unat_eq_iff [of b 1] by (simp add: word_less_nat_alt)

lemma escape_byte_less: "a < b \<Longrightarrow> escape_byte a @ s < escape_byte b @ t"
  using one_less_byte [of b] by (auto simp: escape_defs word_less_nat_alt)

lemma terminator_less_escape: "TERMINATOR_BYTE # s < escape_byte b @ t"
  by (auto simp: escape_defs word_neq_0_conv)

lemma terminated_serialize_less: "a < b \<Longrightarrow> terminated_serialize a @ s < terminated_serialize b @ t"
proof (induction a arbitrary: b)
  case Nil
  then show ?case by (cases b) (simp_all add: terminator_less_escape)
next
  case (Cons x xs)
  then show ?case by (cases b) (auto simp: escape_byte_less)
qed

interpretation terminated_key: key_field terminated_serialize
  by unfold_locales (rule terminated_serialize_less)

lemma terminated_le_append_iff: "terminated_serialize p \<le> terminated_serialize k @ rest \<longleftrightarrow> p \<le> k"
  using terminated_key.fld_less [of p k "[]" rest] terminated_key.fld_less [of k p rest "[]"]
  by (cases p k rule: linorder_cases) (auto simp: less_le_not_le)

lemma terminated_append_less_iff: "terminated_serialize k @ rest < terminated_serialize e \<longleftrightarrow> k < e"
  using terminated_le_append_iff [of e k rest] by (simp add: not_le [symmetric])

section \<open>Properties\<close>

text \<open>
  C26. Terminated bytes round trip: a decoder reading a buffer that starts with an encoded key
  returns the key and the rest of the buffer, and conversely whatever it accepts is the encoding of
  the key it returns followed by the rest.
\<close>

theorem terminated_bytes_decode_iff:
  "terminated_deserialize buf = Ok (key, rest) \<longleftrightarrow> buf = terminated_serialize key @ rest"
  using deserialize_loop_canonical [of "[]" buf key rest]
  by (auto simp: terminated_round_trip terminated_deserialize_def deserialize_loop_serialize)

text \<open>
  Terminated bytes keep the order of the keys, whatever fields follow them in the composite key:
  two different keys compare as their encodings do.
\<close>

theorem terminated_bytes_order:
  "a \<noteq> b \<Longrightarrow> terminated_serialize a @ s < terminated_serialize b @ t \<longleftrightarrow> a < b"
  using terminated_serialize_less [of a b s t] terminated_serialize_less [of b a t s] by force

theorem terminated_bytes_order_witness:
  "terminated_serialize [0x61] @ [9] < terminated_serialize [0x61, 0x00] @ [1]"
  using terminated_bytes_order [of "[0x61]" "[0x61, 0x00]" "[9]" "[1]"] by simp

text \<open>
  C27. \<open>prefix_range(p)\<close> selects, among the encoded keys (with any fields after them), exactly those
  whose logical key starts with \<open>p\<close>.
\<close>

theorem prefix_range_contains:
  "range_contains (prefix_range p) (terminated_serialize k @ rest) \<longleftrightarrow> prefix p k"
  using lex_increment_loop_bounds [of p k]
  by (auto simp: prefix_range_def terminated_serialize_to_bytes_def range_defs lex_increment_def
      terminated_le_append_iff terminated_append_less_iff Let_def split: option.splits)

end
