(* ===== verification/Varint.thy ===== *)
theory Varint
  imports Encoding
begin

text \<open>
  Variable-length integers (\<open>common/src/serde/varint.rs\<close>): a length code in the high bits of the
  first byte, the value big-endian in the rest of it.  Both widths are shown to be instances of one
  scheme (\<open>length_coded\<close>), which gives their order preservation; the decoders invert them.
\<close>

section \<open>Definitions\<close>

text \<open>The loop of \<open>length_code\<close> over the thresholds.\<close>

primrec length_code_loop :: "nat \<Rightarrow> u64 list \<Rightarrow> u64 \<Rightarrow> u8 option" where
  "length_code_loop i [] x = None"
| "length_code_loop i (threshold # ts) x =
     (if x < threshold then Some (word_of_nat i) else length_code_loop (i + 1) ts x)"

text \<open>The loops of \<open>serialize\<close> and \<open>deserialize\<close> over \<open>1..total_bytes\<close>.\<close>

definition tail_bytes :: "nat \<Rightarrow> 'w::len word \<Rightarrow> bytes" where
  "tail_bytes total_bytes value =
     map (\<lambda>i. ucast (drop_bit (8 * (total_bytes - 1 - i)) value AND 0xFF)) [1..<total_bytes]"

definition read_tail :: "u64 \<Rightarrow> bytes \<Rightarrow> u64" where
  "read_tail = foldl (\<lambda>value b. push_bit 8 value OR ucast b)"

subsection \<open>\<open>var_u32\<close>\<close>

definition var_u32_MAX_LEN_CODE :: u8 where "var_u32_MAX_LEN_CODE = 4"

definition var_u32_THRESHOLDS :: "u64 list" where
  "var_u32_THRESHOLDS = [push_bit 5 1, push_bit 13 1, push_bit 21 1, push_bit 29 1, push_bit 37 1]"

definition var_u32_length_code :: "u32 \<Rightarrow> u8" where
  "var_u32_length_code x =
     (case length_code_loop 0 var_u32_THRESHOLDS (ucast x) of
        Some i \<Rightarrow> i | None \<Rightarrow> var_u32_MAX_LEN_CODE)"

definition var_u32_serialize :: "u32 \<Rightarrow> bytes" where
  "var_u32_serialize value =
     (let len_code = var_u32_length_code value;
          total_bytes = unat len_code + 1;
          shift = 8 * (total_bytes - 1);
          first_data_bits = ucast (drop_bit shift (ucast value :: u64)) AND 0x1F
      in (push_bit 5 len_code OR first_data_bits) # tail_bytes total_bytes value)"

definition var_u32_deserialize :: "bytes \<Rightarrow> (u32 \<times> bytes, deserialize_error) result" where
  "var_u32_deserialize buf =
     (case buf of
        [] \<Rightarrow> Err (DeserializeError ''unexpected end of input: missing var_u32 first byte'' [])
      | first_byte # _ \<Rightarrow>
          let len_code = drop_bit 5 first_byte in
          if len_code > var_u32_MAX_LEN_CODE
          then Err (DeserializeError ''invalid var_u32 length code: {} (expected 0..{})''
                      [uint len_code, uint var_u32_MAX_LEN_CODE])
          else
            let total_bytes = unat len_code + 1 in
            if length buf < total_bytes
            then Err (DeserializeError ''unexpected end of input: expected {} bytes, got {}''
                        [int total_bytes, int (length buf)])
            else
              let value = read_tail (ucast (first_byte AND 0x1F)) (take (total_bytes - 1) (drop 1 buf)) in
              if value > 0xFFFFFFFF
              then Err (DeserializeError ''var_u32 value {} exceeds u32::MAX'' [uint value])
              else Ok (ucast value, drop total_bytes buf))"

subsection \<open>\<open>var_u64\<close>\<close>

definition var_u64_MAX_LEN_CODE :: u8 where "var_u64_MAX_LEN_CODE = 8"

definition var_u64_THRESHOLDS :: "u64 list" where
  "var_u64_THRESHOLDS =
     [push_bit 4 1, push_bit 12 1, push_bit 20 1, push_bit 28 1, push_bit 36 1, push_bit 44 1,
      push_bit 52 1, push_bit 60 1, u64_max]"

definition var_u64_length_code :: "u64 \<Rightarrow> u8" where
  "var_u64_length_code x =
     (case length_code_loop 0 var_u64_THRESHOLDS x of
        Some i \<Rightarrow> i | None \<Rightarrow> var_u64_MAX_LEN_CODE)"

definition var_u64_serialize :: "u64 \<Rightarrow> bytes" where
  "var_u64_serialize value =
     (let len_code = var_u64_length_code value;
          total_bytes = unat len_code + 1;
          shift = 8 * (total_bytes - 1);
          first_data_bits = (if shift \<ge> 64 then 0 else ucast (drop_bit shift value) AND 0x0F)
      in (push_bit 4 len_code OR first_data_bits) # tail_bytes total_bytes value)"

definition var_u64_deserialize :: "bytes \<Rightarrow> (u64 \<times> bytes, deserialize_error) result" where
  "var_u64_deserialize buf =
     (case buf of
        [] \<Rightarrow> Err (DeserializeError ''unexpected end of input: missing var_u64 first byte'' [])
      | first_byte # _ \<Rightarrow>
          let len_code = drop_bit 4 first_byte in
          if len_code > var_u64_MAX_LEN_CODE
          then Err (DeserializeError ''invalid var_u64 length code: {} (expected 0..{})''
                      [uint len_code, uint var_u64_MAX_LEN_CODE])
          else
            let total_bytes = unat len_code + 1 in
            if length buf < total_bytes
            then Err (DeserializeError ''unexpected end of input: expected {} bytes, got {}''
                        [int total_bytes, int (length buf)])
            else
              let value = read_tail (ucast (first_byte AND 0x0F)) (take (total_bytes - 1) (drop 1 buf)) in
              Ok (value, drop total_bytes buf))"

section \<open>The bytes of a value\<close>

lemma mask_numerals:
  "(0xFF :: 'w::len word) = mask 8" "(0x1F :: 'w::len word) = mask 5" "(0x0F :: 'w::len word) = mask 4"
  by (simp_all add: mask_eq_exp_minus_1)

lemma byte_of_drop_bit:
  "(ucast (drop_bit (8 * k) (value :: 'w::len word) AND 0xFF) :: u8) = word_of_nat (unat value div 256 ^ k)"
proof -
  have "unat (drop_bit (8 * k) value AND mask 8) = unat value div 256 ^ k mod 256"
    unfolding take_bit_eq_mask [symmetric] unsigned_take_bit_eq unat_drop_bit_eq
    by (simp add: take_bit_eq_mod drop_bit_eq_div power_mult)
  then show ?thesis
    unfolding mask_numerals by (simp add: word_unat_eq_iff unsigned_ucast_eq take_bit_eq_mod unat_of_nat)
qed

lemma be_enc_map: "be_enc l n = map (\<lambda>i. word_of_nat (n div 256 ^ (l - 1 - i))) [0..<l]"
proof (induction l arbitrary: n)
  case (Suc l)
  have "word_of_nat (n mod 256) = (word_of_nat n :: u8)"
    by (simp add: word_unat_eq_iff unat_of_nat)
  moreover have "n div 256 div 256 ^ (l - 1 - i) = n div 256 ^ (l - i)" if "i < l" for i
    using that power_Suc [of "256 :: nat" "l - 1 - i"] by (simp add: div_mult2_eq [symmetric] Suc_diff_Suc)
  ultimately show ?case by (simp add: Suc)
qed simp

lemma tail_bytes_be_enc: "tail_bytes (Suc l) value = be_enc l (unat value)"
proof -
  have "[1..<Suc l] = map Suc [0..<l]" by (simp add: map_Suc_upt)
  then show ?thesis by (simp add: tail_bytes_def byte_of_drop_bit be_enc_map)
qed

lemma push_byte: "push_bit 8 (value :: u64) OR ucast (b :: u8) = value * 256 + ucast b"
proof -
  have "push_bit 8 value AND ucast b = 0"
    by (rule bit_word_eqI) (auto simp: bit_simps dest: bit_imp_le_length)
  then show ?thesis by (simp add: disjunctive_add_eq_or [symmetric] push_bit_eq_mult)
qed

lemma read_tail_val:
  "read_tail (word_of_nat n) bs = word_of_nat (n * 256 ^ length bs + be_val bs)"
proof (induction bs rule: rev_induct)
  case (snoc b bs)
  then show ?case by (simp add: read_tail_def push_byte be_val_snoc algebra_simps)
qed (simp add: read_tail_def)

definition lc_head :: "nat \<Rightarrow> nat \<Rightarrow> nat \<Rightarrow> u8" where
  "lc_head d l h = word_of_nat (l * 2 ^ d + h)"

definition lc_bytes :: "nat \<Rightarrow> nat \<Rightarrow> nat \<Rightarrow> bytes" where
  "lc_bytes d l n = lc_head d l (n div 256 ^ l) # be_enc l n"

lemma unat_lc_head: "l * 2 ^ d + h < 256 \<Longrightarrow> unat (lc_head d l h) = l * 2 ^ d + h"
  unfolding lc_head_def by (subst unat_of_nat) simp

lemma first_byte:
  "push_bit d lc OR (x AND mask d) = lc_head d (unat lc) (unat x mod 2 ^ d)"
proof -
  have "push_bit d lc AND (x AND mask d) = 0"
    by (rule bit_word_eqI) (auto simp: bit_simps)
  moreover have "word_of_nat (unat x mod 2 ^ d) = take_bit d x"
    unfolding word_unat_eq_iff unsigned_take_bit_eq
    using le_less_trans [OF mod_less_eq_dividend unat_byte_less, of x "2 ^ d"]
    by (simp add: take_bit_eq_mod unat_of_nat)
  ultimately show ?thesis
    by (simp add: disjunctive_add_eq_or [symmetric] push_bit_eq_mult take_bit_eq_mask [symmetric]
        lc_head_def)
qed

section \<open>Length-coded integers\<close>

locale length_coded =
  fixes d :: nat and len :: "nat \<Rightarrow> nat" and lim :: nat
  assumes fits: "n < lim \<Longrightarrow> n < 2 ^ d * 256 ^ len n"
    and tight: "len n \<noteq> 0 \<Longrightarrow> 2 ^ d * 256 ^ (len n - 1) \<le> n"
    and small: "n < lim \<Longrightarrow> (len n + 1) * 2 ^ d \<le> 256"
begin

lemma len_mono:
  assumes "a \<le> b" and "b < lim"
  shows "len a \<le> len b"
proof (rule ccontr)
  assume "\<not> len a \<le> len b"
  then have "len b \<le> len a - 1" "len a \<noteq> 0" by simp_all
  from tight [OF this(2)] assms fits [OF assms(2)]
  have "2 ^ d * 256 ^ (len a - 1) < 2 ^ d * (256 :: nat) ^ len b" by linarith
  with \<open>len b \<le> len a - 1\<close> show False by (simp add: power_strict_increasing_iff not_less)
qed

lemma head_bound:
  assumes "n < lim"
  shows "n div 256 ^ len n < 2 ^ d" and "len n * 2 ^ d + n div 256 ^ len n < 256"
proof -
  show *: "n div 256 ^ len n < 2 ^ d"
    using fits [OF assms] by (simp add: less_mult_imp_div_less)
  from * small [OF assms] show "len n * 2 ^ d + n div 256 ^ len n < 256" by simp
qed

lemma unat_head:
  "n < lim \<Longrightarrow> unat (lc_head d (len n) (n div 256 ^ len n)) = len n * 2 ^ d + n div 256 ^ len n"
  by (rule unat_lc_head) (rule head_bound(2))

lemma lc_less:
  assumes "a < b" and "b < lim"
  shows "lc_bytes d (len a) a @ s < lc_bytes d (len b) b @ t"
proof (cases "len a = len b")
  case True
  from assms have a: "a < lim" by simp
  have val: "be_val (lc_bytes d (len n) n) = len n * 2 ^ d * 256 ^ len n + n" if "n < lim" for n
    using unat_head [OF that] by (simp add: lc_bytes_def be_val_Cons be_val_be_enc algebra_simps)
  have len: "length (lc_bytes d (len a) a) = length (lc_bytes d (len b) b)"
    using True by (simp add: lc_bytes_def)
  have "lc_bytes d (len a) a < lc_bytes d (len b) b"
    unfolding be_val_less_iff [OF len] val [OF a] val [OF assms(2)] using True assms(1) by simp
  with len show ?thesis by (rule same_length_less_append)
next
  case False
  from assms have a: "a < lim" by simp
  from False len_mono [of a b] assms have "len a < len b" by simp
  from digit_less [OF this head_bound(1) [OF a], of "b div 256 ^ len b"]
  show ?thesis
    by (simp add: lc_bytes_def word_less_nat_alt unat_head a assms(2))
qed

end

section \<open>The two widths\<close>

lemma var_u32_length_code_cases:
  "unat (var_u32_length_code (word_of_nat n)) =
     (if n mod 2 ^ 32 < 2 ^ 5 then 0 else if n mod 2 ^ 32 < 2 ^ 13 then 1
      else if n mod 2 ^ 32 < 2 ^ 21 then 2 else if n mod 2 ^ 32 < 2 ^ 29 then 3 else 4)"
proof -
  have "unat (ucast (word_of_nat n :: u32) :: u64) = n mod 2 ^ 32"
    by (simp add: unsigned_ucast_eq take_bit_eq_mod unat_of_nat)
  then show ?thesis
    by (simp add: var_u32_length_code_def var_u32_THRESHOLDS_def var_u32_MAX_LEN_CODE_def
        word_less_nat_alt push_bit_eq_mult)
qed

lemma var_u64_length_code_cases:
  "unat (var_u64_length_code (word_of_nat n)) =
     (let m = n mod 2 ^ 64 in
      if m < 2 ^ 4 then 0 else if m < 2 ^ 12 then 1 else if m < 2 ^ 20 then 2
      else if m < 2 ^ 28 then 3 else if m < 2 ^ 36 then 4 else if m < 2 ^ 44 then 5
      else if m < 2 ^ 52 then 6 else if m < 2 ^ 60 then 7 else 8)"
  by (simp add: var_u64_length_code_def var_u64_THRESHOLDS_def var_u64_MAX_LEN_CODE_def
      word_less_nat_alt push_bit_eq_mult unat_of_nat Let_def)

interpretation lc32: length_coded 5 "\<lambda>n. unat (var_u32_length_code (word_of_nat n))" "2 ^ 32"
  by unfold_locales (auto simp: var_u32_length_code_cases split: if_splits)

interpretation lc64: length_coded 4 "\<lambda>n. unat (var_u64_length_code (word_of_nat n))" "2 ^ 64"
  by unfold_locales (auto simp: var_u64_length_code_cases Let_def split: if_splits)

lemma length_code_le: "unat (var_u32_length_code v) \<le> 4" "unat (var_u64_length_code w) \<le> 8"
  using var_u32_length_code_cases [of "unat v"] var_u64_length_code_cases [of "unat w"]
  by (simp_all add: Let_def)

lemma var_u32_serialize_lc:
  "var_u32_serialize v = lc_bytes 5 (unat (var_u32_length_code v)) (unat v)"
proof -
  define l where "l = unat (var_u32_length_code v)"
  have bound: "unat v div 256 ^ l < 2 ^ 5"
    using lc32.head_bound(1) [of "unat v"] unat_u32_less [of v] by (simp add: l_def)
  have "unat (ucast (drop_bit (8 * l) (ucast v :: u64)) :: u8) mod 2 ^ 5 = unat v div 256 ^ l"
    unfolding unsigned_ucast_eq unat_drop_bit_eq using bound unat_u32_less [of v]
    by (simp add: drop_bit_eq_div take_bit_eq_mod power_mult mod_mod_cancel)
  then show ?thesis
    unfolding var_u32_serialize_def Let_def lc_bytes_def mask_numerals first_byte
    by (simp add: tail_bytes_be_enc l_def)
qed

lemma var_u64_serialize_lc:
  "var_u64_serialize v = lc_bytes 4 (unat (var_u64_length_code v)) (unat v)"
proof -
  define l where "l = unat (var_u64_length_code v)"
  have bound: "unat v div 256 ^ l < 2 ^ 4"
    using lc64.head_bound(1) [of "unat v"] unat_u64_less [of v] by (simp add: l_def)
  have l8: "l \<le> 8" by (simp add: l_def length_code_le)
  have head: "unat (if 8 * l \<ge> 64 then 0 else ucast (drop_bit (8 * l) v) :: u8) mod 2 ^ 4 = unat v div 256 ^ l"
  proof (cases "l = 8")
    case True
    then show ?thesis using unat_u64_less [of v] by simp
  next
    case False
    with l8 have "\<not> 8 * l \<ge> 64" by simp
    moreover have "unat (ucast (drop_bit (8 * l) v) :: u8) mod 2 ^ 4 = unat v div 256 ^ l"
      unfolding unsigned_ucast_eq unat_drop_bit_eq using bound
      by (simp add: drop_bit_eq_div take_bit_eq_mod power_mult mod_mod_cancel)
    ultimately show ?thesis by simp
  qed
  have "(if 8 * l \<ge> 64 then 0 else ucast (drop_bit (8 * l) v) AND 0x0F) =
        (if 8 * l \<ge> 64 then 0 else ucast (drop_bit (8 * l) v) :: u8) AND mask 4"
    by (simp add: mask_numerals)
  then have "push_bit 4 (var_u64_length_code v) OR
               (if 8 * l \<ge> 64 then 0 else ucast (drop_bit (8 * l) v) AND 0x0F) =
             lc_head 4 l (unat v div 256 ^ l)"
    unfolding l_def by (simp only: first_byte head [unfolded l_def])
  then show ?thesis
    unfolding var_u64_serialize_def Let_def lc_bytes_def l_def
    by (simp add: tail_bytes_be_enc split: if_splits)
qed

lemma lc_head_decode:
  assumes "l * 2 ^ d + h < 256" and "h < 2 ^ d"
  shows "unat (drop_bit d (lc_head d l h)) = l" and "(ucast (lc_head d l h AND mask d) :: u64) = word_of_nat h"
proof -
  show "unat (drop_bit d (lc_head d l h)) = l"
    unfolding unat_drop_bit_eq unat_lc_head [OF assms(1)] using assms(2) by (simp add: drop_bit_eq_div)
  have "unat (lc_head d l h AND mask d) = h"
    unfolding take_bit_eq_mask [symmetric] unsigned_take_bit_eq
    using assms by (simp add: unat_lc_head take_bit_eq_mod)
  then show "(ucast (lc_head d l h AND mask d) :: u64) = word_of_nat h"
    by (metis of_nat_unat)
qed

lemma read_tail_lc: "read_tail (word_of_nat (n div 256 ^ l)) (be_enc l n) = word_of_nat n"
  unfolding read_tail_val length_be_enc be_val_be_enc div_mult_mod_eq ..

lemma var_u32_round_trip [codec_simps]:
  "var_u32_deserialize (var_u32_serialize v @ rest) = Ok (v, rest)"
proof -
  define l where "l = unat (var_u32_length_code v)"
  have lim: "unat v < 2 ^ 32" using unat_u32_less [of v] by simp
  have h: "l * 2 ^ 5 + unat v div 256 ^ l < 256" "unat v div 256 ^ l < 2 ^ 5" "l \<le> 4"
    using lc32.head_bound [OF lim] by (simp_all add: l_def length_code_le)
  note dec = lc_head_decode [OF h(1,2)]
  have "\<not> drop_bit 5 (lc_head 5 l (unat v div 256 ^ l)) > var_u32_MAX_LEN_CODE"
    using h(3) dec(1) by (simp add: word_less_nat_alt var_u32_MAX_LEN_CODE_def)
  moreover have "\<not> (word_of_nat (unat v) :: u64) > 0xFFFFFFFF"
    using lim by (simp add: word_less_nat_alt unat_of_nat del: of_nat_unat)
  moreover have "(ucast (word_of_nat (unat v) :: u64) :: u32) = v"
    using lim by (simp add: word_unat_eq_iff unsigned_ucast_eq take_bit_eq_mod unat_of_nat del: of_nat_unat)
  ultimately show ?thesis
    unfolding var_u32_serialize_lc l_def [symmetric] lc_bytes_def var_u32_deserialize_def mask_numerals
    by (simp add: Let_def dec read_tail_lc del: of_nat_unat)
qed

lemma var_u64_round_trip [codec_simps]:
  "var_u64_deserialize (var_u64_serialize v @ rest) = Ok (v, rest)"
proof -
  define l where "l = unat (var_u64_length_code v)"
  have lim: "unat v < 2 ^ 64" using unat_u64_less [of v] by simp
  have h: "l * 2 ^ 4 + unat v div 256 ^ l < 256" "unat v div 256 ^ l < 2 ^ 4" "l \<le> 8"
    using lc64.head_bound [OF lim] by (simp_all add: l_def length_code_le)
  note dec = lc_head_decode [OF h(1,2)]
  have "\<not> drop_bit 4 (lc_head 4 l (unat v div 256 ^ l)) > var_u64_MAX_LEN_CODE"
    using h(3) dec(1) by (simp add: word_less_nat_alt var_u64_MAX_LEN_CODE_def)
  moreover have "word_of_nat (unat v) = v" by simp
  ultimately show ?thesis
    unfolding var_u64_serialize_lc l_def [symmetric] lc_bytes_def var_u64_deserialize_def mask_numerals
    by (simp add: Let_def dec read_tail_lc del: of_nat_unat)
qed

interpretation var_u32: front_codec var_u32_serialize var_u32_deserialize "\<lambda>_. True"
  by unfold_locales (rule var_u32_round_trip)

interpretation var_u64: front_codec var_u64_serialize var_u64_deserialize "\<lambda>_. True"
  by unfold_locales (rule var_u64_round_trip)

lemma var_serialize_less:
  "a < b \<Longrightarrow> var_u32_serialize a @ s < var_u32_serialize b @ t"
  "c < d \<Longrightarrow> var_u64_serialize c @ s < var_u64_serialize d @ t"
  using lc32.lc_less [of "unat a" "unat b" s t] unat_u32_less [of b]
    lc64.lc_less [of "unat c" "unat d" s t] unat_u64_less [of d]
  by (simp_all add: var_u32_serialize_lc var_u64_serialize_lc word_less_nat_alt)

interpretation var_u32_key: key_field var_u32_serialize
  by unfold_locales (rule var_serialize_less)

interpretation var_u64_key: key_field var_u64_serialize
  by unfold_locales (rule var_serialize_less)

lemma length_var_serialize: "length (var_u32_serialize v) \<le> 5" "length (var_u64_serialize w) \<le> 9"
  using length_code_le(1) [of v] length_code_le(2) [of w]
  by (simp_all add: var_u32_serialize_lc var_u64_serialize_lc lc_bytes_def)

section \<open>Properties\<close>

text \<open>
  C28. Variable-length \<open>u32\<close>: reading an encoded value returns it with the rest of the buffer, the
  encoding takes at most five bytes, and two different values compare as their encodings do,
  whatever follows them.
\<close>

theorem var_u32_codec:
  "var_u32_deserialize (var_u32_serialize v @ rest) = Ok (v, rest)
   \<and> length (var_u32_serialize v) \<le> 5
   \<and> (v \<noteq> w \<longrightarrow> (var_u32_serialize v @ s < var_u32_serialize w @ t \<longleftrightarrow> v < w))"
  by (simp add: var_u32_round_trip length_var_serialize var_u32_key.fld_less_iff)

theorem var_u32_codec_witness:
  "var_u32_serialize 31 @ [7] < var_u32_serialize 8192 @ [0]"
  using var_u32_codec [of 31 "[]" 8192 "[7]" "[0]"] by simp

text \<open>
  C29. Variable-length \<open>u64\<close>: the same for the four-bit length code, with at most nine bytes; the top
  of the range, where the shift of the first byte would be 64, is included.
\<close>

theorem var_u64_codec:
  "var_u64_deserialize (var_u64_serialize v @ rest) = Ok (v, rest)
   \<and> length (var_u64_serialize v) \<le> 9
   \<and> (v \<noteq> w \<longrightarrow> (var_u64_serialize v @ s < var_u64_serialize w @ t \<longleftrightarrow> v < w))"
  by (simp add: var_u64_round_trip length_var_serialize var_u64_key.fld_less_iff)

theorem var_u64_codec_witness:
  "var_u64_serialize 15 @ [7] < var_u64_serialize u64_max @ [0]"
  using var_u64_codec [of 15 "[]" u64_max "[7]" "[0]"] by (simp add: word_less_nat_alt unat_max_word)

end
