(* ===== verification/Log_Serde.thy ===== *)
theory Log_Serde
  imports Terminated_Bytes Varint Storage_Api
begin

text \<open>
  Keys and values of the log (\<open>log/src/serde.rs\<close>, \<open>log/src/range.rs\<close>, and the types of
  \<open>log/src/model.rs\<close>, \<open>log/src/error.rs\<close> and \<open>log/src/segment.rs\<close> they mention).  Entry keys sort by
  segment, then user key, then sequence number, and the scan range of a segment, key and sequence
  range selects exactly the entries it names.
\<close>

section \<open>Definitions\<close>

datatype log_error =
    LogStorage string
  | LogEncoding string "int list"
  | LogInvalidInput string
  | LogInternal string

primrec log_error_from_deserialize :: "deserialize_error \<Rightarrow> log_error" where
  "log_error_from_deserialize (DeserializeError m args) = LogEncoding m args"

primrec log_error_from_storage :: "storage_error \<Rightarrow> log_error" where
  "log_error_from_storage (Storage msg) = LogStorage msg"
| "log_error_from_storage (Internal msg) = LogInternal msg"

type_synonym segment_id = u32

definition log_KEY_VERSION :: u8 where "log_KEY_VERSION = 0x01"

definition log_SUBSYSTEM :: u8 where "log_SUBSYSTEM = 0x03"

definition SEQ_BLOCK_KEY :: bytes where "SEQ_BLOCK_KEY = [log_SUBSYSTEM, log_KEY_VERSION, 0x20]"

datatype record_type = LogEntryType | SeqBlockType | SegmentMetaType | ListingEntryType

primrec record_type_id :: "record_type \<Rightarrow> u8" where
  "record_type_id LogEntryType = 0x01"
| "record_type_id SeqBlockType = 0x02"
| "record_type_id SegmentMetaType = 0x03"
| "record_type_id ListingEntryType = 0x04"

definition record_type_from_id :: "u8 \<Rightarrow> (record_type, log_error) result" where
  "record_type_from_id i =
     (if i = 0x01 then Ok LogEntryType
      else if i = 0x02 then Ok SeqBlockType
      else if i = 0x03 then Ok SegmentMetaType
      else if i = 0x04 then Ok ListingEntryType
      else Err (LogEncoding ''invalid record type: 0x{:02x}'' [uint i]))"

definition record_type_from_prefix :: "key_prefix \<Rightarrow> (record_type, log_error) result" where
  "record_type_from_prefix p =
     (if kp_subsystem p \<noteq> log_SUBSYSTEM
      then Err (LogEncoding ''invalid subsystem: expected 0x{:02x}, got 0x{:02x}''
                  [uint log_SUBSYSTEM, uint (kp_subsystem p)])
      else record_type_from_id (drop_bit 4 (kp_tag p AND 0xF0)))"

text \<open>\<open>tag\<close> and \<open>prefix\<close> pass constants that satisfy the assertions of the two constructors.\<close>

definition record_type_tag :: "record_type \<Rightarrow> record_tag option" where
  "record_type_tag t = record_tag_new (record_type_id t) 0"

definition record_type_prefix :: "record_type \<Rightarrow> key_prefix option" where
  "record_type_prefix t =
     Option.bind (record_type_tag t) (\<lambda>tag. key_prefix_new log_SUBSYSTEM log_KEY_VERSION (as_byte tag))"

definition write_prefix :: "record_type \<Rightarrow> bytes \<Rightarrow> bytes" where
  "write_prefix t buf = key_prefix_write_to (the (record_type_prefix t)) buf"

text \<open>The checks every key decoder starts with.\<close>

definition check_record_type :: "record_type \<Rightarrow> string \<Rightarrow> bytes \<Rightarrow> (unit, log_error) result" where
  "check_record_type expected msg data =
     result_bind (result_map_err log_error_from_deserialize
                    (from_bytes_with_validation data log_SUBSYSTEM log_KEY_VERSION)) (\<lambda>p.
     result_bind (record_type_from_prefix p) (\<lambda>rt.
       if rt \<noteq> expected then Err (LogEncoding msg [uint (record_type_id rt)]) else Ok ()))"

subsection \<open>Log entries\<close>

record segment_meta =
  start_seq :: u64
  start_time_ms :: i64

record log_segment =
  seg_id :: segment_id
  seg_meta :: segment_meta

record log_entry_key =
  lek_segment_id :: segment_id
  lek_key :: bytes
  lek_sequence :: u64

definition log_entry_key_new :: "segment_id \<Rightarrow> bytes \<Rightarrow> u64 \<Rightarrow> log_entry_key" where
  "log_entry_key_new s k q = \<lparr>lek_segment_id = s, lek_key = k, lek_sequence = q\<rparr>"

definition log_entry_key_serialize :: "log_entry_key \<Rightarrow> u64 \<Rightarrow> bytes" where
  "log_entry_key_serialize e segment_start_seq =
     (let relative_seq = lek_sequence e - segment_start_seq in
      write_prefix LogEntryType [] @ put_u32 (lek_segment_id e) @ terminated_serialize (lek_key e)
        @ var_u64_serialize relative_seq)"

definition log_entry_key_deserialize :: "bytes \<Rightarrow> u64 \<Rightarrow> (log_entry_key, log_error) result" where
  "log_entry_key_deserialize data segment_start_seq =
     result_bind (check_record_type LogEntryType ''invalid record type: expected LogEntry, got {:?}'' data) (\<lambda>_.
     if length data < 7 then Err (LogEncoding ''buffer too short for log entry key'' [])
     else
       let sid = get_u32 (take 4 (drop 3 data)) in
       result_bind (result_map_err log_error_from_deserialize (terminated_deserialize (drop 7 data))) (\<lambda>(key, buf).
       result_bind (result_map_err log_error_from_deserialize (var_u64_deserialize buf)) (\<lambda>(relative_seq, _).
         Ok \<lparr>lek_segment_id = sid, lek_key = key, lek_sequence = segment_start_seq + relative_seq\<rparr>)))"

definition build_scan_key :: "log_segment \<Rightarrow> bytes \<Rightarrow> u64 \<Rightarrow> bytes" where
  "build_scan_key segment key seq =
     (let relative_seq = saturating_sub seq (start_seq (seg_meta segment)) in
      write_prefix LogEntryType [] @ put_u32 (seg_id segment) @ terminated_serialize key
        @ var_u64_serialize relative_seq)"

text \<open>A Rust \<open>Range\<close>: start inclusive, end exclusive.\<close>

record 'a half_open =
  ho_start :: 'a
  ho_end :: 'a

definition log_entry_scan_range :: "log_segment \<Rightarrow> bytes \<Rightarrow> u64 half_open \<Rightarrow> bytes_range" where
  "log_entry_scan_range segment key seq_range =
     bytes_range_new (Included (build_scan_key segment key (ho_start seq_range)))
       (Excluded (build_scan_key segment key (ho_end seq_range)))"

subsection \<open>Segment metadata\<close>

definition segment_meta_key_serialize :: "segment_id \<Rightarrow> bytes" where
  "segment_meta_key_serialize sid = write_prefix SegmentMetaType [] @ put_u32 sid"

definition segment_meta_key_deserialize :: "bytes \<Rightarrow> (segment_id, log_error) result" where
  "segment_meta_key_deserialize data =
     result_bind (check_record_type SegmentMetaType ''invalid record type: expected SegmentMeta, got {:?}'' data) (\<lambda>_.
     if length data < 7 then Err (LogEncoding ''buffer too short for SegmentMeta key'' [])
     else Ok (get_u32 (take 4 (drop 3 data))))"

definition segment_meta_scan_range :: "segment_id half_open \<Rightarrow> bytes_range" where
  "segment_meta_scan_range rg =
     bytes_range_new (Included (segment_meta_key_serialize (ho_start rg)))
       (Excluded (segment_meta_key_serialize (ho_end rg)))"

definition segment_meta_serialize :: "segment_meta \<Rightarrow> bytes" where
  "segment_meta_serialize m = put_u64 (start_seq m) @ put_u64 (start_time_ms m)"

definition segment_meta_deserialize :: "bytes \<Rightarrow> (segment_meta, log_error) result" where
  "segment_meta_deserialize data =
     (if length data < 16
      then Err (LogEncoding ''buffer too short for SegmentMeta value: need 16 bytes, got {}'' [int (length data)])
      else Ok \<lparr>start_seq = get_u64 (take 8 data), start_time_ms = get_u64 (take 8 (drop 8 data))\<rparr>)"

subsection \<open>Listing entries\<close>

record listing_entry_key =
  lik_segment_id :: segment_id
  lik_key :: bytes

definition listing_entry_key_serialize :: "listing_entry_key \<Rightarrow> bytes" where
  "listing_entry_key_serialize l =
     write_prefix ListingEntryType [] @ put_u32 (lik_segment_id l) @ lik_key l"

definition listing_entry_key_deserialize :: "bytes \<Rightarrow> (listing_entry_key, log_error) result" where
  "listing_entry_key_deserialize data =
     result_bind (check_record_type ListingEntryType ''invalid record type: expected ListingEntry, got {:?}'' data) (\<lambda>_.
     if length data < 7 then Err (LogEncoding ''buffer too short for listing entry key'' [])
     else Ok \<lparr>lik_segment_id = get_u32 (take 4 (drop 3 data)), lik_key = drop 7 data\<rparr>)"

definition segment_prefix :: "segment_id \<Rightarrow> bytes" where
  "segment_prefix sid = write_prefix ListingEntryType [] @ put_u32 sid"

definition listing_scan_range :: "segment_id half_open \<Rightarrow> bytes_range" where
  "listing_scan_range rg =
     bytes_range_new (Included (segment_prefix (ho_start rg))) (Excluded (segment_prefix (ho_end rg)))"

definition listing_entry_value_serialize :: bytes where
  "listing_entry_value_serialize = []"

definition listing_entry_value_deserialize :: "bytes \<Rightarrow> (unit, log_error) result" where
  "listing_entry_value_deserialize data =
     (if data \<noteq> [] then Err (LogEncoding ''listing entry value should be empty, got {} bytes'' [int (length data)])
      else Ok ())"

subsection \<open>Ranges of the public API\<close>

definition normalize_sequence :: "u64 bound \<Rightarrow> u64 bound \<Rightarrow> u64 half_open" where
  "normalize_sequence s e =
     \<lparr>ho_start = (case s of Included s \<Rightarrow> s | Excluded s \<Rightarrow> saturating_add s 1 | Unbounded \<Rightarrow> 0),
      ho_end = (case e of Included e \<Rightarrow> saturating_add e 1 | Excluded e \<Rightarrow> e | Unbounded \<Rightarrow> u64_max)\<rparr>"

definition normalize_segment_id :: "segment_id bound \<Rightarrow> segment_id bound \<Rightarrow> segment_id half_open" where
  "normalize_segment_id s e =
     \<lparr>ho_start = (case s of Included s \<Rightarrow> s | Excluded s \<Rightarrow> saturating_add s 1 | Unbounded \<Rightarrow> 0),
      ho_end = (case e of Included e \<Rightarrow> saturating_add e 1 | Excluded e \<Rightarrow> e | Unbounded \<Rightarrow> u32_max)\<rparr>"

section \<open>Prefixes\<close>

lemma record_type_prefix_Some:
  "record_type_prefix t = Some \<lparr>kp_subsystem = 3, kp_version = 1, kp_tag = record_type_id t * 16\<rparr>"
  by (cases t)
     (simp_all add: record_type_prefix_def record_type_tag_def record_tag_new_def key_prefix_new_def
       log_SUBSYSTEM_def log_KEY_VERSION_def push_bit_eq_mult)

lemma write_prefix_bytes: "write_prefix t [] = [3, 1, record_type_id t * 16]"
  by (simp add: write_prefix_def record_type_prefix_Some key_prefix_write_to_def)

lemma check_record_type_prefix [codec_simps]:
  "check_record_type t msg (write_prefix t [] @ rest) = Ok ()"
  by (cases t)
     (simp_all add: check_record_type_def write_prefix_bytes record_type_from_prefix_def
       record_type_from_id_def from_bytes_with_validation_def key_prefix_from_bytes_def
       validate_subsystem_def validate_key_version_def validate_record_tag_def
       log_SUBSYSTEM_def log_KEY_VERSION_def)

lemma take_drop_prefix [simp]:
  "drop 3 (write_prefix t [] @ xs) = xs" "drop 7 (write_prefix t [] @ put_u32 w @ xs) = xs"
  "length (write_prefix t []) = 3" "take 4 (put_u32 w @ xs) = put_u32 w" "take 4 (put_u32 w) = put_u32 w"
  by (simp_all add: write_prefix_bytes)

lemma write_prefix_eq_iff: "write_prefix t [] @ xs = write_prefix u [] @ ys \<longleftrightarrow> t = u \<and> xs = ys"
  by (cases t; cases u; simp add: write_prefix_bytes)

section \<open>Round trips\<close>

lemma log_entry_key_round_trip [codec_simps]:
  "log_entry_key_deserialize (log_entry_key_serialize e st) st = Ok e"
  using check_record_type_prefix [of LogEntryType _ "put_u32 (lek_segment_id e) @ terminated_serialize (lek_key e)
      @ var_u64_serialize (lek_sequence e - st)"] var_u64_round_trip [of "lek_sequence e - st" "[]"]
  by (simp add: log_entry_key_deserialize_def log_entry_key_serialize_def Let_def terminated_round_trip
      var_u64_round_trip)

lemma segment_meta_key_round_trip [codec_simps]:
  "segment_meta_key_deserialize (segment_meta_key_serialize sid) = Ok sid"
  using check_record_type_prefix [of SegmentMetaType _ "put_u32 sid"]
  by (simp add: segment_meta_key_deserialize_def segment_meta_key_serialize_def)

lemma segment_meta_round_trip [codec_simps]: "segment_meta_deserialize (segment_meta_serialize m) = Ok m"
  by (simp add: segment_meta_deserialize_def segment_meta_serialize_def)

lemma listing_entry_key_round_trip [codec_simps]:
  "listing_entry_key_deserialize (listing_entry_key_serialize l) = Ok l"
  using check_record_type_prefix [of ListingEntryType _ "put_u32 (lik_segment_id l) @ lik_key l"]
  by (simp add: listing_entry_key_deserialize_def listing_entry_key_serialize_def)

section \<open>Order and ranges\<close>

text \<open>Two keys of one record type with the prefix stripped; keys of different types never meet.\<close>

lemma prefixed_range_contains:
  "range_contains (bytes_range_new (Included (write_prefix t [] @ a)) (Excluded (write_prefix t [] @ b)))
     (write_prefix u [] @ k) \<longleftrightarrow> u = t \<and> a \<le> k \<and> k < b"
  by (cases t; cases u; simp add: range_defs write_prefix_bytes; fail)

lemmas key_order_simps = u32_field.fld_less_iff u32_field.fld_le_iff terminated_key.fld_less_iff
  terminated_key.fld_le_iff var_u64_key.fld_mono_iff var_u64_key.fld_mono_le_iff

lemma log_entry_key_less_iff:
  "log_entry_key_serialize a s < log_entry_key_serialize b t \<longleftrightarrow>
     lek_segment_id a < lek_segment_id b
     \<or> lek_segment_id a = lek_segment_id b \<and>
         (lek_key a < lek_key b \<or> lek_key a = lek_key b \<and> lek_sequence a - s < lek_sequence b - t)"
  by (simp add: log_entry_key_serialize_def Let_def key_order_simps)

lemma log_entry_scan_range_contains:
  "range_contains (log_entry_scan_range seg key rg) (log_entry_key_serialize e st) \<longleftrightarrow>
     lek_segment_id e = seg_id seg \<and> lek_key e = key
     \<and> saturating_sub (ho_start rg) (start_seq (seg_meta seg)) \<le> lek_sequence e - st
     \<and> lek_sequence e - st < saturating_sub (ho_end rg) (start_seq (seg_meta seg))"
  unfolding log_entry_scan_range_def build_scan_key_def log_entry_key_serialize_def Let_def
    prefixed_range_contains
  by (auto simp: key_order_simps)

lemma log_entry_scan_range_other:
  "t \<noteq> LogEntryType \<Longrightarrow> \<not> range_contains (log_entry_scan_range seg key rg) (write_prefix t [] @ k)"
  unfolding log_entry_scan_range_def build_scan_key_def Let_def prefixed_range_contains by simp

lemma segment_meta_scan_range_contains:
  "range_contains (segment_meta_scan_range rg) (segment_meta_key_serialize sid) \<longleftrightarrow>
     ho_start rg \<le> sid \<and> sid < ho_end rg"
  unfolding segment_meta_scan_range_def segment_meta_key_serialize_def prefixed_range_contains
  by (simp add: u32_field.fld_mono_iff u32_field.fld_mono_le_iff)

lemma segment_meta_scan_range_other:
  "t \<noteq> SegmentMetaType \<Longrightarrow> \<not> range_contains (segment_meta_scan_range rg) (write_prefix t [] @ k)"
  unfolding segment_meta_scan_range_def segment_meta_key_serialize_def prefixed_range_contains by simp

lemma listing_scan_range_contains:
  "range_contains (listing_scan_range rg) (listing_entry_key_serialize l) \<longleftrightarrow>
     ho_start rg \<le> lik_segment_id l \<and> lik_segment_id l < ho_end rg"
  using u32_field.fld_le_iff [of "ho_start rg" "[]" "lik_segment_id l" "lik_key l"]
    u32_field.fld_less_iff [of "lik_segment_id l" "lik_key l" "ho_end rg" "[]"]
  unfolding listing_scan_range_def segment_prefix_def listing_entry_key_serialize_def prefixed_range_contains
  by auto

lemma listing_scan_range_other:
  "t \<noteq> ListingEntryType \<Longrightarrow> \<not> range_contains (listing_scan_range rg) (write_prefix t [] @ k)"
  unfolding listing_scan_range_def segment_prefix_def prefixed_range_contains by simp

text \<open>Bounds relative to the start of the segment are bounds on the sequence number.\<close>

lemma relative_bounds:
  fixes st q :: u64
  assumes "st \<le> q"
  shows "saturating_sub a st \<le> q - st \<longleftrightarrow> a \<le> q" and "q - st < saturating_sub b st \<longleftrightarrow> q < b"
  using assms by (auto simp: word_le_nat_alt word_less_nat_alt unat_sub)

section \<open>Properties\<close>

text \<open>
  C35. Log entry keys: decoding a stored key with the start of its segment gives the entry back, and
  stored keys sort by segment, then user key, then position in the segment.
\<close>

theorem log_entry_keys:
  "log_entry_key_deserialize (log_entry_key_serialize e st) st = Ok e
   \<and> (log_entry_key_serialize e st < log_entry_key_serialize f st' \<longleftrightarrow>
        lek_segment_id e < lek_segment_id f
        \<or> lek_segment_id e = lek_segment_id f \<and>
            (lek_key e < lek_key f
             \<or> lek_key e = lek_key f \<and> lek_sequence e - st < lek_sequence f - st'))"
  by (simp add: log_entry_key_round_trip log_entry_key_less_iff)

text \<open>
  The storage range that a scan uses for a segment, a key and a sequence range contains an
  entry of the log exactly when the entry is in that segment, has that key and its sequence number
  lies in the range; it contains no record of another type.
\<close>

theorem log_entry_scan_range_exact:
  assumes "lek_segment_id e = seg_id seg \<Longrightarrow> st = start_seq (seg_meta seg)" and "st \<le> lek_sequence e"
  shows "(range_contains (log_entry_scan_range seg key rg) (log_entry_key_serialize e st) \<longleftrightarrow>
       lek_segment_id e = seg_id seg \<and> lek_key e = key
       \<and> ho_start rg \<le> lek_sequence e \<and> lek_sequence e < ho_end rg)
    \<and> (t \<noteq> LogEntryType \<longrightarrow> \<not> range_contains (log_entry_scan_range seg key rg) (write_prefix t [] @ k))"
  using assms relative_bounds [OF assms(2), of "ho_start rg"] relative_bounds [OF assms(2), of "ho_end rg"]
  by (auto simp: log_entry_scan_range_contains log_entry_scan_range_other)

theorem log_entry_scan_range_exact_witness:
  "range_contains (log_entry_scan_range \<lparr>seg_id = 2, seg_meta = \<lparr>start_seq = 100, start_time_ms = 0\<rparr>\<rparr> [7]
       \<lparr>ho_start = 50, ho_end = 151\<rparr>)
     (log_entry_key_serialize (log_entry_key_new 2 [7] 150) 100)"
  using log_entry_scan_range_exact [of "log_entry_key_new 2 [7] 150"
      "\<lparr>seg_id = 2, seg_meta = \<lparr>start_seq = 100, start_time_ms = 0\<rparr>\<rparr>" 100 "[7]"
      "\<lparr>ho_start = 50, ho_end = 151\<rparr>"]
  by (simp add: log_entry_key_new_def)

end
