(* ===== verification/Log_Segment.thy ===== *)
theory Log_Segment
  imports Log_Serde
begin

text \<open>
  Segments of the log: the segment cache (\<open>log/src/segment.rs\<close>), the listing cache
  (\<open>log/src/listing.rs\<close>), the view tracker (\<open>log/src/view_tracker.rs\<close>) and the log's reads of a
  storage (\<open>log/src/storage.rs\<close>).  A \<open>StorageRead\<close> is its scan, a function from ranges to the results
  of the iterator.
\<close>

section \<open>Definitions\<close>

subsection \<open>Reading a storage\<close>

type_synonym scanner = "bytes_range \<Rightarrow> storage_record storage_result list storage_result"

record log_entry =
  le_key :: bytes
  le_sequence :: u64
  le_value :: bytes

definition log_map_err :: "'a storage_result \<Rightarrow> ('a, log_error) result" where
  "log_map_err = result_map_err (\<lambda>e. LogStorage (storage_error_string e))"

definition log_from_err :: "'a storage_result \<Rightarrow> ('a, log_error) result" where
  "log_from_err = result_map_err log_error_from_storage"

primrec list_keys_loop :: "unit btree \<Rightarrow> storage_record storage_result list \<Rightarrow> (unit btree, log_error) result" where
  "list_keys_loop keys [] = Ok keys"
| "list_keys_loop keys (r # iter) =
     result_bind (log_map_err r) (\<lambda>record.
     result_bind (listing_entry_key_deserialize (rec_key record)) (\<lambda>entry_key.
       list_keys_loop (btree_insert (lik_key entry_key) () keys) iter))"

definition storage_list_keys :: "scanner \<Rightarrow> segment_id half_open \<Rightarrow> (unit btree, log_error) result" where
  "storage_list_keys scan segment_range =
     (if ho_start segment_range \<ge> ho_end segment_range then Ok []
      else result_bind (log_map_err (scan (listing_scan_range segment_range))) (list_keys_loop []))"

primrec scan_segments_loop ::
    "log_segment list \<Rightarrow> storage_record storage_result list \<Rightarrow> (log_segment list, log_error) result" where
  "scan_segments_loop segments [] = Ok segments"
| "scan_segments_loop segments (r # iter) =
     result_bind (log_from_err r) (\<lambda>record.
     result_bind (segment_meta_key_deserialize (rec_key record)) (\<lambda>sid.
     result_bind (segment_meta_deserialize (rec_value record)) (\<lambda>meta.
       scan_segments_loop (segments @ [\<lparr>seg_id = sid, seg_meta = meta\<rparr>]) iter)))"

definition scan_segments :: "scanner \<Rightarrow> segment_id half_open \<Rightarrow> (log_segment list, log_error) result" where
  "scan_segments scan rg =
     result_bind (log_from_err (scan (segment_meta_scan_range rg))) (scan_segments_loop [])"

record segment_iterator =
  si_inner :: "storage_record storage_result list"
  si_seq_range :: "u64 half_open"
  si_segment_start_seq :: u64

definition scan_entries ::
    "scanner \<Rightarrow> log_segment \<Rightarrow> bytes \<Rightarrow> u64 half_open \<Rightarrow> (segment_iterator, log_error) result" where
  "scan_entries scan segment key seq_range =
     result_bind (log_from_err (scan (log_entry_scan_range segment key seq_range))) (\<lambda>inner.
       Ok \<lparr>si_inner = inner, si_seq_range = seq_range,
           si_segment_start_seq = start_seq (seg_meta segment)\<rparr>)"

text \<open>The loop of \<open>SegmentIterator::next\<close>, over what is left of the inner iterator.\<close>

primrec segment_next_loop ::
    "u64 half_open \<Rightarrow> u64 \<Rightarrow> storage_record storage_result list
     \<Rightarrow> storage_record storage_result list \<times> (log_entry option, log_error) result" where
  "segment_next_loop rg st [] = ([], Ok None)"
| "segment_next_loop rg st (r # inner) =
     (case log_map_err r of
        Err e \<Rightarrow> (inner, Err e)
      | Panic \<Rightarrow> (inner, Panic)
      | Ok record \<Rightarrow>
          (case log_entry_key_deserialize (rec_key record) st of
             Err e \<Rightarrow> (inner, Err e)
           | Panic \<Rightarrow> (inner, Panic)
           | Ok entry_key \<Rightarrow>
               if lek_sequence entry_key < ho_start rg then segment_next_loop rg st inner
               else if lek_sequence entry_key \<ge> ho_end rg then (inner, Ok None)
               else (inner, Ok (Some \<lparr>le_key = lek_key entry_key, le_sequence = lek_sequence entry_key,
                                      le_value = rec_value record\<rparr>))))"

definition segment_iterator_next :: "segment_iterator \<Rightarrow> segment_iterator \<times> (log_entry option, log_error) result" where
  "segment_iterator_next it =
     (let (inner, x) = segment_next_loop (si_seq_range it) (si_segment_start_seq it) (si_inner it)
      in (it\<lparr>si_inner := inner\<rparr>, x))"

subsection \<open>The segment cache\<close>

text \<open>The seal interval in milliseconds.\<close>

record segment_config =
  seal_interval :: "nat option"

record segment_cache =
  sc_segments :: "(u64, log_segment) omap"
  sc_config :: segment_config

record segment_assignment =
  sa_segment :: log_segment
  sa_is_new :: bool

definition load_segments :: "log_segment list \<Rightarrow> (u64, log_segment) omap \<Rightarrow> (u64, log_segment) omap" where
  "load_segments loaded segments =
     fold (\<lambda>segment m. btree_insert (start_seq (seg_meta segment)) segment m) loaded segments"

definition segment_cache_open :: "scanner \<Rightarrow> segment_config \<Rightarrow> (segment_cache, log_error) result" where
  "segment_cache_open scan config =
     result_bind (scan_segments scan \<lparr>ho_start = 0, ho_end = u32_max\<rparr>) (\<lambda>loaded.
       Ok \<lparr>sc_segments = load_segments loaded [], sc_config = config\<rparr>)"

definition latest :: "segment_cache \<Rightarrow> log_segment option" where
  "latest c = (case rev (sc_segments c) of [] \<Rightarrow> None | (_, s) # _ \<Rightarrow> Some s)"

definition all_segments :: "segment_cache \<Rightarrow> log_segment list" where
  "all_segments c = map snd (sc_segments c)"

definition find_covering :: "segment_cache \<Rightarrow> u64 half_open \<Rightarrow> log_segment list" where
  "find_covering c rg =
     (if ho_start rg \<ge> ho_end rg then []
      else
        (case rev (filter (\<lambda>(k, _). k \<le> ho_start rg) (sc_segments c)) of
           [] \<Rightarrow> []
         | (_, first_seg) # _ \<Rightarrow> [first_seg])
        @ map snd (filter (\<lambda>(k, _). saturating_add (ho_start rg) 1 \<le> k \<and> k < ho_end rg) (sc_segments c)))"

definition segment_cache_insert :: "segment_cache \<Rightarrow> log_segment \<Rightarrow> segment_cache" where
  "segment_cache_insert c segment =
     c\<lparr>sc_segments := btree_insert (start_seq (seg_meta segment)) segment (sc_segments c)\<rparr>"

definition segment_cache_refresh ::
    "segment_cache \<Rightarrow> scanner \<Rightarrow> segment_id option \<Rightarrow> (segment_cache, log_error) result" where
  "segment_cache_refresh c scan after_segment_id =
     result_bind
       (case after_segment_id of
          Some i \<Rightarrow> scan_segments scan \<lparr>ho_start = saturating_add i 1, ho_end = u32_max\<rparr>
        | None \<Rightarrow> scan_segments scan \<lparr>ho_start = 0, ho_end = u32_max\<rparr>)
       (\<lambda>loaded.
          let segments = (if after_segment_id = None then [] else sc_segments c)
          in Ok (c\<lparr>sc_segments := load_segments loaded segments\<rparr>))"

definition should_roll :: "nat option \<Rightarrow> i64 \<Rightarrow> log_segment option \<Rightarrow> bool" where
  "should_roll interval current_time_ms latest_segment =
     (case latest_segment of
        None \<Rightarrow> True
      | Some l \<Rightarrow>
          (case interval of
             None \<Rightarrow> False
           | Some ms \<Rightarrow> sint (current_time_ms - start_time_ms (seg_meta l)) \<ge> sint (word_of_nat ms :: i64)))"

text \<open>\<open>assign_segment\<close> returns the cache, the records with what it appended, and the assignment;
  \<^const>\<open>None\<close> would be the failed \<open>unwrap\<close>.\<close>

definition assign_segment ::
    "segment_cache \<Rightarrow> i64 \<Rightarrow> u64 \<Rightarrow> put_record_op list \<Rightarrow> bool
     \<Rightarrow> (segment_cache \<times> put_record_op list \<times> segment_assignment) option" where
  "assign_segment c current_time_ms sseq records force_seal =
     (let latest_segment = latest c;
          needs_new_segment = force_seal \<or> should_roll (seal_interval (sc_config c)) current_time_ms latest_segment
      in
      if needs_new_segment then
        let sid = (case latest_segment of Some s \<Rightarrow> seg_id s + 1 | None \<Rightarrow> 0);
            meta = \<lparr>start_seq = sseq, start_time_ms = current_time_ms\<rparr>;
            records' = records @ [put_record_op_new_with_options
              (record_new (segment_meta_key_serialize sid) (segment_meta_serialize meta)) \<lparr>put_ttl = NoExpiry\<rparr>];
            segment = \<lparr>seg_id = sid, seg_meta = meta\<rparr>
        in Some (segment_cache_insert c segment, records', \<lparr>sa_segment = segment, sa_is_new = True\<rparr>)
      else map_option (\<lambda>s. (c, records, \<lparr>sa_segment = s, sa_is_new = False\<rparr>)) latest_segment)"

subsection \<open>The listing cache\<close>

record listing_cache =
  lc_current_segment_id :: "segment_id option"
  lc_keys :: "unit btree"

definition listing_cache_new :: listing_cache where
  "listing_cache_new = \<lparr>lc_current_segment_id = None, lc_keys = []\<rparr>"

primrec assign_keys_loop ::
    "segment_id \<Rightarrow> bytes list \<Rightarrow> unit btree \<Rightarrow> put_record_op list \<Rightarrow> bytes list
     \<Rightarrow> unit btree \<times> put_record_op list \<times> bytes list" where
  "assign_keys_loop sid [] seen records new_keys = (seen, records, new_keys)"
| "assign_keys_loop sid (key # keys) seen records new_keys =
     (if btree_get seen key \<noteq> None then assign_keys_loop sid keys seen records new_keys
      else
        assign_keys_loop sid keys (btree_insert key () seen)
          (records @ [put_record_op_new_with_options
             (record_new (listing_entry_key_serialize \<lparr>lik_segment_id = sid, lik_key = key\<rparr>)
                listing_entry_value_serialize) \<lparr>put_ttl = NoExpiry\<rparr>])
          (new_keys @ [key]))"

definition assign_new_keys ::
    "listing_cache \<Rightarrow> segment_id \<Rightarrow> bytes list \<Rightarrow> put_record_op list
     \<Rightarrow> listing_cache \<times> put_record_op list \<times> bytes list" where
  "assign_new_keys c sid keys records =
     (let seen = (if lc_current_segment_id c \<noteq> Some sid then [] else lc_keys c);
          (seen', records', new_keys) = assign_keys_loop sid keys seen records []
      in (\<lparr>lc_current_segment_id = Some sid, lc_keys = seen'\<rparr>, records', new_keys))"

subsection \<open>The view tracker\<close>

record 'r view_entry =
  ve_seqnum :: u64
  ve_epoch :: u64
  ve_snapshot :: 'r
  ve_last_segment_id :: "segment_id option"

definition view_tracker_push :: "'r view_entry list \<Rightarrow> 'r view_entry \<Rightarrow> 'r view_entry list" where
  "view_tracker_push pending e = pending @ [e]"

primrec advance_loop :: "u64 \<Rightarrow> 'r view_entry option \<Rightarrow> 'r view_entry list \<Rightarrow> 'r view_entry list \<times> 'r view_entry option" where
  "advance_loop durable_seq lst [] = ([], lst)"
| "advance_loop durable_seq lst (e # pending) =
     (if ve_seqnum e \<le> durable_seq then advance_loop durable_seq (Some e) pending else (e # pending, lst))"

definition view_tracker_advance :: "'r view_entry list \<Rightarrow> u64 \<Rightarrow> 'r view_entry list \<times> 'r view_entry option" where
  "view_tracker_advance pending durable_seq = advance_loop durable_seq None pending"

section \<open>Covering segments\<close>

text \<open>
  A cached segment extends from its start to the start of the next one, the last one without bound;
  \<open>covering\<close> keeps those that meet the range \<open>[a, b)\<close>.
\<close>

fun covering :: "u64 \<Rightarrow> u64 \<Rightarrow> (u64, log_segment) omap \<Rightarrow> log_segment list" where
  "covering a b [] = []"
| "covering a b [(k, s)] = (if k < b then [s] else [])"
| "covering a b ((k, s) # (k', s') # m) = (if k < b \<and> a < k' then [s] else []) @ covering a b ((k', s') # m)"

lemma saturating_succ_le: "a < b \<Longrightarrow> saturating_add a 1 \<le> k \<longleftrightarrow> (a :: u64) < k"
  using unat_u64_less [of b] by (auto simp: word_le_nat_alt word_less_nat_alt min_def)

lemma case_rev_last: "(case rev xs of [] \<Rightarrow> [] | (_, s) # _ \<Rightarrow> [s]) = (if xs = [] then [] else [snd (last xs)])"
  by (cases xs rule: rev_cases) auto

lemma covering_split:
  assumes "a < b" and "btree_wf m"
  shows "(let low = filter (\<lambda>(k, _). k \<le> a) m in if low = [] then [] else [snd (last low)])
      @ map snd (filter (\<lambda>(k, _). a < k \<and> k < b) m) = covering a b m"
  using assms
proof (induction a b m rule: covering.induct)
  case (3 a b k s k' s' m)
  show ?case
  proof (cases "a < k'")
    case True
    then have none: "filter (\<lambda>(k, _). k \<le> a) ((k', s') # m) = []"
      using 3 by (force simp: filter_empty_conv)
    with 3 True show ?thesis by (auto simp: Let_def not_le)
  next
    case False
    let ?t = "(k', s') # m"
    let ?low = "filter (\<lambda>(k, _). k \<le> a) ?t"
    from 3 False have k: "k \<le> a" "\<not> a < k" and wf: "btree_wf ?t" by auto
    from False have low: "?low \<noteq> []" by simp
    have "filter (\<lambda>(k, _). k \<le> a) ((k, s) # ?t) = (k, s) # ?low"
      "filter (\<lambda>(k, _). a < k \<and> k < b) ((k, s) # ?t) = filter (\<lambda>(k, _). a < k \<and> k < b) ?t"
      using k by simp_all
    moreover have "last ((k, s) # ?low) = last ?low" by (rule last_ConsR [OF low])
    moreover have "[snd (last ?low)] @ map snd (filter (\<lambda>(k, _). a < k \<and> k < b) ?t) = covering a b ?t"
      using "3.IH" [OF "3.prems"(1) wf] low unfolding Let_def if_not_P [OF low] by blast
    ultimately show ?thesis
      unfolding Let_def covering.simps using False low by (simp only: list.distinct if_False if_not_P append_Nil) simp
  qed
qed (auto simp: Let_def)

lemma find_covering_eq:
  assumes "btree_wf (sc_segments c)"
  shows "find_covering c rg =
    (if ho_start rg \<ge> ho_end rg then [] else covering (ho_start rg) (ho_end rg) (sc_segments c))"
proof (cases "ho_start rg \<ge> ho_end rg")
  case True
  then show ?thesis by (simp add: find_covering_def)
next
  case False
  then have "ho_start rg < ho_end rg" by simp
  from covering_split [OF this assms] saturating_succ_le [OF this] show ?thesis
    unfolding find_covering_def if_not_P [OF False] by (simp add: case_rev_last Let_def)
qed

lemma map_filter_nth_Cons:
  "map (\<lambda>i. f ((x # t) ! i)) (filter Q [0..<length (x # t)]) =
     (if Q 0 then [f x] else []) @ map (\<lambda>i. f (t ! i)) (filter (\<lambda>i. Q (Suc i)) [0..<length t])"
proof -
  have "[0..<length (x # t)] = 0 # map Suc [0..<length t]"
    by (simp add: map_Suc_upt upt_conv_Cons del: upt_Suc)
  then show ?thesis by (simp add: filter_map comp_def del: upt_Suc)
qed

lemma covering_nth:
  "covering a b m =
     map (\<lambda>i. snd (m ! i))
       (filter (\<lambda>i. fst (m ! i) < b \<and> (Suc i < length m \<longrightarrow> a < fst (m ! Suc i))) [0..<length m])"
proof (induction a b m rule: covering.induct)
  case (3 a b k s k' s' m)
  define t where "t = (k', s') # m"
  then have "t \<noteq> []" "fst (t ! 0) = k'" by simp_all
  with 3 show ?case
    unfolding t_def [symmetric] covering.simps(3) [of a b k s k' s' m, folded t_def] map_filter_nth_Cons
    by simp
qed simp_all

section \<open>New keys of a batch\<close>

definition listing_put :: "segment_id \<Rightarrow> bytes \<Rightarrow> put_record_op" where
  "listing_put sid key =
     put_record_op_new_with_options
       (record_new (listing_entry_key_serialize \<lparr>lik_segment_id = sid, lik_key = key\<rparr>)
          listing_entry_value_serialize) \<lparr>put_ttl = NoExpiry\<rparr>"

lemma assign_keys_loop_spec:
  assumes "btree_wf seen" and "assign_keys_loop sid keys seen records new_keys = (seen', records', new_keys')"
  shows "\<exists>added. new_keys' = new_keys @ added \<and> records' = records @ map (listing_put sid) added
    \<and> distinct added \<and> set added = {k \<in> set keys. btree_get seen k = None}
    \<and> btree_wf seen' \<and> (\<forall>k. btree_get seen' k \<noteq> None \<longleftrightarrow> btree_get seen k \<noteq> None \<or> k \<in> set keys)"
  using assms
proof (induction keys arbitrary: seen records new_keys)
  case (Cons key keys)
  show ?case
  proof (cases "btree_get seen key = None")
    case False
    with Cons.IH [OF Cons.prems(1), of records new_keys] Cons.prems(2) show ?thesis
      by (fastforce simp del: not_None_eq)
  next
    case True
    with Cons.prems have "assign_keys_loop sid keys (btree_insert key () seen)
        (records @ [listing_put sid key]) (new_keys @ [key]) = (seen', records', new_keys')"
      by (simp add: listing_put_def)
    from Cons.IH [OF _ this] Cons.prems(1) obtain added where
      "new_keys' = (new_keys @ [key]) @ added" "records' = (records @ [listing_put sid key]) @ map (listing_put sid) added"
      "distinct added" "set added = {k \<in> set keys. btree_get (btree_insert key () seen) k = None}"
      "btree_wf seen'" "\<forall>k. btree_get seen' k \<noteq> None \<longleftrightarrow> btree_get (btree_insert key () seen) k \<noteq> None \<or> k \<in> set keys"
      by auto
    with True Cons.prems(1) show ?thesis
      by (intro exI [of _ "key # added"]) (auto split: if_splits)
  qed
qed simp

section \<open>The tracker\<close>

lemma advance_loop_eq:
  "advance_loop d l p =
     (dropWhile (\<lambda>e. ve_seqnum e \<le> d) p,
      case rev (takeWhile (\<lambda>e. ve_seqnum e \<le> d) p) of [] \<Rightarrow> l | e # _ \<Rightarrow> Some e)"
  by (induction p arbitrary: l) (auto split: list.splits simp: neq_Nil_conv)

section \<open>Properties\<close>

text \<open>
  \<open>find_covering\<close> on a non-empty range returns, in order, exactly the cached segments that can
  hold a sequence number of the range: those that start before its end and whose successor, if any,
  starts after its start.  On an empty range it returns nothing.
\<close>

theorem find_covering_exact:
  assumes "btree_wf (sc_segments c)"
  shows "find_covering c rg =
    (if ho_start rg \<ge> ho_end rg then []
     else map (\<lambda>i. snd (sc_segments c ! i))
            (filter (\<lambda>i. fst (sc_segments c ! i) < ho_end rg
                       \<and> (Suc i < length (sc_segments c) \<longrightarrow> ho_start rg < fst (sc_segments c ! Suc i)))
              [0..<length (sc_segments c)]))"
  by (simp add: find_covering_eq [OF assms] covering_nth)

theorem find_covering_exact_witness:
  "let seg = (\<lambda>i q. (q, \<lparr>seg_id = i, seg_meta = \<lparr>start_seq = q, start_time_ms = 0\<rparr>\<rparr>)) in
   map seg_id (find_covering \<lparr>sc_segments = [seg 0 0, seg 1 10, seg 2 20], sc_config = \<lparr>seal_interval = None\<rparr>\<rparr>
     \<lparr>ho_start = 12, ho_end = 21\<rparr>) = [1, 2]"
  using find_covering_exact [of "\<lparr>sc_segments =
      [(0, \<lparr>seg_id = 0, seg_meta = \<lparr>start_seq = 0, start_time_ms = 0\<rparr>\<rparr>),
       (10, \<lparr>seg_id = 1, seg_meta = \<lparr>start_seq = 10, start_time_ms = 0\<rparr>\<rparr>),
       (20, \<lparr>seg_id = 2, seg_meta = \<lparr>start_seq = 20, start_time_ms = 0\<rparr>\<rparr>)],
      sc_config = \<lparr>seal_interval = None\<rparr>\<rparr>" "\<lparr>ho_start = 12, ho_end = 21\<rparr>"]
  by (simp add: btree_wf_def upt_rec)

text \<open>
  The view tracker: \<open>advance(d)\<close> takes off the front the views up to sequence \<open>d\<close> and returns
  the newest of them; what stays is in order and starts with a view that is not yet covered.
\<close>

theorem view_tracker_advance_newest:
  "\<exists>taken. pending = taken @ fst (view_tracker_advance pending d)
     \<and> list_all (\<lambda>e. ve_seqnum e \<le> d) taken
     \<and> snd (view_tracker_advance pending d) = (if taken = [] then None else Some (last taken))
     \<and> (fst (view_tracker_advance pending d) = [] \<or> d < ve_seqnum (hd (fst (view_tracker_advance pending d))))"
proof (intro exI conjI)
  let ?t = "takeWhile (\<lambda>e. ve_seqnum e \<le> d) pending"
  show "pending = ?t @ fst (view_tracker_advance pending d)"
    by (simp add: view_tracker_advance_def advance_loop_eq)
  show "list_all (\<lambda>e. ve_seqnum e \<le> d) ?t" by (auto simp: list_all_iff dest: set_takeWhileD)
  show "snd (view_tracker_advance pending d) = (if ?t = [] then None else Some (last ?t))"
    by (cases ?t rule: rev_cases) (auto simp: view_tracker_advance_def advance_loop_eq)
  show "fst (view_tracker_advance pending d) = [] \<or> d < ve_seqnum (hd (fst (view_tracker_advance pending d)))"
    using hd_dropWhile [of "\<lambda>e. ve_seqnum e \<le> d" pending]
    by (simp add: view_tracker_advance_def advance_loop_eq not_le del: dropWhile_eq_Nil_conv) blast
qed

end
