(* ===== verification/Log_Writer.thy ===== *)
theory Log_Writer
  imports Sequence Log_Segment
begin

text \<open>
  The log writer (\<open>log/src/writer.rs\<close>): one task owns the sequence allocator, the segment cache and
  the listing cache, turns an append into one batch of storage records and publishes a snapshot after
  each write.  The handlers are whole: what they leave changed when the storage fails is part of the
  model.  The watch channel of written views is the value last sent (\<open>send_replace\<close>), the watermarks
  are the two epochs.
\<close>

section \<open>Definitions\<close>

record user_record =
  ur_key :: bytes
  ur_value :: bytes

record append_output =
  start_sequence :: u64

record 'r written_view =
  wv_epoch :: u64
  wv_snapshot :: 'r
  wv_seqnum :: u64
  wv_last_segment_id :: "segment_id option"

record log_write =
  lwr_records :: "user_record list"
  lwr_timestamp_ms :: i64

datatype writer_command = Append log_write | ForceSeal i64 | Flush

record ('s, 'r) log_writer =
  lw_storage :: 's
  lw_sequence_allocator :: sequence_allocator
  lw_segment_cache :: segment_cache
  lw_listing_cache :: listing_cache
  lw_epoch :: u64
  lw_written_tx :: "'r written_view"
  lw_written_watermark :: u64
  lw_durable_watermark :: u64
  lw_last_segment_id :: "segment_id option"

definition log_writer_new ::
    "('s, 'r) storage_ops \<Rightarrow> 's \<Rightarrow> sequence_allocator \<Rightarrow> segment_cache \<Rightarrow> listing_cache
     \<Rightarrow> 's \<times> (('s, 'r) log_writer, string) result" where
  "log_writer_new ops s allocator cache listing =
     (case op_snapshot ops s of
        (s', Ok initial_snapshot) \<Rightarrow>
          let last_id = map_option seg_id (latest cache) in
          (s', Ok \<lparr>lw_storage = s', lw_sequence_allocator = allocator, lw_segment_cache = cache,
                   lw_listing_cache = listing, lw_epoch = 0,
                   lw_written_tx = \<lparr>wv_epoch = 0, wv_snapshot = initial_snapshot, wv_seqnum = 0,
                                    wv_last_segment_id = last_id\<rparr>,
                   lw_written_watermark = 0, lw_durable_watermark = 0, lw_last_segment_id = last_id\<rparr>)
      | (s', Err e) \<Rightarrow> (s', Err (storage_error_string e))
      | (s', Panic) \<Rightarrow> (s', Panic))"

definition entry_put :: "log_segment \<Rightarrow> u64 \<Rightarrow> nat \<Rightarrow> user_record \<Rightarrow> put_record_op" where
  "entry_put segment base i ur =
     put_record_op_new_with_options
       (record_new
          (log_entry_key_serialize (log_entry_key_new (seg_id segment) (ur_key ur) (base + word_of_nat i))
             (start_seq (seg_meta segment)))
          (ur_value ur))
       \<lparr>put_ttl = NoExpiry\<rparr>"

definition add_entries ::
    "log_segment \<Rightarrow> u64 \<Rightarrow> user_record list \<Rightarrow> put_record_op list \<Rightarrow> put_record_op list" where
  "add_entries segment base user_records records =
     records @ map (\<lambda>(i, ur). entry_put segment base i ur) (enumerate 0 user_records)"

definition write_and_broadcast ::
    "('s, 'r) storage_ops \<Rightarrow> ('s, 'r) log_writer \<Rightarrow> put_record_op list \<Rightarrow> segment_assignment
     \<Rightarrow> ('s, 'r) log_writer \<times> (unit, string) result" where
  "write_and_broadcast ops w records assignment =
     (case op_put_with_options ops (lw_storage w) records \<lparr>await_durable = False\<rparr> of
        (s1, Err e) \<Rightarrow> (w\<lparr>lw_storage := s1\<rparr>, Err (storage_error_string e))
      | (s1, Panic) \<Rightarrow> (w\<lparr>lw_storage := s1\<rparr>, Panic)
      | (s1, Ok result) \<Rightarrow>
          (case op_snapshot ops s1 of
             (s2, Err e) \<Rightarrow> (w\<lparr>lw_storage := s2\<rparr>, Err (storage_error_string e))
           | (s2, Panic) \<Rightarrow> (w\<lparr>lw_storage := s2\<rparr>, Panic)
           | (s2, Ok snapshot) \<Rightarrow>
               let epoch = lw_epoch w + 1;
                   last_id = (if sa_is_new assignment then Some (seg_id (sa_segment assignment))
                              else lw_last_segment_id w)
               in (w\<lparr>lw_storage := s2, lw_epoch := epoch, lw_last_segment_id := last_id,
                     lw_written_tx := \<lparr>wv_epoch = epoch, wv_snapshot = snapshot, wv_seqnum = seqnum result,
                                       wv_last_segment_id = last_id\<rparr>,
                     lw_written_watermark := epoch\<rparr>, Ok ())))"

definition handle_append ::
    "('s, 'r) storage_ops \<Rightarrow> ('s, 'r) log_writer \<Rightarrow> log_write
     \<Rightarrow> ('s, 'r) log_writer \<times> (append_output option, string) result" where
  "handle_append ops w lw =
     (let count = word_of_nat (length (lwr_records lw)) in
      if count = 0 then (w, Ok None)
      else
        let (allocator, base_seq, maybe_block_record) = allocate (lw_sequence_allocator w) count;
            records = (case maybe_block_record of
                         Some r \<Rightarrow> [put_record_op_new_with_options r \<lparr>put_ttl = NoExpiry\<rparr>]
                       | None \<Rightarrow> []);
            w1 = w\<lparr>lw_sequence_allocator := allocator\<rparr>
        in case assign_segment (lw_segment_cache w1) (lwr_timestamp_ms lw) base_seq records False of
             None \<Rightarrow> (w1, Panic)
           | Some (cache, records2, assignment) \<Rightarrow>
               let (listing, records3, _) =
                     assign_new_keys (lw_listing_cache w1) (seg_id (sa_segment assignment))
                       (map ur_key (lwr_records lw)) records2;
                   records4 = add_entries (sa_segment assignment) base_seq (lwr_records lw) records3;
                   w2 = w1\<lparr>lw_segment_cache := cache, lw_listing_cache := listing\<rparr>
               in case write_and_broadcast ops w2 records4 assignment of
                    (w3, Ok _) \<Rightarrow> (w3, Ok (Some \<lparr>start_sequence = base_seq\<rparr>))
                  | (w3, Err e) \<Rightarrow> (w3, Err e)
                  | (w3, Panic) \<Rightarrow> (w3, Panic))"

definition handle_force_seal ::
    "('s, 'r) storage_ops \<Rightarrow> ('s, 'r) log_writer \<Rightarrow> i64 \<Rightarrow> ('s, 'r) log_writer \<times> (unit, string) result" where
  "handle_force_seal ops w timestamp_ms =
     (case assign_segment (lw_segment_cache w) timestamp_ms (peek_next_sequence (lw_sequence_allocator w)) [] True of
        None \<Rightarrow> (w, Panic)
      | Some (cache, records, assignment) \<Rightarrow>
          let w1 = w\<lparr>lw_segment_cache := cache\<rparr> in
          if records \<noteq> [] then write_and_broadcast ops w1 records assignment else (w1, Ok ()))"

definition handle_flush ::
    "('s, 'r) storage_ops \<Rightarrow> ('s, 'r) log_writer \<Rightarrow> ('s, 'r) log_writer \<times> (u64, string) result" where
  "handle_flush ops w =
     (case op_flush ops (lw_storage w) of
        (s', Ok _) \<Rightarrow> (w\<lparr>lw_storage := s', lw_durable_watermark := lw_epoch w\<rparr>, Ok (lw_epoch w))
      | (s', Err e) \<Rightarrow> (w\<lparr>lw_storage := s'\<rparr>, Err (storage_error_string e))
      | (s', Panic) \<Rightarrow> (w\<lparr>lw_storage := s'\<rparr>, Panic))"

datatype writer_reply =
    AppendReply "(append_output option, string) result"
  | SealReply "(unit, string) result"
  | FlushReply "(u64, string) result"

fun writer_step :: "('s, 'r) storage_ops \<Rightarrow> ('s, 'r) log_writer \<Rightarrow> writer_command \<Rightarrow> ('s, 'r) log_writer \<times> writer_reply" where
  "writer_step ops w (Append lw) = (let (w', x) = handle_append ops w lw in (w', AppendReply x))"
| "writer_step ops w (ForceSeal t) = (let (w', x) = handle_force_seal ops w t in (w', SealReply x))"
| "writer_step ops w Flush = (let (w', x) = handle_flush ops w in (w', FlushReply x))"

fun reply_panics :: "writer_reply \<Rightarrow> bool" where
  "reply_panics (AppendReply x) = (x = Panic)"
| "reply_panics (SealReply x) = (x = Panic)"
| "reply_panics (FlushReply x) = (x = Panic)"

text \<open>\<open>run\<close>: the commands are handled in order until the queue is closed (or the task panics).\<close>

primrec writer_run :: "('s, 'r) storage_ops \<Rightarrow> ('s, 'r) log_writer \<Rightarrow> writer_command list \<Rightarrow> ('s, 'r) log_writer \<times> writer_reply list" where
  "writer_run ops w [] = (w, [])"
| "writer_run ops w (cmd # cmds) =
     (let (w', reply) = writer_step ops w cmd in
      if reply_panics reply then (w', [reply])
      else let (w'', replies) = writer_run ops w' cmds in (w'', reply # replies))"

section \<open>What the log stores\<close>

text \<open>The four kinds of keys the log writes, and their bytes.\<close>

datatype lkey = EntryK segment_id bytes u64 | MetaK segment_id | ListK segment_id bytes | BlockK

fun lkey_bytes :: "lkey \<Rightarrow> bytes" where
  "lkey_bytes (EntryK sid k rel) = write_prefix LogEntryType [] @ put_u32 sid @ terminated_serialize k @ var_u64_serialize rel"
| "lkey_bytes (MetaK sid) = segment_meta_key_serialize sid"
| "lkey_bytes (ListK sid k) = listing_entry_key_serialize \<lparr>lik_segment_id = sid, lik_key = k\<rparr>"
| "lkey_bytes BlockK = SEQ_BLOCK_KEY"

lemma lkey_bytes_prefix:
  "\<exists>xs. lkey_bytes x = write_prefix
     (case x of EntryK _ _ _ \<Rightarrow> LogEntryType | MetaK _ \<Rightarrow> SegmentMetaType | ListK _ _ \<Rightarrow> ListingEntryType
      | BlockK \<Rightarrow> SeqBlockType) [] @ xs"
  by (cases x)
     (auto simp: segment_meta_key_serialize_def listing_entry_key_serialize_def SEQ_BLOCK_KEY_def
       write_prefix_bytes log_SUBSYSTEM_def log_KEY_VERSION_def)

lemma lkey_bytes_inj [simp]: "lkey_bytes x = lkey_bytes y \<longleftrightarrow> x = y"
proof
  assume eq: "lkey_bytes x = lkey_bytes y"
  have "(case x of EntryK _ _ _ \<Rightarrow> LogEntryType | MetaK _ \<Rightarrow> SegmentMetaType | ListK _ _ \<Rightarrow> ListingEntryType
      | BlockK \<Rightarrow> SeqBlockType) = (case y of EntryK _ _ _ \<Rightarrow> LogEntryType | MetaK _ \<Rightarrow> SegmentMetaType
      | ListK _ _ \<Rightarrow> ListingEntryType | BlockK \<Rightarrow> SeqBlockType)"
    using lkey_bytes_prefix [of x] lkey_bytes_prefix [of y] eq by (auto simp: write_prefix_eq_iff)
  then show "x = y"
    using eq
    by (cases x; cases y)
       (auto simp: segment_meta_key_serialize_def listing_entry_key_serialize_def u32_field.fld_eq_iff
         u32_field.fld_inj terminated_key.fld_eq_iff var_u64_key.fld_inj)
qed simp

text \<open>
  The log as a history: each entry with the segment it was written to.  \<open>log_content\<close> is what a
  storage holds for a history, its segments and the reserved sequence block.
\<close>

type_synonym history = "(log_segment \<times> log_entry) list"

definition entry_lkey :: "log_segment \<Rightarrow> log_entry \<Rightarrow> lkey" where
  "entry_lkey s e = EntryK (seg_id s) (le_key e) (le_sequence e - start_seq (seg_meta s))"

definition log_content :: "log_segment set \<Rightarrow> history \<Rightarrow> seq_block option \<Rightarrow> (lkey \<times> bytes) set" where
  "log_content segs hist blk =
     (\<lambda>(s, e). (entry_lkey s e, le_value e)) ` set hist
     \<union> (\<lambda>s. (MetaK (seg_id s), segment_meta_serialize (seg_meta s))) ` segs
     \<union> (\<lambda>(s, e). (ListK (seg_id s) (le_key e), [])) ` set hist
     \<union> (\<lambda>b. (BlockK, seq_block_serialize b)) ` set_option blk"

lemma log_content_subsetI:
  assumes "\<And>s e. (s, e) \<in> set hist \<Longrightarrow> (entry_lkey s e, le_value e) \<in> X"
    and "\<And>s. s \<in> segs \<Longrightarrow> (MetaK (seg_id s), segment_meta_serialize (seg_meta s)) \<in> X"
    and "\<And>s e. (s, e) \<in> set hist \<Longrightarrow> (ListK (seg_id s) (le_key e), []) \<in> X"
    and "\<And>b. b \<in> set_option blk \<Longrightarrow> (BlockK, seq_block_serialize b) \<in> X"
  shows "log_content segs hist blk \<subseteq> X"
  using assms unfolding log_content_def by auto

definition holds :: "view \<Rightarrow> (lkey \<times> bytes) set \<Rightarrow> bool" where
  "holds m C \<longleftrightarrow> (\<forall>K v. m K = Some v \<longleftrightarrow> (\<exists>x. K = lkey_bytes x \<and> (x, v) \<in> C))"

definition lkey_put :: "lkey \<times> bytes \<Rightarrow> put_record_op" where
  "lkey_put xv = put_record_op_new_with_options (record_new (lkey_bytes (fst xv)) (snd xv)) \<lparr>put_ttl = NoExpiry\<rparr>"

lemma put_view_lkey: "live NoExpiry \<Longrightarrow> put_view live (lkey_put (x, v)) m = m(lkey_bytes x \<mapsto> v)"
  by (simp add: put_view_def lkey_put_def put_record_op_new_with_options_def record_new_def)

lemma holds_put:
  assumes "holds m C" and "live NoExpiry" and "distinct (map fst kvs)"
  shows "holds (fold (put_view live) (map lkey_put kvs) m) (set kvs \<union> {xv \<in> C. fst xv \<notin> fst ` set kvs})"
  using assms
proof (induction kvs arbitrary: m C)
  case (Cons xv kvs)
  obtain x v where xv: "xv = (x, v)" by fastforce
  let ?C = "insert (x, v) {yw \<in> C. fst yw \<noteq> x}"
  have "holds (m(lkey_bytes x \<mapsto> v)) ?C"
    using Cons.prems(1) by (auto simp: holds_def)
  from Cons.IH [OF this Cons.prems(2)] Cons.prems(3) xv
  have "holds (fold (put_view live) (map lkey_put kvs) (m(lkey_bytes x \<mapsto> v))) (set kvs \<union> {yw \<in> ?C. fst yw \<notin> fst ` set kvs})"
    by (simp del: fun_upd_apply)
  moreover have "set kvs \<union> {yw \<in> ?C. fst yw \<notin> fst ` set kvs} = set (xv # kvs) \<union> {yw \<in> C. fst yw \<notin> fst ` set (xv # kvs)}"
    using Cons.prems(3) xv by (auto; force)
  ultimately show ?case using Cons.prems(2) xv by (simp add: put_view_lkey del: fun_upd_apply)
qed simp

section \<open>A batch of an append\<close>

text \<open>The records of one append: the block and the segment when they are new, the new keys, the entries.\<close>

definition batch_kvs ::
    "seq_block option \<Rightarrow> log_segment option \<Rightarrow> segment_id \<Rightarrow> bytes list \<Rightarrow> history \<Rightarrow> (lkey \<times> bytes) list" where
  "batch_kvs blk seg sid added fresh =
     (case blk of None \<Rightarrow> [] | Some b \<Rightarrow> [(BlockK, seq_block_serialize b)])
     @ (case seg of None \<Rightarrow> [] | Some s \<Rightarrow> [(MetaK (seg_id s), segment_meta_serialize (seg_meta s))])
     @ map (\<lambda>k. (ListK sid k, [])) added
     @ map (\<lambda>(s, e). (entry_lkey s e, le_value e)) fresh"

lemma content_append:
  fixes segs :: "log_segment set"
  assumes seg: "\<And>s s'. seg = Some s \<Longrightarrow> s' \<in> segs \<Longrightarrow> seg_id s' \<noteq> seg_id s"
    and fresh: "\<And>s e. (s, e) \<in> set fresh \<Longrightarrow> seg_id s = sid"
    and added: "\<And>k. k \<in> set added \<Longrightarrow> \<exists>s e. (s, e) \<in> set fresh \<and> le_key e = k"
    and listed: "\<And>s e. (s, e) \<in> set fresh \<Longrightarrow> le_key e \<in> set added
        \<or> (\<exists>s' e'. (s', e') \<in> set hist \<and> seg_id s' = sid \<and> le_key e' = le_key e)"
    and entries: "\<And>s e s' e'. (s, e) \<in> set fresh \<Longrightarrow> (s', e') \<in> set hist \<Longrightarrow> entry_lkey s' e' \<noteq> entry_lkey s e"
  shows "set (batch_kvs blk seg sid added fresh)
      \<union> {xv \<in> log_content segs hist old. fst xv \<notin> fst ` set (batch_kvs blk seg sid added fresh)}
    = log_content (segs \<union> set_option seg) (hist @ fresh) (case blk of None \<Rightarrow> old | Some b \<Rightarrow> Some b)"
    (is "?N \<union> ?O = ?C")
proof
  have N: "?N = (\<lambda>b. (BlockK, seq_block_serialize b)) ` set_option blk
      \<union> (\<lambda>s. (MetaK (seg_id s), segment_meta_serialize (seg_meta s))) ` set_option seg
      \<union> (\<lambda>k. (ListK sid k, [])) ` set added
      \<union> (\<lambda>(s, e). (entry_lkey s e, le_value e)) ` set fresh"
    by (auto simp: batch_kvs_def split: option.splits)
  have "?N \<subseteq> ?C"
  proof -
    have "(ListK sid k, []) \<in> (\<lambda>(s, e). (ListK (seg_id s) (le_key e), [])) ` set fresh" if "k \<in> set added" for k
    proof -
      from added [OF that] obtain s e where "(s, e) \<in> set fresh" "le_key e = k" by blast
      with fresh show ?thesis by (intro image_eqI [of _ _ "(s, e)"]) auto
    qed
    then show ?thesis unfolding N log_content_def by (auto split: option.splits)
  qed
  moreover have "?O \<subseteq> ?C"
    unfolding N log_content_def by (auto split: option.splits)
  ultimately show "?N \<union> ?O \<subseteq> ?C" by blast
next
  define X where "X = ?N \<union> ?O"
  have "(entry_lkey s e, le_value e) \<in> X" if "(s, e) \<in> set hist" for s e
  proof -
    have "entry_lkey s e \<notin> fst ` ?N"
      using entries [OF _ that] by (fastforce simp: batch_kvs_def entry_lkey_def split: option.splits)
    with that show ?thesis by (force simp: log_content_def X_def)
  qed
  moreover have "(MetaK (seg_id s), segment_meta_serialize (seg_meta s)) \<in> X" if "s \<in> segs" for s
  proof -
    have "MetaK (seg_id s) \<notin> fst ` ?N"
      using seg [OF _ that] by (auto simp: batch_kvs_def entry_lkey_def split: option.splits)
    with that show ?thesis by (force simp: log_content_def X_def)
  qed
  moreover have listed_old: "(ListK (seg_id s) (le_key e), []) \<in> X" if "(s, e) \<in> set hist" for s e
  proof (cases "ListK (seg_id s) (le_key e) \<in> fst ` ?N")
    case True
    then show ?thesis by (auto simp: X_def batch_kvs_def entry_lkey_def split: option.splits)
  next
    case False
    with that show ?thesis by (force simp: log_content_def X_def)
  qed
  moreover have "(ListK (seg_id s) (le_key e), []) \<in> X" if "(s, e) \<in> set fresh" for s e
  proof (cases "le_key e \<in> set added")
    case True
    with fresh [OF that] show ?thesis by (simp add: batch_kvs_def X_def)
  next
    case False
    with listed [OF that] obtain s' e' where "(s', e') \<in> set hist" "seg_id s' = sid" "le_key e' = le_key e" by blast
    with listed_old [of s' e'] fresh [OF that] show ?thesis by simp
  qed
  moreover have "(BlockK, seq_block_serialize b) \<in> X"
    if "b \<in> set_option (case blk of None \<Rightarrow> old | Some b \<Rightarrow> Some b)" for b
    using that by (auto simp: X_def batch_kvs_def entry_lkey_def log_content_def split: option.splits)
  moreover have "(entry_lkey s e, le_value e) \<in> X" if "(s, e) \<in> set fresh" for s e
    using that by (force simp: X_def batch_kvs_def)
  moreover have "(MetaK (seg_id s), segment_meta_serialize (seg_meta s)) \<in> X" if "s \<in> set_option seg" for s
    using that by (simp add: batch_kvs_def X_def)
  ultimately have "?C \<subseteq> X" by (intro log_content_subsetI) auto
  then show "?C \<subseteq> ?N \<union> ?O" by (simp only: X_def)
qed

section \<open>Well-formed writer states\<close>

text \<open>
  Segment number \<open>i\<close> of the cache has the identifier \<open>i\<close> and is filed under its start; all segments
  start before the next sequence number \<open>n\<close>.
\<close>

definition segs_ok :: "(u64, log_segment) omap \<Rightarrow> nat \<Rightarrow> bool" where
  "segs_ok segs n \<longleftrightarrow> btree_wf segs \<and> length segs < 2 ^ 32
     \<and> (\<forall>i < length segs. seg_id (snd (segs ! i)) = word_of_nat i
          \<and> fst (segs ! i) = start_seq (seg_meta (snd (segs ! i))) \<and> unat (fst (segs ! i)) < n)"

text \<open>
  The history is in sequence order, all before \<open>n\<close>; an entry lies in its segment: at or after the
  start and before the start of every later segment.
\<close>

definition hist_ok :: "(u64, log_segment) omap \<Rightarrow> history \<Rightarrow> nat \<Rightarrow> bool" where
  "hist_ok segs hist n \<longleftrightarrow>
     sorted_wrt (<) (map (\<lambda>(s, e). le_sequence e) hist)
     \<and> (\<forall>(s, e) \<in> set hist. s \<in> snd ` set segs \<and> start_seq (seg_meta s) \<le> le_sequence e
          \<and> unat (le_sequence e) < n
          \<and> (\<forall>s' \<in> snd ` set segs. start_seq (seg_meta s) < start_seq (seg_meta s') \<longrightarrow>
               le_sequence e < start_seq (seg_meta s')))"

definition listing_ok :: "listing_cache \<Rightarrow> history \<Rightarrow> bool" where
  "listing_ok l hist \<longleftrightarrow> btree_wf (lc_keys l)
     \<and> (\<forall>k. btree_get (lc_keys l) k \<noteq> None \<longrightarrow>
          (\<exists>(s, e) \<in> set hist. lc_current_segment_id l = Some (seg_id s) \<and> le_key e = k))"

definition new_entries :: "log_segment \<Rightarrow> u64 \<Rightarrow> user_record list \<Rightarrow> history" where
  "new_entries s base recs =
     map (\<lambda>(i, ur). (s, \<lparr>le_key = ur_key ur, le_sequence = base + word_of_nat i, le_value = ur_value ur\<rparr>))
       (enumerate 0 recs)"

lemma btree_insert_last:
  "btree_wf m \<Longrightarrow> \<forall>k' \<in> fst ` set m. k' < k \<Longrightarrow> btree_insert k v m = m @ [(k, v)]"
  by (induction m rule: btree_insert.induct) (auto split: if_splits)

lemma latest_eq: "latest c = (if sc_segments c = [] then None else Some (snd (last (sc_segments c))))"
  by (cases "sc_segments c" rule: rev_cases) (auto simp: latest_def)

lemma segs_okD:
  assumes "segs_ok segs n" and "(k, s) \<in> set segs"
  shows "k = start_seq (seg_meta s)" and "unat k < n"
  using assms by (fastforce simp: segs_ok_def in_set_conv_nth)+

lemma segs_ok_inj:
  assumes "segs_ok segs n" and "s \<in> snd ` set segs" and "s' \<in> snd ` set segs"
  shows "seg_id s = seg_id s' \<longleftrightarrow> s = s'"
proof
  assume eq: "seg_id s = seg_id s'"
  from assms obtain i j where ij: "i < length segs" "s = snd (segs ! i)" "j < length segs" "s' = snd (segs ! j)"
    by (auto simp: in_set_conv_nth)
  with assms(1) eq have "(word_of_nat i :: segment_id) = word_of_nat j" "i < 2 ^ 32" "j < 2 ^ 32"
    by (auto simp: segs_ok_def)
  then have "i = j" by (metis unat_u32_of_nat)
  with ij show "s = s'" by simp
qed simp

lemma assign_segment_spec:
  assumes ok: "segs_ok (sc_segments c) (unat base)" and room: "Suc (length (sc_segments c)) < 2 ^ 32"
    and asg: "assign_segment c t base recs False = Some (c', recs', asg)"
  obtains (same) "c' = c" "recs' = recs" "\<not> sa_is_new asg" "sc_segments c \<noteq> []"
      "sa_segment asg = snd (last (sc_segments c))"
  | (roll) "sa_is_new asg"
      "sa_segment asg = \<lparr>seg_id = word_of_nat (length (sc_segments c)), seg_meta = \<lparr>start_seq = base, start_time_ms = t\<rparr>\<rparr>"
      "sc_segments c' = sc_segments c @ [(base, sa_segment asg)]" "sc_config c' = sc_config c"
      "recs' = recs @ [lkey_put (MetaK (seg_id (sa_segment asg)), segment_meta_serialize (seg_meta (sa_segment asg)))]"
proof (cases "should_roll (seal_interval (sc_config c)) t (latest c)")
  case False
  with asg same show thesis
    by (auto simp: assign_segment_def Let_def latest_eq split: if_splits)
next
  case True
  let ?segs = "sc_segments c"
  have sid: "(case latest c of Some s \<Rightarrow> seg_id s + 1 | None \<Rightarrow> 0) = word_of_nat (length ?segs)"
  proof (cases "?segs = []")
    case nonempty: False
    then have "seg_id (snd (last ?segs)) = word_of_nat (length ?segs - 1)"
      using ok by (simp add: segs_ok_def last_conv_nth)
    moreover have "(word_of_nat (length ?segs - 1) :: segment_id) + 1 = word_of_nat (length ?segs)"
      using nonempty by (cases ?segs) simp_all
    ultimately show ?thesis using nonempty by (simp add: latest_eq)
  qed (simp add: latest_eq)
  have "\<forall>k \<in> fst ` set ?segs. k < base"
    using segs_okD [OF ok] by (auto simp: word_less_nat_alt)
  then have ins: "btree_insert base s ?segs = ?segs @ [(base, s)]" for s
    using ok by (intro btree_insert_last) (simp_all add: segs_ok_def)
  from True asg sid show thesis
    by (intro roll) (auto simp: assign_segment_def Let_def segment_cache_insert_def ins lkey_put_def)
qed

definition opened :: "segment_assignment \<Rightarrow> log_segment option" where
  "opened asg = (if sa_is_new asg then Some (sa_segment asg) else None)"

lemma assign_segment_same: "assign_segment c t base recs seal = Some (c', recs', asg) \<Longrightarrow> \<not> sa_is_new asg \<Longrightarrow> c' = c"
  by (auto simp: assign_segment_def Let_def split: if_splits)

lemma segs_ok_start_le_last:
  assumes "segs_ok segs n" and "segs \<noteq> []" and "s \<in> snd ` set segs"
  shows "start_seq (seg_meta s) \<le> start_seq (seg_meta (snd (last segs)))"
proof -
  obtain xs x where segs: "segs = xs @ [x]" using assms(2) by (cases segs rule: rev_cases) auto
  with assms(1) have "\<forall>p \<in> set xs. fst p < fst x"
    by (simp add: segs_ok_def btree_wf_def sorted_wrt_append)
  with assms segs segs_okD [OF assms(1)] show ?thesis by (cases x) (fastforce simp: less_imp_le)
qed

lemma assign_segment_ok:
  assumes ok: "segs_ok (sc_segments c) (unat base)" and room: "Suc (length (sc_segments c)) < 2 ^ 32"
    and asg: "assign_segment c t base recs False = Some (c', recs', asg)" and n: "unat base < n"
  shows "segs_ok (sc_segments c') n \<and> sa_segment asg \<in> snd ` set (sc_segments c')
    \<and> (\<forall>s \<in> snd ` set (sc_segments c'). start_seq (seg_meta s) \<le> start_seq (seg_meta (sa_segment asg)))
    \<and> start_seq (seg_meta (sa_segment asg)) \<le> base
    \<and> snd ` set (sc_segments c') = snd ` set (sc_segments c) \<union> set_option (opened asg)
    \<and> (\<forall>s \<in> set_option (opened asg). base \<le> start_seq (seg_meta s) \<and> (\<forall>s' \<in> snd ` set (sc_segments c). seg_id s' \<noteq> seg_id s))
    \<and> latest c' = Some (sa_segment asg) \<and> (\<exists>xs. sc_segments c' = sc_segments c @ xs)
    \<and> recs' = recs @ map lkey_put (case opened asg of None \<Rightarrow> []
        | Some s \<Rightarrow> [(MetaK (seg_id s), segment_meta_serialize (seg_meta s))])"
  using ok room asg
proof (cases rule: assign_segment_spec)
  case same
  let ?segs = "sc_segments c"
  obtain k s where last: "last ?segs = (k, s)" by fastforce
  with same(4) have "(k, s) \<in> set ?segs" by (metis last_in_set)
  then have "start_seq (seg_meta (snd (last ?segs))) \<le> base"
    using segs_okD [OF ok, of k s] last by (simp add: word_le_nat_alt)
  moreover have "segs_ok ?segs n" using ok n by (fastforce simp: segs_ok_def)
  ultimately show ?thesis
    using same segs_ok_start_le_last [OF ok same(4)] by (auto simp: opened_def latest_eq)
next
  case roll
  let ?segs = "sc_segments c" and ?s = "sa_segment asg"
  have below: "start_seq (seg_meta s) < base" "seg_id s \<noteq> seg_id ?s" if "s \<in> snd ` set ?segs" for s
  proof -
    from that obtain i where i: "i < length ?segs" "s = snd (?segs ! i)" by (auto simp: in_set_conv_nth)
    with ok show "start_seq (seg_meta s) < base" by (auto simp: segs_ok_def word_less_nat_alt)
    from i ok room roll(2) show "seg_id s \<noteq> seg_id ?s"
      using unat_u32_of_nat [of i] unat_u32_of_nat [of "length ?segs"] by (auto simp: segs_ok_def)
  qed
  have "segs_ok (?segs @ [(base, ?s)]) n"
    using ok room n roll(2) segs_okD [OF ok]
    by (auto simp: segs_ok_def btree_wf_def sorted_wrt_append nth_append less_Suc_eq word_less_nat_alt)
  with roll below show ?thesis by (auto simp: opened_def latest_eq less_imp_le)
qed

lemma new_entries_nth:
  "x \<in> set (new_entries s base recs) \<longleftrightarrow>
     (\<exists>i < length recs. x = (s, \<lparr>le_key = ur_key (recs ! i), le_sequence = base + word_of_nat i, le_value = ur_value (recs ! i)\<rparr>))"
  by (force simp: new_entries_def in_set_enumerate_eq)

lemma new_entries_keys: "map (\<lambda>(s, e). le_key e) (new_entries s base recs) = map ur_key recs"
  by (rule nth_equalityI) (simp_all add: new_entries_def nth_enumerate_eq)

lemma new_entries_key: "k \<in> ur_key ` set recs \<longleftrightarrow> (\<exists>s' e. (s', e) \<in> set (new_entries s base recs) \<and> le_key e = k)"
proof -
  have "k \<in> set (map ur_key recs) \<longleftrightarrow> k \<in> set (map (\<lambda>(s, e). le_key e) (new_entries s base recs))"
    by (simp only: new_entries_keys)
  then show ?thesis by force
qed

lemma new_sequence:
  assumes "unat (base :: u64) + length recs < 2 ^ 64" and "i < length recs"
  shows "unat (base + word_of_nat i) = unat base + i"
proof -
  from assms have "unat (word_of_nat i :: u64) = i" by (intro unat_u64_of_nat) simp
  with assms show ?thesis by (simp add: unat_add_u64)
qed

lemma new_entries_sorted:
  assumes "unat (base :: u64) + length recs < 2 ^ 64"
  shows "sorted_wrt (<) (map (\<lambda>(s, e). le_sequence e) (new_entries s base recs))"
  using new_sequence [OF assms]
  by (auto simp: new_entries_def sorted_wrt_iff_nth_less nth_enumerate_eq word_less_nat_alt)

lemma hist_ok_append:
  assumes ok: "hist_ok segs hist (unat base)" and base: "unat base + length recs < 2 ^ 64"
    and sub: "snd ` set segs' = snd ` set segs \<union> set_option new"
    and new: "\<And>s. s \<in> set_option new \<Longrightarrow> base \<le> start_seq (seg_meta s)"
    and s: "s \<in> snd ` set segs'" "start_seq (seg_meta s) \<le> base"
    and top: "\<forall>s' \<in> snd ` set segs'. start_seq (seg_meta s') \<le> start_seq (seg_meta s)"
  shows "hist_ok segs' (hist @ new_entries s base recs) (unat base + length recs)"
proof -
  have fresh: "s' = s \<and> base \<le> le_sequence e \<and> unat (le_sequence e) < unat base + length recs"
    if "(s', e) \<in> set (new_entries s base recs)" for s' e
    using that new_sequence [OF base] by (auto simp: new_entries_nth word_le_nat_alt)
  have old: "unat (le_sequence e) < unat base" "le_sequence e < base" if "(s', e) \<in> set hist" for s' e
    using that ok by (auto simp: hist_ok_def word_less_nat_alt)
  have "sorted_wrt (<) (map (\<lambda>(s, e). le_sequence e) (hist @ new_entries s base recs))"
    using ok new_entries_sorted [OF base] old fresh
    by (fastforce simp: hist_ok_def sorted_wrt_append intro: less_le_trans)
  moreover have "s' \<in> snd ` set segs' \<and> start_seq (seg_meta s') \<le> le_sequence e
      \<and> unat (le_sequence e) < unat base + length recs
      \<and> (\<forall>t \<in> snd ` set segs'. start_seq (seg_meta s') < start_seq (seg_meta t) \<longrightarrow> le_sequence e < start_seq (seg_meta t))"
    if "(s', e) \<in> set hist" for s' e
  proof -
    from that ok have "s' \<in> snd ` set segs" "start_seq (seg_meta s') \<le> le_sequence e"
      "\<forall>t \<in> snd ` set segs. start_seq (seg_meta s') < start_seq (seg_meta t) \<longrightarrow> le_sequence e < start_seq (seg_meta t)"
      by (auto simp: hist_ok_def)
    with sub old [OF that] new show ?thesis by (auto intro: less_le_trans)
  qed
  moreover have "s' \<in> snd ` set segs' \<and> start_seq (seg_meta s') \<le> le_sequence e
      \<and> unat (le_sequence e) < unat base + length recs
      \<and> (\<forall>t \<in> snd ` set segs'. start_seq (seg_meta s') < start_seq (seg_meta t) \<longrightarrow> le_sequence e < start_seq (seg_meta t))"
    if "(s', e) \<in> set (new_entries s base recs)" for s' e
    using fresh [OF that] s top by (auto simp flip: not_le)
  ultimately show ?thesis
    unfolding hist_ok_def set_append Ball_def split_paired_All prod.case Un_iff by blast
qed

lemma assign_new_keys_spec:
  assumes ok: "listing_ok l hist" and as: "assign_new_keys l sid keys records = (l', records', new_keys)"
  obtains added where "records' = records @ map (\<lambda>k. lkey_put (ListK sid k, [])) added" "distinct added"
    "set added \<subseteq> set keys"
    "\<forall>k \<in> set keys. k \<in> set added \<or> (\<exists>s e. (s, e) \<in> set hist \<and> seg_id s = sid \<and> le_key e = k)"
    "btree_wf (lc_keys l')" "lc_current_segment_id l' = Some sid"
    "\<forall>k. btree_get (lc_keys l') k \<noteq> None \<longrightarrow> k \<in> set keys \<or> (\<exists>s e. (s, e) \<in> set hist \<and> seg_id s = sid \<and> le_key e = k)"
proof -
  define old where "old = (if lc_current_segment_id l \<noteq> Some sid then [] else lc_keys l)"
  obtain seen' where loop: "assign_keys_loop sid keys old records [] = (seen', records', new_keys)"
    and l': "l' = \<lparr>lc_current_segment_id = Some sid, lc_keys = seen'\<rparr>"
    using as by (auto simp: old_def assign_new_keys_def Let_def split: prod.splits)
  have wf: "btree_wf old" using ok by (simp add: old_def listing_ok_def)
  have seen: "\<exists>s e. (s, e) \<in> set hist \<and> seg_id s = sid \<and> le_key e = k" if "btree_get old k \<noteq> None" for k
    using that ok by (fastforce simp: old_def listing_ok_def split: if_splits)
  have put: "listing_put sid = (\<lambda>k. lkey_put (ListK sid k, []))"
    by (simp add: fun_eq_iff listing_put_def lkey_put_def listing_entry_value_serialize_def)
  obtain added where added:
    "records' = records @ map (listing_put sid) added" "distinct added"
    "set added = {k \<in> set keys. btree_get old k = None}" "btree_wf seen'"
    "\<forall>k. btree_get seen' k \<noteq> None \<longleftrightarrow> btree_get old k \<noteq> None \<or> k \<in> set keys"
    using assign_keys_loop_spec [OF wf loop] by (elim exE conjE) (rule that)
  show thesis
  proof (rule that [of added])
    show "\<forall>k \<in> set keys. k \<in> set added \<or> (\<exists>s e. (s, e) \<in> set hist \<and> seg_id s = sid \<and> le_key e = k)"
    proof
      fix k
      assume "k \<in> set keys"
      then show "k \<in> set added \<or> (\<exists>s e. (s, e) \<in> set hist \<and> seg_id s = sid \<and> le_key e = k)"
        using seen [of k] by (cases "btree_get old k = None") (simp_all add: added(3))
    qed
    show "\<forall>k. btree_get (lc_keys l') k \<noteq> None \<longrightarrow> k \<in> set keys \<or> (\<exists>s e. (s, e) \<in> set hist \<and> seg_id s = sid \<and> le_key e = k)"
    proof (intro allI impI)
      fix k
      assume "btree_get (lc_keys l') k \<noteq> None"
      with added(5) l' have "btree_get old k \<noteq> None \<or> k \<in> set keys" by simp
      with seen [of k] show "k \<in> set keys \<or> (\<exists>s e. (s, e) \<in> set hist \<and> seg_id s = sid \<and> le_key e = k)" by blast
    qed
    show "set added \<subseteq> set keys" by (auto simp: added(3))
  qed (use added(1,2,4) l' put in simp_all)
qed

lemma assign_new_keys_listings:
  assumes "btree_wf (lc_keys l)" and "assign_new_keys l sid keys records = (l', records', nk)"
  shows "btree_wf (lc_keys l')" and "\<exists>added. records' = records @ map lkey_put (map (\<lambda>k. (ListK sid k, [])) added)"
proof -
  define old where "old = (if lc_current_segment_id l \<noteq> Some sid then [] else lc_keys l)"
  obtain seen' where loop: "assign_keys_loop sid keys old records [] = (seen', records', nk)"
    and l': "l' = \<lparr>lc_current_segment_id = Some sid, lc_keys = seen'\<rparr>"
    using assms(2) by (auto simp: old_def assign_new_keys_def Let_def split: prod.splits)
  have "btree_wf old" using assms(1) by (simp add: old_def)
  from assign_keys_loop_spec [OF this loop] obtain added where
    "btree_wf seen'" "records' = records @ map (listing_put sid) added" by (elim exE conjE)
  moreover have "listing_put sid = (\<lambda>k. lkey_put (ListK sid k, []))"
    by (simp add: fun_eq_iff listing_put_def lkey_put_def listing_entry_value_serialize_def)
  ultimately show "btree_wf (lc_keys l')" and "\<exists>added. records' = records @ map lkey_put (map (\<lambda>k. (ListK sid k, [])) added)"
    using l' by (auto simp: comp_def)
qed

section \<open>One append\<close>

text \<open>The state of the writer against the history: what storage holds, the caches, the allocator.\<close>

definition log_state_ok ::
    "view \<Rightarrow> sequence_allocator \<Rightarrow> segment_cache \<Rightarrow> listing_cache \<Rightarrow> history \<Rightarrow> bool" where
  "log_state_ok m a c l hist \<longleftrightarrow>
     alloc_wf a \<and> sa_key a = SEQ_BLOCK_KEY
     \<and> segs_ok (sc_segments c) (unat (peek_next_sequence a))
     \<and> hist_ok (sc_segments c) hist (unat (peek_next_sequence a))
     \<and> listing_ok l hist
     \<and> holds m (log_content (snd ` set (sc_segments c)) hist (current_block (sa_block a)))"

definition append_room :: "sequence_allocator \<Rightarrow> segment_cache \<Rightarrow> nat \<Rightarrow> bool" where
  "append_room a c n \<longleftrightarrow>
     reserved_end (current_block (sa_block a)) + max n 4096 < 2 ^ 64 \<and> Suc (length (sc_segments c)) < 2 ^ 32"

lemma add_entries_puts:
  "add_entries s base recs records = records @ map lkey_put (map (\<lambda>(s, e). (entry_lkey s e, le_value e)) (new_entries s base recs))"
  by (auto simp: add_entries_def new_entries_def entry_put_def lkey_put_def entry_lkey_def
      log_entry_key_serialize_def log_entry_key_new_def)

lemma new_entries_entry_distinct:
  assumes "unat (base :: u64) + length recs < 2 ^ 64"
  shows "distinct (map (\<lambda>(s, e). entry_lkey s e) (new_entries s base recs))"
  unfolding distinct_conv_nth
proof (intro allI impI)
  fix i j
  assume ij: "i < length (map (\<lambda>(s, e). entry_lkey s e) (new_entries s base recs))"
    "j < length (map (\<lambda>(s, e). entry_lkey s e) (new_entries s base recs))" "i \<noteq> j"
  then have len: "i < length recs" "j < length recs" by (simp_all add: new_entries_def)
  have "base + word_of_nat i \<noteq> base + word_of_nat j"
  proof
    assume "base + word_of_nat i = base + word_of_nat j"
    then have "unat base + i = unat base + j"
      by (simp only: new_sequence [OF assms len(1), symmetric] new_sequence [OF assms len(2), symmetric])
    with ij(3) show False by simp
  qed
  with len show "map (\<lambda>(s, e). entry_lkey s e) (new_entries s base recs) ! i
      \<noteq> map (\<lambda>(s, e). entry_lkey s e) (new_entries s base recs) ! j"
    by (simp add: new_entries_def nth_enumerate_eq entry_lkey_def)
qed

lemma batch_kvs_distinct:
  assumes "distinct added" and "distinct (map (\<lambda>(s, e). entry_lkey s e) fresh)"
  shows "distinct (map fst (batch_kvs blk seg sid added fresh))"
proof -
  have "map fst (batch_kvs blk seg sid added fresh) =
      (case blk of None \<Rightarrow> [] | Some _ \<Rightarrow> [BlockK]) @ (case seg of None \<Rightarrow> [] | Some s \<Rightarrow> [MetaK (seg_id s)])
      @ map (ListK sid) added @ map (\<lambda>(s, e). entry_lkey s e) fresh"
    by (auto simp: batch_kvs_def split: option.splits)
  moreover have "distinct (map (ListK sid) added)" using assms(1) by (simp add: distinct_map inj_on_def)
  ultimately show ?thesis
    using assms(2) by (auto simp: entry_lkey_def split: option.splits)
qed

lemma hist_entries_differ:
  assumes segs: "segs_ok segs n" and hist: "hist_ok segs (hist @ fresh) n'"
    and "(s, e) \<in> set fresh" and "(s', e') \<in> set hist"
  shows "entry_lkey s' e' \<noteq> entry_lkey s e"
proof
  assume eq: "entry_lkey s' e' = entry_lkey s e"
  from assms have "s \<in> snd ` set segs" "s' \<in> snd ` set segs" by (auto simp: hist_ok_def)
  with segs_ok_inj [OF segs] eq have "s' = s" by (simp add: entry_lkey_def)
  moreover have "le_sequence e' < le_sequence e"
    using assms by (fastforce simp: hist_ok_def sorted_wrt_append)
  ultimately show False using eq by (simp add: entry_lkey_def)
qed

lemma listing_ok_append:
  assumes "btree_wf (lc_keys l)" and "lc_current_segment_id l = Some (seg_id s)"
    and "\<forall>k. btree_get (lc_keys l) k \<noteq> None \<longrightarrow>
       k \<in> set (map ur_key recs) \<or> (\<exists>s' e. (s', e) \<in> set hist \<and> seg_id s' = seg_id s \<and> le_key e = k)"
  shows "listing_ok l (hist @ new_entries s base recs)"
  unfolding listing_ok_def
proof (intro conjI allI impI)
  fix k
  assume "btree_get (lc_keys l) k \<noteq> None"
  with assms(3) consider "k \<in> ur_key ` set recs" | s' e where "(s', e) \<in> set hist" "seg_id s' = seg_id s" "le_key e = k"
    by fastforce
  then show "\<exists>(s', e) \<in> set (hist @ new_entries s base recs). lc_current_segment_id l = Some (seg_id s') \<and> le_key e = k"
  proof cases
    case 1
    then obtain s' e where e: "(s', e) \<in> set (new_entries s base recs)" "le_key e = k"
      using new_entries_key by metis
    then have "s' = s" by (auto simp: new_entries_nth)
    with e assms(2) show ?thesis by (intro bexI [of _ "(s', e)"]) simp_all
  next
    case 2
    with assms(2) show ?thesis by (intro bexI [of _ "(s', e)"]) simp_all
  qed
qed (rule assms(1))

lemma append_batch:
  assumes ok: "log_state_ok m a c l hist" and room: "append_room a c (length recs)" and recs: "recs \<noteq> []"
    and al: "allocate a (word_of_nat (length recs)) = (a', base, r)"
    and asg: "assign_segment c t base (case r of Some x \<Rightarrow> [put_record_op_new_with_options x \<lparr>put_ttl = NoExpiry\<rparr>] | None \<Rightarrow> [])
        False = Some (c', records2, asg)"
    and keys: "assign_new_keys l (seg_id (sa_segment asg)) (map ur_key recs) records2 = (l', records3, nk)"
    and live: "live NoExpiry"
  shows "log_state_ok (fold (put_view live) (add_entries (sa_segment asg) base recs records3) m) a' c' l'
      (hist @ new_entries (sa_segment asg) base recs)"
    and "base = peek_next_sequence a"
    and "unat (peek_next_sequence a') = unat (peek_next_sequence a) + length recs"
    and "latest c' = Some (sa_segment asg)"
    and "\<exists>xs. sc_segments c' = sc_segments c @ xs"
proof -
  from ok have wf: "alloc_wf a" "sa_key a = SEQ_BLOCK_KEY"
    and segs: "segs_ok (sc_segments c) (unat (peek_next_sequence a))"
    and hist: "hist_ok (sc_segments c) hist (unat (peek_next_sequence a))"
    and listing: "listing_ok l hist"
    and holds: "holds m (log_content (snd ` set (sc_segments c)) hist (current_block (sa_block a)))"
    by (simp_all add: log_state_ok_def)
  have len: "unat (word_of_nat (length recs) :: u64) = length recs"
    using room by (intro unat_u64_of_nat) (auto simp: append_room_def max_def split: if_splits)
  have room': "reserved_end (current_block (sa_block a)) + max (unat (word_of_nat (length recs) :: u64)) 4096 < 2 ^ 64"
    "Suc (length (sc_segments c)) < 2 ^ 32"
    using room unfolding len append_room_def by simp_all
  note spec = allocate_spec [OF wf(1) room'(1) al, unfolded len]
  then show base: "base = peek_next_sequence a" and nxt: "unat (peek_next_sequence a') = unat (peek_next_sequence a) + length recs"
    by simp_all
  have fits: "unat base + length recs < 2 ^ 64"
    using unat_u64_less [of "peek_next_sequence a'"] nxt base by simp
  have "unat base < unat (peek_next_sequence a')" using nxt base recs by simp
  from assign_segment_ok [OF segs [folded base] room'(2) asg this]
  have segs': "segs_ok (sc_segments c') (unat (peek_next_sequence a'))"
    and s: "sa_segment asg \<in> snd ` set (sc_segments c')" "start_seq (seg_meta (sa_segment asg)) \<le> base"
    and top: "\<forall>s \<in> snd ` set (sc_segments c'). start_seq (seg_meta s) \<le> start_seq (seg_meta (sa_segment asg))"
    and sub: "snd ` set (sc_segments c') = snd ` set (sc_segments c) \<union> set_option (opened asg)"
    and new: "\<And>s. s \<in> set_option (opened asg) \<Longrightarrow> base \<le> start_seq (seg_meta s)"
      "\<And>s s'. s \<in> set_option (opened asg) \<Longrightarrow> s' \<in> snd ` set (sc_segments c) \<Longrightarrow> seg_id s' \<noteq> seg_id s"
    and lat: "latest c' = Some (sa_segment asg)" and ext: "\<exists>xs. sc_segments c' = sc_segments c @ xs"
    and records2: "records2 = (case r of Some x \<Rightarrow> [put_record_op_new_with_options x \<lparr>put_ttl = NoExpiry\<rparr>] | None \<Rightarrow> [])
      @ map lkey_put (case opened asg of None \<Rightarrow> [] | Some s \<Rightarrow> [(MetaK (seg_id s), segment_meta_serialize (seg_meta s))])"
    by (simp_all only: simp_thms) blast+
  show "latest c' = Some (sa_segment asg)" and "\<exists>xs. sc_segments c' = sc_segments c @ xs" by (fact lat ext)+
  let ?s = "sa_segment asg" and ?sid = "seg_id (sa_segment asg)" and ?fresh = "new_entries (sa_segment asg) base recs"
  define blk where "blk = (case r of None \<Rightarrow> None | Some _ \<Rightarrow> current_block (sa_block a'))"
  have blk_rec: "(case r of Some x \<Rightarrow> [put_record_op_new_with_options x \<lparr>put_ttl = NoExpiry\<rparr>] | None \<Rightarrow> [])
      = map lkey_put (case blk of None \<Rightarrow> [] | Some b \<Rightarrow> [(BlockK, seq_block_serialize b)])"
    and blk: "(case blk of None \<Rightarrow> current_block (sa_block a) | Some b \<Rightarrow> Some b) = current_block (sa_block a')"
    using spec wf(2) by (auto simp: blk_def lkey_put_def split: option.splits)
  obtain added where added: "records3 = records2 @ map (\<lambda>k. lkey_put (ListK ?sid k, [])) added" "distinct added"
    "set added \<subseteq> set (map ur_key recs)"
    "\<forall>k \<in> set (map ur_key recs). k \<in> set added \<or> (\<exists>s e. (s, e) \<in> set hist \<and> seg_id s = ?sid \<and> le_key e = k)"
    "btree_wf (lc_keys l')" "lc_current_segment_id l' = Some ?sid"
    "\<forall>k. btree_get (lc_keys l') k \<noteq> None \<longrightarrow>
       k \<in> set (map ur_key recs) \<or> (\<exists>s e. (s, e) \<in> set hist \<and> seg_id s = ?sid \<and> le_key e = k)"
    by (rule assign_new_keys_spec [OF listing keys])
  let ?kvs = "batch_kvs blk (opened asg) ?sid added ?fresh"
  have batch: "add_entries ?s base recs records3 = map lkey_put ?kvs"
    using records2 added(1) by (auto simp: add_entries_puts batch_kvs_def blk_rec comp_def)
  have hist': "hist_ok (sc_segments c') (hist @ ?fresh) (unat base + length recs)"
    using hist_ok_append [OF hist [folded base] fits sub new(1) s top] by simp
  have listing': "listing_ok l' (hist @ ?fresh)"
    by (rule listing_ok_append [OF added(5-7)])
  have content: "set ?kvs \<union> {xv \<in> log_content (snd ` set (sc_segments c)) hist (current_block (sa_block a)). fst xv \<notin> fst ` set ?kvs}
      = log_content (snd ` set (sc_segments c')) (hist @ ?fresh) (current_block (sa_block a'))"
    unfolding blk [symmetric] sub
  proof (rule content_append)
    show "seg_id s' \<noteq> seg_id s" if "opened asg = Some s" "s' \<in> snd ` set (sc_segments c)" for s s'
      using that new(2) by simp
    show "seg_id s = ?sid" if "(s, e) \<in> set ?fresh" for s e
      using that by (auto simp: new_entries_nth)
    show "\<exists>s e. (s, e) \<in> set ?fresh \<and> le_key e = k" if "k \<in> set added" for k
      using that added(3) new_entries_key [of k recs ?s base] by auto
    show "le_key e \<in> set added \<or> (\<exists>s' e'. (s', e') \<in> set hist \<and> seg_id s' = ?sid \<and> le_key e' = le_key e)"
      if "(s, e) \<in> set ?fresh" for s e
      using that added(4) new_entries_key [of "le_key e" recs ?s base] by auto
    show "entry_lkey s' e' \<noteq> entry_lkey s e" if "(s, e) \<in> set ?fresh" "(s', e') \<in> set hist" for s e s' e'
      by (rule hist_entries_differ [OF segs' hist' that])
  qed
  have "holds (fold (put_view live) (map lkey_put ?kvs) m)
      (log_content (snd ` set (sc_segments c')) (hist @ ?fresh) (current_block (sa_block a')))"
    using holds_put [where live = live and kvs = ?kvs, OF holds live batch_kvs_distinct [OF added(2) new_entries_entry_distinct [OF fits]]]
    unfolding content .
  then show "log_state_ok (fold (put_view live) (add_entries ?s base recs records3) m) a' c' l' (hist @ ?fresh)"
    unfolding batch log_state_ok_def using spec wf(2) segs' hist' listing' base by simp
qed

section \<open>The writer over a storage\<close>

lemma handle_append_cases:
  assumes "handle_append ops w lw = (w', x)" and "word_of_nat (length (lwr_records lw)) \<noteq> (0 :: u64)"
  obtains a base r c records2 asg l records3 nk u where
    "allocate (lw_sequence_allocator w) (word_of_nat (length (lwr_records lw))) = (a, base, r)"
    "assign_segment (lw_segment_cache w) (lwr_timestamp_ms lw) base
       (case r of Some x \<Rightarrow> [put_record_op_new_with_options x \<lparr>put_ttl = NoExpiry\<rparr>] | None \<Rightarrow> []) False
     = Some (c, records2, asg)"
    "assign_new_keys (lw_listing_cache w) (seg_id (sa_segment asg)) (map ur_key (lwr_records lw)) records2
     = (l, records3, nk)"
    "write_and_broadcast ops (w\<lparr>lw_sequence_allocator := a, lw_segment_cache := c, lw_listing_cache := l\<rparr>)
       (add_entries (sa_segment asg) base (lwr_records lw) records3) asg = (w', u)"
    "x = result_map (\<lambda>_. Some \<lparr>start_sequence = base\<rparr>) u"
proof -
  obtain a base r where al: "allocate (lw_sequence_allocator w) (word_of_nat (length (lwr_records lw))) = (a, base, r)"
    by (metis prod_cases3)
  let ?recs = "case r of Some x \<Rightarrow> [put_record_op_new_with_options x \<lparr>put_ttl = NoExpiry\<rparr>] | None \<Rightarrow> []"
  have "assign_segment (lw_segment_cache w) (lwr_timestamp_ms lw) base ?recs False \<noteq> None"
    by (auto simp: assign_segment_def Let_def should_roll_def split: option.splits)
  then obtain c records2 asg where as: "assign_segment (lw_segment_cache w) (lwr_timestamp_ms lw) base ?recs False
      = Some (c, records2, asg)" by fastforce
  obtain l records3 nk where keys: "assign_new_keys (lw_listing_cache w) (seg_id (sa_segment asg))
      (map ur_key (lwr_records lw)) records2 = (l, records3, nk)" by (metis prod_cases3)
  obtain w3 u where wb: "write_and_broadcast ops (w\<lparr>lw_sequence_allocator := a, lw_segment_cache := c, lw_listing_cache := l\<rparr>)
       (add_entries (sa_segment asg) base (lwr_records lw) records3) asg = (w3, u)" by fastforce
  from assms al as keys wb have "w' = w3" "x = result_map (\<lambda>_. Some \<lparr>start_sequence = base\<rparr>) u"
    by (auto simp: handle_append_def Let_def split: result.splits)
  with that al as keys wb show thesis by blast
qed

context storage_laws
begin

definition writer_inv :: "('s, 'r) log_writer \<Rightarrow> history \<Rightarrow> bool" where
  "writer_inv w hist \<longleftrightarrow>
     inv (lw_storage w)
     \<and> log_state_ok (view (lw_storage w)) (lw_sequence_allocator w) (lw_segment_cache w) (lw_listing_cache w) hist
     \<and> snap_inv (wv_snapshot (lw_written_tx w))
     \<and> snap_view (lw_storage w) (wv_snapshot (lw_written_tx w)) = view (lw_storage w)
     \<and> wv_epoch (lw_written_tx w) = lw_epoch w \<and> lw_written_watermark w = lw_epoch w
     \<and> wv_last_segment_id (lw_written_tx w) = map_option seg_id (latest (lw_segment_cache w))
     \<and> lw_last_segment_id w = map_option seg_id (latest (lw_segment_cache w))"

lemma write_and_broadcast_ok:
  assumes "inv (lw_storage w)" and "write_and_broadcast ops w records asg = (w', Ok u)"
  obtains s' r q where
    "w' = w\<lparr>lw_storage := s', lw_epoch := lw_epoch w + 1,
            lw_last_segment_id := (case opened asg of Some s \<Rightarrow> Some (seg_id s) | None \<Rightarrow> lw_last_segment_id w),
            lw_written_tx := \<lparr>wv_epoch = lw_epoch w + 1, wv_snapshot = r, wv_seqnum = q,
              wv_last_segment_id = (case opened asg of Some s \<Rightarrow> Some (seg_id s) | None \<Rightarrow> lw_last_segment_id w)\<rparr>,
            lw_written_watermark := lw_epoch w + 1\<rparr>"
    "inv s'" "view s' = fold (put_view (live (lw_storage w))) records (view (lw_storage w))"
    "snap_inv r" "snap_view s' r = view s'" "\<And>r. snap_view s' r = snap_view (lw_storage w) r"
proof -
  obtain s1 x where put: "op_put_with_options ops (lw_storage w) records \<lparr>await_durable = False\<rparr> = (s1, x)" by fastforce
  with assms(2) obtain y where x: "x = Ok y" by (cases x) (auto simp: write_and_broadcast_def)
  obtain s2 z where snap: "op_snapshot ops s1 = (s2, z)" by fastforce
  with assms(2) put x obtain r where z: "z = Ok r" by (cases z) (auto simp: write_and_broadcast_def)
  from put_ok [OF assms(1) put [unfolded x]] have s1: "inv s1"
    "view s1 = fold (put_view (live (lw_storage w))) records (view (lw_storage w))" by simp_all
  from snapshot_ok [OF s1(1) snap [unfolded z]] s1(2) have
    "inv s2" "view s2 = fold (put_view (live (lw_storage w))) records (view (lw_storage w))" "snap_inv r"
    "snap_view s2 r = view s2" by simp_all
  moreover have "snap_view s2 r = snap_view (lw_storage w) r" for r
    using put_snap [OF assms(1) put] snapshot_snap [OF s1(1) snap] by simp
  ultimately show thesis using assms(2) put x snap z
    by (intro that [where s' = s2 and r = r and q = "seqnum y"]) (auto simp: write_and_broadcast_def opened_def Let_def)
qed

lemma handle_append_ok:
  assumes w: "writer_inv w hist" and room: "append_room (lw_sequence_allocator w) (lw_segment_cache w) (length (lwr_records lw))"
    and app: "handle_append ops w lw = (w', Ok (Some out))"
  shows "start_sequence out = peek_next_sequence (lw_sequence_allocator w)
    \<and> (\<exists>s. writer_inv w' (hist @ new_entries s (start_sequence out) (lwr_records lw)))
    \<and> unat (peek_next_sequence (lw_sequence_allocator w')) =
        unat (peek_next_sequence (lw_sequence_allocator w)) + length (lwr_records lw)
    \<and> lw_epoch w' = lw_epoch w + 1
    \<and> (\<exists>xs. sc_segments (lw_segment_cache w') = sc_segments (lw_segment_cache w) @ xs)
    \<and> (\<forall>r. snap_view (lw_storage w') r = snap_view (lw_storage w) r)"
proof -
  let ?a = "lw_sequence_allocator w" and ?c = "lw_segment_cache w" and ?l = "lw_listing_cache w"
  let ?recs = "lwr_records lw"
  from app have nz: "word_of_nat (length ?recs) \<noteq> (0 :: u64)" by (auto simp: handle_append_def)
  then have recs: "?recs \<noteq> []" by auto
  from w have inv: "inv (lw_storage w)" and ok: "log_state_ok (view (lw_storage w)) ?a ?c ?l hist"
    and lat: "lw_last_segment_id w = map_option seg_id (latest ?c)" by (simp_all add: writer_inv_def)
  from app nz obtain a base r c records2 asg l records3 nk u where
    al: "allocate ?a (word_of_nat (length ?recs)) = (a, base, r)" and
    asg: "assign_segment ?c (lwr_timestamp_ms lw) base
       (case r of Some x \<Rightarrow> [put_record_op_new_with_options x \<lparr>put_ttl = NoExpiry\<rparr>] | None \<Rightarrow> []) False
     = Some (c, records2, asg)" and
    keys: "assign_new_keys ?l (seg_id (sa_segment asg)) (map ur_key ?recs) records2 = (l, records3, nk)" and
    wb: "write_and_broadcast ops (w\<lparr>lw_sequence_allocator := a, lw_segment_cache := c, lw_listing_cache := l\<rparr>)
       (add_entries (sa_segment asg) base ?recs records3) asg = (w', u)" and
    x: "Ok (Some out) = result_map (\<lambda>_. Some \<lparr>start_sequence = base\<rparr>) u"
    by (rule handle_append_cases)
  from x have u: "u = Ok ()" and out: "start_sequence out = base" by (cases u; simp)+
  note batch = append_batch [where live = "live (lw_storage w)", OF ok room recs al asg keys live_no_expiry [OF inv]]
  have last_id: "(case opened asg of Some s \<Rightarrow> Some (seg_id s) | None \<Rightarrow> lw_last_segment_id w) = map_option seg_id (latest c)"
    using batch(4) assign_segment_same [OF asg] lat by (auto simp: opened_def)
  show ?thesis
    using wb [unfolded u] inv batch out last_id
    by (elim write_and_broadcast_ok [rotated]) (auto simp: writer_inv_def split: option.splits)
qed

end

end
