(* ===== verification/Log_Reader.thy ===== *)
theory Log_Reader
  imports Log_Writer
begin

text \<open>
  Reading the log (\<open>log/src/reader.rs\<close>): the read view (a storage and its segment cache), the iterator
  over the covering segments, and the lists of keys and segments.  A scan of a storage that holds a
  history yields exactly the entries of the key in the range, in sequence order.
\<close>

section \<open>Definitions\<close>

record log_iterator =
  li_storage :: scanner
  li_segments :: "log_segment list"
  li_key :: bytes
  li_seq_range :: "u64 half_open"
  li_current_segment_idx :: nat
  li_current_iter :: "segment_iterator option"

definition log_iterator_open :: "scanner \<Rightarrow> segment_cache \<Rightarrow> bytes \<Rightarrow> u64 half_open \<Rightarrow> log_iterator" where
  "log_iterator_open scan cache key seq_range =
     \<lparr>li_storage = scan, li_segments = find_covering cache seq_range, li_key = key, li_seq_range = seq_range,
      li_current_segment_idx = 0, li_current_iter = None\<rparr>"

definition advance_segment :: "log_iterator \<Rightarrow> log_iterator \<times> (bool, log_error) result" where
  "advance_segment it =
     (if li_current_segment_idx it \<ge> length (li_segments it) then (it, Ok False)
      else
        case scan_entries (li_storage it) (li_segments it ! li_current_segment_idx it) (li_key it) (li_seq_range it) of
          Ok iter \<Rightarrow> (it\<lparr>li_current_iter := Some iter\<rparr>, Ok True)
        | Err e \<Rightarrow> (it, Err e)
        | Panic \<Rightarrow> (it, Panic))"

text \<open>
  The loop of \<open>LogIterator::next\<close>: every round but the last one moves to a later segment or opens the
  iterator of the current one.
\<close>

function log_iterator_next :: "log_iterator \<Rightarrow> log_iterator \<times> (log_entry option, log_error) result" where
  "log_iterator_next it =
     (let (it1, found) =
        (case li_current_iter it of
           None \<Rightarrow> (it, Ok None)
         | Some iter \<Rightarrow>
             (case segment_iterator_next iter of
                (iter', Ok None) \<Rightarrow>
                  (it\<lparr>li_current_iter := None, li_current_segment_idx := li_current_segment_idx it + 1\<rparr>, Ok None)
              | (iter', x) \<Rightarrow> (it\<lparr>li_current_iter := Some iter'\<rparr>, x)))
      in case found of
           Ok None \<Rightarrow>
             (case advance_segment it1 of
                (it2, Ok True) \<Rightarrow> log_iterator_next it2
              | (it2, Ok False) \<Rightarrow> (it2, Ok None)
              | (it2, Err e) \<Rightarrow> (it2, Err e)
              | (it2, Panic) \<Rightarrow> (it2, Panic))
         | x \<Rightarrow> (it1, x))"
  by pat_completeness auto
termination
  by (relation "measure (\<lambda>it. 2 * (length (li_segments it) - li_current_segment_idx it)
       + (if li_current_iter it = None then 1 else 0))")
     (auto simp: advance_segment_def split: option.splits prod.splits result.splits if_splits)

declare log_iterator_next.simps [simp del]

record log_read_view =
  rv_storage :: scanner
  rv_segments :: segment_cache

definition update_snapshot :: "log_read_view \<Rightarrow> scanner \<Rightarrow> log_read_view" where
  "update_snapshot rv snapshot = rv\<lparr>rv_storage := snapshot\<rparr>"

definition refresh_segments :: "log_read_view \<Rightarrow> segment_id option \<Rightarrow> (log_read_view, log_error) result" where
  "refresh_segments rv after_segment_id =
     result_bind (segment_cache_refresh (rv_segments rv) (rv_storage rv) after_segment_id)
       (\<lambda>cache. Ok (rv\<lparr>rv_segments := cache\<rparr>))"

definition view_scan :: "log_read_view \<Rightarrow> bytes \<Rightarrow> u64 half_open \<Rightarrow> log_iterator" where
  "view_scan rv key seq_range = log_iterator_open (rv_storage rv) (rv_segments rv) key seq_range"

text \<open>The iterator over the keys hands out the set in order; it is that list here.\<close>

definition view_list_keys :: "log_read_view \<Rightarrow> segment_id half_open \<Rightarrow> (bytes list, log_error) result" where
  "view_list_keys rv segment_range =
     result_bind (storage_list_keys (rv_storage rv) segment_range) (\<lambda>keys. Ok (map fst keys))"

record segment =
  segment_id :: segment_id
  segment_start_seq :: u64
  segment_start_time_ms :: i64

definition segment_from :: "log_segment \<Rightarrow> segment" where
  "segment_from s = \<lparr>segment_id = seg_id s, segment_start_seq = start_seq (seg_meta s),
     segment_start_time_ms = start_time_ms (seg_meta s)\<rparr>"

definition view_list_segments :: "log_read_view \<Rightarrow> u64 half_open \<Rightarrow> segment list" where
  "view_list_segments rv seq_range = map segment_from (find_covering (rv_segments rv) seq_range)"

text \<open>A tick of the refresh task of \<open>LogDbReader\<close>; on an error the cache stays.\<close>

definition reader_tick :: "log_read_view \<Rightarrow> log_read_view" where
  "reader_tick rv =
     (let after_segment_id = map_option seg_id (latest (rv_segments rv)) in
      case segment_cache_refresh (rv_segments rv) (rv_storage rv) after_segment_id of
        Ok cache \<Rightarrow> rv\<lparr>rv_segments := cache\<rparr>
      | _ \<Rightarrow> rv)"

definition log_db_reader_open :: "scanner \<Rightarrow> (log_read_view, log_error) result" where
  "log_db_reader_open scan =
     result_bind (segment_cache_open scan \<lparr>seal_interval = None\<rparr>) (\<lambda>segments.
       Ok \<lparr>rv_storage = scan, rv_segments = segments\<rparr>)"

section \<open>What an iterator yields\<close>

text \<open>The entries that calls of \<open>next\<close> return, up to the first \<^const>\<open>None\<close>.\<close>

inductive yields :: "log_iterator \<Rightarrow> log_entry list \<Rightarrow> bool" where
  finished: "log_iterator_next it = (it', Ok None) \<Longrightarrow> yields it []"
| entry: "log_iterator_next it = (it', Ok (Some e)) \<Longrightarrow> yields it' es \<Longrightarrow> yields it (e # es)"

inductive_cases yields_cases: "yields it es"

lemma yields_unique: "yields it es \<Longrightarrow> yields it es' \<Longrightarrow> es' = es"
proof (induction arbitrary: es' rule: yields.induct)
  case (finished it it')
  from finished.prems finished.hyps show ?case by (cases rule: yields.cases) simp_all
next
  case (entry it it' e es)
  from entry.prems entry.hyps(1) entry.IH show ?case by (cases rule: yields.cases) simp_all
qed

lemma yields_cong: "log_iterator_next it = log_iterator_next it' \<Longrightarrow> yields it es \<longleftrightarrow> yields it' es"
  by (subst (1 2) yields.simps) simp

definition entry_record :: "u64 \<Rightarrow> segment_id \<Rightarrow> log_entry \<Rightarrow> storage_record" where
  "entry_record st sid e =
     record_new (log_entry_key_serialize \<lparr>lek_segment_id = sid, lek_key = le_key e, lek_sequence = le_sequence e\<rparr> st) (le_value e)"

definition in_scan :: "bytes \<Rightarrow> u64 half_open \<Rightarrow> log_entry \<Rightarrow> bool" where
  "in_scan key rg e \<longleftrightarrow> le_key e = key \<and> ho_start rg \<le> le_sequence e \<and> le_sequence e < ho_end rg"

lemma segment_next_entry:
  assumes "in_scan key rg e"
  shows "segment_next_loop rg st (Ok (entry_record st sid e) # inner) = (inner, Ok (Some e))"
  using assms
  by (auto simp: entry_record_def record_new_def log_map_err_def log_entry_key_round_trip in_scan_def dest: leD)

lemma yields_segment:
  assumes "list_all (in_scan key rg) es"
    and "yields (it\<lparr>li_current_iter := None, li_current_segment_idx := Suc (li_current_segment_idx it)\<rparr>) rest"
  shows "yields (it\<lparr>li_current_iter := Some \<lparr>si_inner = map Ok (map (entry_record st sid) es), si_seq_range = rg,
      si_segment_start_seq = st\<rparr>\<rparr>) (es @ rest)"
  using assms
proof (induction es arbitrary: it)
  case Nil
  let ?it = "it\<lparr>li_current_iter := Some \<lparr>si_inner = [], si_seq_range = rg, si_segment_start_seq = st\<rparr>\<rparr>"
  have "log_iterator_next ?it = log_iterator_next (it\<lparr>li_current_iter := None, li_current_segment_idx := Suc (li_current_segment_idx it)\<rparr>)"
    by (subst (1 2) log_iterator_next.simps) (simp add: segment_iterator_next_def)
  from yields_cong [OF this, of rest] Nil show ?case by simp
next
  case (Cons e es)
  let ?iter = "\<lambda>es. \<lparr>si_inner = map Ok (map (entry_record st sid) es), si_seq_range = rg, si_segment_start_seq = st\<rparr>"
  have "log_iterator_next (it\<lparr>li_current_iter := Some (?iter (e # es))\<rparr>) = (it\<lparr>li_current_iter := Some (?iter es)\<rparr>, Ok (Some e))"
    using Cons.prems(1) segment_next_entry [of key rg e st sid]
    by (subst log_iterator_next.simps) (simp add: segment_iterator_next_def)
  with Cons show ?case by (auto intro: yields.entry)
qed

lemma yields_segments:
  assumes "\<And>s. s \<in> set (li_segments it) \<Longrightarrow>
      scan_entries (li_storage it) s (li_key it) (li_seq_range it) =
        Ok \<lparr>si_inner = map Ok (map (entry_record (start_seq (seg_meta s)) (seg_id s)) (E s)),
            si_seq_range = li_seq_range it, si_segment_start_seq = start_seq (seg_meta s)\<rparr>
      \<and> list_all (in_scan (li_key it) (li_seq_range it)) (E s)"
    and "li_current_iter it = None"
  shows "yields it (concat (map E (drop (li_current_segment_idx it) (li_segments it))))"
  using assms
proof (induction "length (li_segments it) - li_current_segment_idx it" arbitrary: it)
  case 0
  then have "log_iterator_next it = (it, Ok None)"
    by (subst log_iterator_next.simps) (simp add: advance_segment_def)
  with 0 show ?case by (auto intro: yields.finished)
next
  case (Suc n)
  let ?i = "li_current_segment_idx it"
  let ?s = "li_segments it ! ?i"
  from Suc.hyps(2) have i: "?i < length (li_segments it)" by simp
  then have mem: "?s \<in> set (li_segments it)" by simp
  note scan = Suc.prems(1) [OF mem]
  let ?it = "it\<lparr>li_current_iter := Some \<lparr>si_inner = map Ok (map (entry_record (start_seq (seg_meta ?s)) (seg_id ?s)) (E ?s)),
      si_seq_range = li_seq_range it, si_segment_start_seq = start_seq (seg_meta ?s)\<rparr>\<rparr>"
  let ?nx = "it\<lparr>li_current_iter := None, li_current_segment_idx := Suc ?i\<rparr>"
  have "yields ?nx (concat (map E (drop (li_current_segment_idx ?nx) (li_segments ?nx))))"
    using Suc.hyps(2) Suc.prems(1) by (intro Suc.hyps(1)) simp_all
  then have "yields ?it (E ?s @ concat (map E (drop (Suc ?i) (li_segments it))))"
    using scan by (intro yields_segment [of "li_key it"]) simp_all
  moreover have nx: "log_iterator_next it = log_iterator_next ?it"
    using Suc.prems(2) i scan by (subst log_iterator_next.simps) (simp add: advance_segment_def)
  ultimately show ?case
    unfolding yields_cong [OF nx] using i by (simp add: Cons_nth_drop_Suc [symmetric])
qed

section \<open>Scans of a storage that holds a history\<close>

definition scanner_ok :: "view \<Rightarrow> scanner \<Rightarrow> bool" where
  "scanner_ok m scan \<longleftrightarrow> (\<forall>rg. range_ok rg \<longrightarrow> (\<exists>rs. scan rg = Ok (map Ok rs) \<and> lists_view m rg rs))"

lemma scanner_lists:
  "scanner_ok m scan \<Longrightarrow> range_ok rg \<Longrightarrow> lists_view m rg rs \<Longrightarrow> scan rg = Ok (map Ok rs)"
  by (metis scanner_ok_def lists_view_unique)

lemma holds_lists:
  assumes "holds m C" and "sorted_wrt (<) (map rec_key rs)"
    and "\<And>K v. \<lparr>rec_key = K, rec_value = v\<rparr> \<in> set rs \<longleftrightarrow> (\<exists>x. K = lkey_bytes x \<and> (x, v) \<in> C \<and> range_contains rg K)"
  shows "lists_view m rg rs"
  using assms by (auto simp: lists_view_def holds_def) (metis storage_record.surjective unit_eq)+

lemma lkey_bytes_other:
  "\<not> range_contains (log_entry_scan_range s key rg) (lkey_bytes (MetaK i))"
  "\<not> range_contains (log_entry_scan_range s key rg) (lkey_bytes (ListK i k))"
  "\<not> range_contains (log_entry_scan_range s key rg) (lkey_bytes BlockK)"
  "\<not> range_contains (segment_meta_scan_range ids) (lkey_bytes (EntryK i k q))"
  "\<not> range_contains (segment_meta_scan_range ids) (lkey_bytes (ListK i k))"
  "\<not> range_contains (segment_meta_scan_range ids) (lkey_bytes BlockK)"
  "\<not> range_contains (listing_scan_range ids) (lkey_bytes (EntryK i k q))"
  "\<not> range_contains (listing_scan_range ids) (lkey_bytes (MetaK i))"
  "\<not> range_contains (listing_scan_range ids) (lkey_bytes BlockK)"
  using lkey_bytes_prefix [of "MetaK i"] lkey_bytes_prefix [of "ListK i k"] lkey_bytes_prefix [of BlockK]
    lkey_bytes_prefix [of "EntryK i k q"]
  by (auto simp del: lkey_bytes.simps
      simp: log_entry_scan_range_other segment_meta_scan_range_other listing_scan_range_other)

lemma EntryK_bytes:
  "lkey_bytes (EntryK i k q) = log_entry_key_serialize \<lparr>lek_segment_id = i, lek_key = k, lek_sequence = q\<rparr> 0"
  by (simp add: log_entry_key_serialize_def)

lemma entry_record_key: "rec_key (entry_record (start_seq (seg_meta s)) (seg_id s) e) = lkey_bytes (entry_lkey s e)"
  by (simp add: entry_record_def record_new_def entry_lkey_def log_entry_key_serialize_def)

lemma entry_range_contains:
  assumes "start_seq (seg_meta s') \<le> le_sequence e" and "seg_id s' = seg_id s \<longleftrightarrow> s' = s"
  shows "range_contains (log_entry_scan_range s key rg) (lkey_bytes (entry_lkey s' e)) \<longleftrightarrow> s' = s \<and> in_scan key rg e"
  using relative_bounds [OF assms(1), of "ho_start rg"] relative_bounds [OF assms(1), of "ho_end rg"] assms(2)
  unfolding entry_lkey_def EntryK_bytes log_entry_scan_range_contains in_scan_def by auto

lemma entry_key_mono:
  assumes "start_seq (seg_meta s) \<le> le_sequence e" and "le_sequence e < le_sequence e'" and "le_key e = le_key e'"
  shows "lkey_bytes (entry_lkey s e) < lkey_bytes (entry_lkey s e')"
proof -
  have "le_sequence e - start_seq (seg_meta s) < le_sequence e' - start_seq (seg_meta s)"
    using assms(1,2) by (auto simp: word_le_nat_alt word_less_nat_alt unat_sub)
  with assms(3) show ?thesis unfolding entry_lkey_def EntryK_bytes log_entry_key_less_iff by simp
qed

text \<open>The entries of a segment that a scan of a key and a range returns.\<close>

definition segment_entries :: "history \<Rightarrow> bytes \<Rightarrow> u64 half_open \<Rightarrow> log_segment \<Rightarrow> log_entry list" where
  "segment_entries hist key rg s = map snd (filter (\<lambda>(s', e). s' = s \<and> in_scan key rg e) hist)"

lemma entry_scan_range_ok: "ho_start rg \<le> ho_end rg \<Longrightarrow> range_ok (log_entry_scan_range s key rg)"
proof -
  assume le: "ho_start rg \<le> ho_end rg"
  then have "saturating_sub (ho_start rg) (start_seq (seg_meta s)) \<le> saturating_sub (ho_end rg) (start_seq (seg_meta s))"
    by (auto simp: word_le_nat_alt)
  then show ?thesis
    by (simp add: range_ok_def log_entry_scan_range_def range_defs build_scan_key_def Let_def key_order_simps not_less)
qed

lemma lists_segment_entries:
  assumes m: "holds m (log_content (snd ` set segs) hist blk)" and segs: "segs_ok segs n" and hist: "hist_ok segs hist n"
    and s: "s \<in> snd ` set segs"
  shows "lists_view m (log_entry_scan_range s key rg)
    (map (entry_record (start_seq (seg_meta s)) (seg_id s)) (segment_entries hist key rg s))"
proof (rule holds_lists [OF m])
  let ?rs = "map (entry_record (start_seq (seg_meta s)) (seg_id s)) (segment_entries hist key rg s)"
  have start: "start_seq (seg_meta s') \<le> le_sequence e" "seg_id s' = seg_id s \<longleftrightarrow> s' = s" if "(s', e) \<in> set hist" for s' e
    using that hist segs_ok_inj [OF segs _ s, of s'] by (auto simp: hist_ok_def)
  have "sorted_wrt (\<lambda>(s, e) (s', e'). le_sequence e < le_sequence e') (filter (\<lambda>(s', e). s' = s \<and> in_scan key rg e) hist)"
    using hist by (simp add: hist_ok_def sorted_wrt_map sorted_wrt_filter case_prod_unfold)
  then have "sorted_wrt (\<lambda>(s1, e1) (s2, e2). lkey_bytes (entry_lkey s e1) < lkey_bytes (entry_lkey s e2))
      (filter (\<lambda>(s', e). s' = s \<and> in_scan key rg e) hist)"
    by (rule sorted_wrt_mono_rel [rotated]) (auto simp: start in_scan_def intro: entry_key_mono)
  then show "sorted_wrt (<) (map rec_key ?rs)"
    by (simp add: segment_entries_def sorted_wrt_map comp_def entry_record_key case_prod_unfold)
  fix K v
  show "\<lparr>rec_key = K, rec_value = v\<rparr> \<in> set ?rs \<longleftrightarrow> (\<exists>x. K = lkey_bytes x \<and>
      (x, v) \<in> log_content (snd ` set segs) hist blk \<and> range_contains (log_entry_scan_range s key rg) K)"
    (is "?L \<longleftrightarrow> ?R")
  proof
    assume ?L
    then obtain e where e: "(s, e) \<in> set hist" "in_scan key rg e" "K = lkey_bytes (entry_lkey s e)" "v = le_value e"
      using entry_record_key [of s] by (auto simp: segment_entries_def entry_record_def record_new_def)
    with entry_range_contains [OF start [OF e(1)]] show ?R
      by (intro exI [of _ "entry_lkey s e"]) (force simp: log_content_def)
  next
    assume ?R
    then obtain s' e where e: "(s', e) \<in> set hist" "K = lkey_bytes (entry_lkey s' e)" "v = le_value e"
        "range_contains (log_entry_scan_range s key rg) (lkey_bytes (entry_lkey s' e))"
      by (auto simp: log_content_def lkey_bytes_other simp del: lkey_bytes.simps)
    with entry_range_contains [OF start [OF e(1)]] have "s' = s" "in_scan key rg e" by simp_all
    with e show ?L
      using entry_record_key [of s e]
      by (force simp: segment_entries_def entry_record_def record_new_def)
  qed
qed

lemma sorted_wrt_concat:
  "sorted_wrt (\<lambda>xs ys. \<forall>x \<in> set xs. \<forall>y \<in> set ys. P x y) xss \<Longrightarrow> \<forall>xs \<in> set xss. sorted_wrt P xs \<Longrightarrow> sorted_wrt P (concat xss)"
  by (induction xss) (auto simp: sorted_wrt_append)

lemma sorted_wrt_unique:
  fixes f :: "'a \<Rightarrow> 'b::linorder"
  assumes "sorted_wrt (\<lambda>x y. f x < f y) xs" and "sorted_wrt (\<lambda>x y. f x < f y) ys" and "set xs = set ys"
  shows "xs = ys"
proof (rule map_sorted_distinct_set_unique [of f])
  have "sorted_wrt (<) (map f xs)" "sorted_wrt (<) (map f ys)" using assms by (simp_all add: sorted_wrt_map)
  then show d: "sorted (map f xs)" "distinct (map f xs)" "sorted (map f ys)" "distinct (map f ys)"
    by (simp_all add: strict_sorted_iff)
  then show "inj_on f (set xs \<union> set ys)" using assms(3) by (simp add: distinct_map)
qed (rule assms(3))

lemma segs_nth_less:
  assumes "segs_ok segs n" and "i < j" and "j < length segs"
  shows "start_seq (seg_meta (snd (segs ! i))) < start_seq (seg_meta (snd (segs ! j)))"
proof -
  have "fst (segs ! i) < fst (segs ! j)"
    using assms sorted_wrt_nth_less [of "(<)" "map fst segs" i j] by (simp add: segs_ok_def btree_wf_def)
  with assms show ?thesis by (simp add: segs_ok_def)
qed

lemma covering_sorted:
  assumes "segs_ok segs n"
  shows "sorted_wrt (\<lambda>s s'. start_seq (seg_meta s) < start_seq (seg_meta s')) (covering a b segs)"
proof -
  let ?Q = "\<lambda>i. fst (segs ! i) < b \<and> (Suc i < length segs \<longrightarrow> a < fst (segs ! Suc i))"
  have "sorted_wrt (<) (filter ?Q [0..<length segs])" by (rule sorted_wrt_filter) simp
  then have "sorted_wrt (\<lambda>i j. start_seq (seg_meta (snd (segs ! i))) < start_seq (seg_meta (snd (segs ! j))))
      (filter ?Q [0..<length segs])"
    by (rule sorted_wrt_mono_rel [rotated]) (auto intro: segs_nth_less [OF assms])
  then show ?thesis by (simp add: covering_nth sorted_wrt_map)
qed

lemma covering_subset: "set (covering a b segs) \<subseteq> snd ` set segs"
  by (auto simp: covering_nth)

lemma covering_complete:
  assumes segs: "segs_ok segs n" and hist: "hist_ok segs hist n" and e: "(s, e) \<in> set hist" "a \<le> le_sequence e" "le_sequence e < b"
  shows "s \<in> set (covering a b segs)"
proof -
  from hist e(1) have s: "s \<in> snd ` set segs" "start_seq (seg_meta s) \<le> le_sequence e"
    and before: "\<forall>s' \<in> snd ` set segs. start_seq (seg_meta s) < start_seq (seg_meta s') \<longrightarrow> le_sequence e < start_seq (seg_meta s')"
    by (auto simp: hist_ok_def)
  from s(1) obtain i where i: "i < length segs" "s = snd (segs ! i)" by (auto simp: in_set_conv_nth)
  have fst_eq: "fst (segs ! j) = start_seq (seg_meta (snd (segs ! j)))" if "j < length segs" for j
    using that segs by (simp add: segs_ok_def)
  have "fst (segs ! i) < b" using i s(2) e(3) fst_eq by (auto intro: le_less_trans)
  moreover have "a < fst (segs ! Suc i)" if "Suc i < length segs"
    using before segs_nth_less [OF segs lessI that] i(2) that e(2) fst_eq [OF that] by (auto intro: le_less_trans)
  ultimately show ?thesis using i by (auto simp: covering_nth)
qed

lemma covering_entries:
  assumes segs: "segs_ok segs n" and hist: "hist_ok segs hist n"
  shows "concat (map (segment_entries hist key rg) (covering (ho_start rg) (ho_end rg) segs)) = filter (in_scan key rg) (map snd hist)"
    (is "?L = ?R")
proof -
  let ?less = "\<lambda>e e'. le_sequence e < le_sequence e'"
  have mem: "e \<in> set (segment_entries hist key rg s) \<longleftrightarrow> (s, e) \<in> set hist \<and> in_scan key rg e" for s e
    by (force simp: segment_entries_def)
  have cov: "s \<in> set (covering (ho_start rg) (ho_end rg) segs)" if "(s, e) \<in> set hist" "in_scan key rg e" for s e
    using covering_complete [OF segs hist that(1)] that(2) by (simp add: in_scan_def)
  have set_eq: "set ?L = set ?R"
  proof (rule set_eqI)
    fix e
    have "e \<in> set ?L \<longleftrightarrow> (\<exists>s \<in> set (covering (ho_start rg) (ho_end rg) segs). (s, e) \<in> set hist \<and> in_scan key rg e)"
      by (simp add: mem)
    also have "\<dots> \<longleftrightarrow> (\<exists>s. (s, e) \<in> set hist) \<and> in_scan key rg e" using cov by blast
    also have "\<dots> \<longleftrightarrow> e \<in> set ?R" by force
    finally show "e \<in> set ?L \<longleftrightarrow> e \<in> set ?R" .
  qed
  have base: "sorted_wrt (\<lambda>x y. le_sequence (snd x) < le_sequence (snd y)) hist"
    using hist by (simp add: hist_ok_def sorted_wrt_map case_prod_unfold)
  then have R: "sorted_wrt ?less ?R" by (simp add: sorted_wrt_filter sorted_wrt_map)
  have across: "?less e e'"
    if "s' \<in> set (covering (ho_start rg) (ho_end rg) segs)" "start_seq (seg_meta s) < start_seq (seg_meta s')"
      "(s, e) \<in> set hist" "(s', e') \<in> set hist" for s s' e e'
  proof -
    from that(1) covering_subset have "s' \<in> snd ` set segs" by blast
    with that(2,3) hist have "le_sequence e < start_seq (seg_meta s')" by (auto simp: hist_ok_def)
    also have "\<dots> \<le> le_sequence e'" using that(4) hist by (auto simp: hist_ok_def)
    finally show ?thesis .
  qed
  have L: "sorted_wrt ?less ?L"
  proof (rule sorted_wrt_concat)
    have "sorted_wrt ?less (segment_entries hist key rg s)" for s
      unfolding segment_entries_def sorted_wrt_map by (rule sorted_wrt_filter [OF base])
    then show "\<forall>xs \<in> set (map (segment_entries hist key rg) (covering (ho_start rg) (ho_end rg) segs)). sorted_wrt ?less xs"
      by simp
    show "sorted_wrt (\<lambda>xs ys. \<forall>x \<in> set xs. \<forall>y \<in> set ys. ?less x y)
        (map (segment_entries hist key rg) (covering (ho_start rg) (ho_end rg) segs))"
      unfolding sorted_wrt_map
      by (rule sorted_wrt_mono_rel [OF _ covering_sorted [OF segs]]) (simp add: mem across)
  qed
  show ?thesis
    using sorted_wrt_unique [OF L R set_eq] by simp
qed

text \<open>The scan of a key over a range, on a read view whose cache has the segments of the history.\<close>

lemma scan_yields:
  assumes scan: "scanner_ok m scan" and m: "holds m (log_content (snd ` set segs) hist blk)"
    and segs: "segs_ok segs n" "sc_segments c = segs" and hist: "hist_ok segs hist n"
  shows "yields (log_iterator_open scan c key rg) (filter (in_scan key rg) (map snd hist))"
proof -
  let ?it = "log_iterator_open scan c key rg"
  have cov: "find_covering c rg = (if ho_start rg \<ge> ho_end rg then [] else covering (ho_start rg) (ho_end rg) segs)"
    using segs find_covering_eq [of c rg] by (simp add: segs_ok_def)
  have "yields ?it (concat (map (segment_entries hist key rg) (drop (li_current_segment_idx ?it) (li_segments ?it))))"
  proof (rule yields_segments)
    fix s
    assume "s \<in> set (li_segments ?it)"
    then have le: "ho_start rg \<le> ho_end rg" and s: "s \<in> snd ` set segs"
      using covering_subset [of "ho_start rg" "ho_end rg" segs]
      by (auto simp: log_iterator_open_def cov split: if_splits)
    from scanner_lists [OF scan entry_scan_range_ok [OF le] lists_segment_entries [OF m segs(1) hist s]]
    show "scan_entries (li_storage ?it) s (li_key ?it) (li_seq_range ?it) =
        Ok \<lparr>si_inner = map Ok (map (entry_record (start_seq (seg_meta s)) (seg_id s)) (segment_entries hist key rg s)),
            si_seq_range = li_seq_range ?it, si_segment_start_seq = start_seq (seg_meta s)\<rparr>
      \<and> list_all (in_scan (li_key ?it) (li_seq_range ?it)) (segment_entries hist key rg s)"
      by (auto simp: scan_entries_def log_iterator_open_def log_from_err_def list_all_iff segment_entries_def)
  qed (simp add: log_iterator_open_def)
  moreover have "filter (in_scan key rg) (map snd hist) = []" if "ho_start rg \<ge> ho_end rg"
    using that by (auto simp: filter_empty_conv in_scan_def)
  ultimately show ?thesis
    using covering_entries [OF segs(1) hist, of key rg] by (auto simp: log_iterator_open_def cov)
qed

subsection \<open>Loading the segments\<close>

definition meta_record :: "log_segment \<Rightarrow> storage_record" where
  "meta_record s = \<lparr>rec_key = segment_meta_key_serialize (seg_id s), rec_value = segment_meta_serialize (seg_meta s)\<rparr>"

lemma meta_less: "segment_meta_key_serialize i < segment_meta_key_serialize j \<longleftrightarrow> i < j"
  by (simp add: segment_meta_key_serialize_def u32_field.fld_mono_iff)

lemma segs_id_less:
  assumes "segs_ok segs n" and "i < j" and "j < length segs"
  shows "seg_id (snd (segs ! i)) < seg_id (snd (segs ! j))"
  using assms unat_u32_of_nat [of i] unat_u32_of_nat [of j] by (simp add: segs_ok_def word_less_nat_alt)

lemma segment_meta_range_ok: "ho_start ids \<le> ho_end ids \<Longrightarrow> range_ok (segment_meta_scan_range ids)"
  by (simp add: range_ok_def segment_meta_scan_range_def range_defs meta_less not_less)

lemma lists_segment_metas:
  assumes m: "holds m (log_content (snd ` set segs) hist blk)" and segs: "segs_ok segs n"
  shows "lists_view m (segment_meta_scan_range ids)
    (map meta_record (filter (\<lambda>s. ho_start ids \<le> seg_id s \<and> seg_id s < ho_end ids) (map snd segs)))"
proof (rule holds_lists [OF m])
  let ?P = "\<lambda>s. ho_start ids \<le> seg_id s \<and> seg_id s < ho_end ids"
  have "sorted_wrt (\<lambda>s s'. seg_id s < seg_id s') (map snd segs)"
    using segs_id_less [OF segs] by (simp add: sorted_wrt_iff_nth_less)
  then show "sorted_wrt (<) (map rec_key (map meta_record (filter ?P (map snd segs))))"
    by (simp add: sorted_wrt_map sorted_wrt_filter comp_def meta_record_def meta_less)
  fix K v
  show "\<lparr>rec_key = K, rec_value = v\<rparr> \<in> set (map meta_record (filter ?P (map snd segs))) \<longleftrightarrow>
    (\<exists>x. K = lkey_bytes x \<and> (x, v) \<in> log_content (snd ` set segs) hist blk \<and> range_contains (segment_meta_scan_range ids) K)"
    (is "?L \<longleftrightarrow> ?R")
  proof
    assume ?L
    then obtain s where "s \<in> snd ` set segs" "?P s" "K = lkey_bytes (MetaK (seg_id s))" "v = segment_meta_serialize (seg_meta s)"
      by (auto simp: meta_record_def)
    then show ?R by (intro exI [of _ "MetaK (seg_id s)"]) (auto simp: log_content_def segment_meta_scan_range_contains)
  next
    assume ?R
    then obtain s where "s \<in> snd ` set segs" "K = lkey_bytes (MetaK (seg_id s))" "v = segment_meta_serialize (seg_meta s)"
        "range_contains (segment_meta_scan_range ids) (lkey_bytes (MetaK (seg_id s)))"
      by (auto simp: log_content_def entry_lkey_def lkey_bytes_other simp del: lkey_bytes.simps)
    then show ?L by (force simp: meta_record_def segment_meta_scan_range_contains)
  qed
qed

lemma scan_segments_loop_metas: "scan_segments_loop acc (map Ok (map meta_record ss)) = Ok (acc @ ss)"
  by (induction ss arbitrary: acc)
     (simp_all add: log_from_err_def meta_record_def segment_meta_key_round_trip segment_meta_round_trip)

lemma scan_segments_eq:
  assumes "scanner_ok m scan" and "holds m (log_content (snd ` set segs) hist blk)" and "segs_ok segs n"
    and "ho_start ids \<le> ho_end ids"
  shows "scan_segments scan ids = Ok (filter (\<lambda>s. ho_start ids \<le> seg_id s \<and> seg_id s < ho_end ids) (map snd segs))"
  using scanner_lists [OF assms(1) segment_meta_range_ok [OF assms(4)] lists_segment_metas [OF assms(2,3)]]
  by (simp add: scan_segments_def log_from_err_def scan_segments_loop_metas del: map_map)

lemma load_segments_append:
  assumes "segs_ok (xs @ ys) n"
  shows "load_segments (map snd ys) xs = xs @ ys"
  using assms
proof (induction ys arbitrary: xs)
  case (Cons y ys)
  obtain k s where y: "y = (k, s)" by fastforce
  have "start_seq (seg_meta s) = k" using segs_okD(1) [OF Cons.prems, of k s] y by simp
  moreover have "btree_insert k s xs = xs @ [(k, s)]"
    using Cons.prems y by (intro btree_insert_last) (auto simp: segs_ok_def btree_wf_def sorted_wrt_append)
  ultimately show ?case using Cons.IH [of "xs @ [y]"] Cons.prems y by (simp add: load_segments_def)
qed (simp add: load_segments_def)

lemma segs_id_nth: "segs_ok segs n \<Longrightarrow> i < length segs \<Longrightarrow> unat (seg_id (snd (segs ! i))) = i"
  using unat_u32_of_nat [of i] by (simp add: segs_ok_def)

lemma segs_ids_from:
  assumes "segs_ok segs n" and "unat a = j"
  shows "filter (\<lambda>s. a \<le> seg_id s \<and> seg_id s < u32_max) (map snd segs) = map snd (drop j segs)"
proof -
  have id: "a \<le> seg_id (snd (segs ! i)) \<longleftrightarrow> j \<le> i" "seg_id (snd (segs ! i)) < u32_max" if "i < length segs" for i
    using that segs_id_nth [OF assms(1) that] assms
    by (simp_all add: word_le_nat_alt word_less_nat_alt segs_ok_def unat_max_word)
  have "filter (\<lambda>s. a \<le> seg_id s \<and> seg_id s < u32_max) (map snd (take j segs)) = []"
    unfolding filter_empty_conv all_set_conv_all_nth by (simp add: id)
  moreover have "filter (\<lambda>s. a \<le> seg_id s \<and> seg_id s < u32_max) (map snd (drop j segs)) = map snd (drop j segs)"
    unfolding filter_id_conv all_set_conv_all_nth by (simp add: id)
  moreover have split: "map snd segs = map snd (take j segs) @ map snd (drop j segs)" by (simp flip: map_append)
  ultimately show ?thesis by (simp only: split filter_append append_Nil)
qed

lemma segment_cache_open_ok:
  assumes "scanner_ok m scan" and "holds m (log_content (snd ` set segs) hist blk)" and "segs_ok segs n"
  shows "segment_cache_open scan cfg = Ok \<lparr>sc_segments = segs, sc_config = cfg\<rparr>"
  using scan_segments_eq [OF assms, of "\<lparr>ho_start = 0, ho_end = u32_max\<rparr>"] segs_ids_from [OF assms(3), of 0 0]
    load_segments_append [of "[]" segs n] assms(3)
  by (simp add: segment_cache_open_def)

lemma segment_cache_refresh_ok:
  assumes "scanner_ok m scan" and "holds m (log_content (snd ` set segs) hist blk)" and segs: "segs_ok segs n"
    and c: "sc_segments c = take j segs" "j \<le> length segs" and known: "known = map_option seg_id (latest c)"
  shows "segment_cache_refresh c scan known = Ok (c\<lparr>sc_segments := segs\<rparr>)"
proof (cases "take j segs = []")
  case True
  then have "known = None" using c(1) known by (simp add: latest_eq)
  with scan_segments_eq [OF assms(1-3), of "\<lparr>ho_start = 0, ho_end = u32_max\<rparr>"] segs_ids_from [OF segs, of 0 0]
    load_segments_append [of "[]" segs n] segs show ?thesis
    by (simp add: segment_cache_refresh_def)
next
  case False
  then have j: "j > 0" "j - 1 < length segs" using c(2) by auto
  with c known have known: "known = Some (seg_id (snd (segs ! (j - 1))))"
    using False by (simp add: latest_eq last_conv_nth min_def)
  have len: "length segs < 2 ^ 32" using segs by (simp add: segs_ok_def)
  let ?a = "saturating_add (seg_id (snd (segs ! (j - 1)))) 1"
  have a: "unat ?a = j"
    using segs_id_nth [OF segs j(2)] j len by (simp add: unat_max_word)
  have "?a \<le> u32_max" using a j len by (simp add: word_le_nat_alt unat_max_word)
  with scan_segments_eq [OF assms(1-3), of "\<lparr>ho_start = ?a, ho_end = u32_max\<rparr>"] segs_ids_from [OF segs a]
  have "scan_segments scan \<lparr>ho_start = ?a, ho_end = u32_max\<rparr> = Ok (map snd (drop j segs))" by simp
  with known c load_segments_append [of "take j segs" "drop j segs" n] segs show ?thesis
    by (simp add: segment_cache_refresh_def)
qed

subsection \<open>Keys\<close>

lemma list_keys_loop_ok:
  assumes "btree_wf keys"
    and "list_all (\<lambda>r. \<exists>i k. rec_key r = lkey_bytes (ListK i k)) rs"
  shows "\<exists>keys'. list_keys_loop keys (map Ok rs) = Ok keys' \<and> btree_wf keys'
    \<and> fst ` set keys' = fst ` set keys \<union> {k. \<exists>r \<in> set rs. \<exists>i. rec_key r = lkey_bytes (ListK i k)}"
  using assms
proof (induction rs arbitrary: keys)
  case (Cons r rs)
  then obtain i k where r: "rec_key r = lkey_bytes (ListK i k)" by auto
  have "list_keys_loop keys (map Ok (r # rs)) = list_keys_loop (btree_insert k () keys) (map Ok rs)"
    using r by (simp add: log_map_err_def listing_entry_key_round_trip)
  moreover have "{k'. \<exists>r' \<in> set (r # rs). \<exists>i. rec_key r' = lkey_bytes (ListK i k')}
      = insert k {k'. \<exists>r' \<in> set rs. \<exists>i. rec_key r' = lkey_bytes (ListK i k')}"
    using r by (auto simp del: lkey_bytes.simps)
  ultimately show ?case
    using Cons.IH [of "btree_insert k () keys"] Cons.prems by (simp del: lkey_bytes.simps)
qed simp

lemma list_keys_ok:
  assumes scan: "scanner_ok m scan" and m: "holds m (log_content (snd ` set segs) hist blk)"
  shows "\<exists>keys. storage_list_keys scan ids = Ok keys \<and> btree_wf keys
    \<and> fst ` set keys = {le_key e | s e. (s, e) \<in> set hist \<and> ho_start ids \<le> seg_id s \<and> seg_id s < ho_end ids}"
proof (cases "ho_start ids \<ge> ho_end ids")
  case True
  then show ?thesis by (auto simp: storage_list_keys_def)
next
  case False
  then have "ho_start ids < ho_end ids" by simp
  then have "range_ok (listing_scan_range ids)"
    by (simp add: range_ok_def listing_scan_range_def segment_prefix_def range_defs u32_field.fld_mono_iff not_less less_imp_le)
  with scan obtain rs where rs: "scan (listing_scan_range ids) = Ok (map Ok rs)" "lists_view m (listing_scan_range ids) rs"
    by (auto simp: scanner_ok_def)
  have mem: "r \<in> set rs \<longleftrightarrow> (\<exists>s e. (s, e) \<in> set hist \<and> rec_key r = lkey_bytes (ListK (seg_id s) (le_key e))
      \<and> rec_value r = [] \<and> ho_start ids \<le> seg_id s \<and> seg_id s < ho_end ids)" for r
  proof -
    have "r \<in> set rs \<longleftrightarrow> (\<exists>x. rec_key r = lkey_bytes x \<and> (x, rec_value r) \<in> log_content (snd ` set segs) hist blk
        \<and> range_contains (listing_scan_range ids) (lkey_bytes x))"
      using rs(2) m by (auto simp: lists_view_def holds_def simp del: lkey_bytes.simps)
    also have "\<dots> \<longleftrightarrow> (\<exists>s e. (s, e) \<in> set hist \<and> rec_key r = lkey_bytes (ListK (seg_id s) (le_key e))
      \<and> rec_value r = [] \<and> range_contains (listing_scan_range ids) (lkey_bytes (ListK (seg_id s) (le_key e))))"
      by (force simp: log_content_def entry_lkey_def lkey_bytes_other simp del: lkey_bytes.simps)
    finally show ?thesis by (simp add: listing_scan_range_contains)
  qed
  have "list_all (\<lambda>r. \<exists>i k. rec_key r = lkey_bytes (ListK i k)) rs"
    using mem by (auto simp: list_all_iff simp del: lkey_bytes.simps)
  from list_keys_loop_ok [OF _ this, of "[]"] obtain keys where
    keys: "list_keys_loop [] (map Ok rs) = Ok keys" "btree_wf keys"
      "fst ` set keys = {k. \<exists>r \<in> set rs. \<exists>i. rec_key r = lkey_bytes (ListK i k)}" by auto
  have "{k. \<exists>r \<in> set rs. \<exists>i. rec_key r = lkey_bytes (ListK i k)}
      = {le_key e | s e. (s, e) \<in> set hist \<and> ho_start ids \<le> seg_id s \<and> seg_id s < ho_end ids}" (is "?A = ?B")
  proof
    show "?A \<subseteq> ?B" using mem by (auto simp del: lkey_bytes.simps) blast
    show "?B \<subseteq> ?A"
    proof
      fix k
      assume "k \<in> ?B"
      then obtain s e where e: "(s, e) \<in> set hist" "le_key e = k" "ho_start ids \<le> seg_id s" "seg_id s < ho_end ids" by auto
      let ?r = "\<lparr>rec_key = lkey_bytes (ListK (seg_id s) k), rec_value = []\<rparr>"
      have "?r \<in> set rs" unfolding mem using e by (intro exI [of _ s] exI [of _ e]) simp
      then show "k \<in> ?A" by (intro CollectI bexI [of _ ?r] exI [of _ "seg_id s"]) simp_all
    qed
  qed
  with keys False rs(1) show ?thesis by (simp add: storage_list_keys_def log_map_err_def)
qed

end
