(* ===== verification/Log_Db.thy ===== *)
theory Log_Db
  imports Log_Reader "HOL-Library.Sublist"
begin

text \<open>
  The log database (\<open>log/src/log.rs\<close>): the writer, the read view and the subscriber task that moves the
  read view to newer snapshots.  The tasks interleave: the writer handles an append or a flush, the
  subscriber takes the view last published or a durable notification.  A command is handled as it is
  sent; the capacity of the command queue and timeouts are not part of the model.
\<close>

section \<open>Definitions\<close>

datatype read_visibility = Memory | Remote

datatype append_error = Shutdown | AppendStorage string

text \<open>Messages with \<open>{}\<close> replaced by the arguments in decimal.\<close>

function decimal :: "nat \<Rightarrow> string" where
  "decimal n = (if n < 10 then [char_of (48 + n)] else decimal (n div 10) @ [char_of (48 + n mod 10)])"
  by pat_completeness auto
termination by (relation "measure id") auto

declare decimal.simps [simp del]

fun format_message :: "string \<Rightarrow> int list \<Rightarrow> string" where
  "format_message (c # d # m) args =
     (if c = CHR 0x7B \<and> d = CHR 0x7D
      then (case args of [] \<Rightarrow> format_message m [] | a # args' \<Rightarrow> decimal (nat a) @ format_message m args')
      else c # format_message (d # m) args)"
| "format_message m args = m"

fun sequence_error_string :: "sequence_error \<Rightarrow> string" where
  "sequence_error_string (SeqStorage e) = ''storage error: '' @ storage_error_string e"
| "sequence_error_string (SeqDeserialize (DeserializeError m args)) = ''deserialize error: '' @ format_message m args"

record ('s, 'r) log_db =
  db_writer :: "('s, 'r) log_writer"
  db_snapshot :: 'r
  db_segments :: segment_cache
  db_tracker :: "'r view_entry list"
  db_known_segment_id :: "segment_id option"
  db_seen_epoch :: u64
  db_read_written :: u64
  db_read_durable :: u64
  db_last_durable_seq :: u64
  db_visibility :: read_visibility

definition from_storage ::
    "('s, 'r) storage_ops \<Rightarrow> 's \<Rightarrow> segment_config \<Rightarrow> read_visibility \<Rightarrow> u64 \<Rightarrow> 's \<times> (('s, 'r) log_db, log_error) result" where
  "from_storage ops s segment_config read_visibility durable_seq =
     (case sequence_allocator_load ops s SEQ_BLOCK_KEY of
        Err e \<Rightarrow> (s, Err (LogInternal (sequence_error_string e)))
      | Panic \<Rightarrow> (s, Panic)
      | Ok sequence_allocator \<Rightarrow>
          (case op_snapshot ops s of
             (s1, Err e) \<Rightarrow> (s1, Err (LogStorage (storage_error_string e)))
           | (s1, Panic) \<Rightarrow> (s1, Panic)
           | (s1, Ok snapshot) \<Rightarrow>
               (case segment_cache_open (op_snap_scan_iter ops s1 snapshot) segment_config of
                  Err e \<Rightarrow> (s1, Err e)
                | Panic \<Rightarrow> (s1, Panic)
                | Ok segment_cache \<Rightarrow>
                    (case log_writer_new ops s1 sequence_allocator segment_cache listing_cache_new of
                       (s2, Err m) \<Rightarrow> (s2, Err (LogStorage m))
                     | (s2, Panic) \<Rightarrow> (s2, Panic)
                     | (s2, Ok writer) \<Rightarrow>
                         (s2, Ok \<lparr>db_writer = writer, db_snapshot = snapshot, db_segments = segment_cache,
                                  db_tracker = [], db_known_segment_id = map_option seg_id (latest segment_cache),
                                  db_seen_epoch = 0, db_read_written = 0, db_read_durable = 0,
                                  db_last_durable_seq = durable_seq, db_visibility = read_visibility\<rparr>)))))"

text \<open>\<open>append_inner\<close>: an empty batch is answered without the writer.\<close>

definition append_inner ::
    "('s, 'r) storage_ops \<Rightarrow> ('s, 'r) log_db \<Rightarrow> user_record list \<Rightarrow> i64
     \<Rightarrow> ('s, 'r) log_db \<times> (append_output, append_error) result" where
  "append_inner ops db records now_ms =
     (if records = [] then (db, Ok \<lparr>start_sequence = 0\<rparr>)
      else
        let (w, x) = handle_append ops (db_writer db) \<lparr>lwr_records = records, lwr_timestamp_ms = now_ms\<rparr>;
            db' = db\<lparr>db_writer := w\<rparr>
        in case x of
             Ok (Some out) \<Rightarrow> (db', Ok out)
           | Ok None \<Rightarrow> (db', Panic)
           | Err e \<Rightarrow> (db', Err (AppendStorage e))
           | Panic \<Rightarrow> (db', Err Shutdown))"

definition db_flush :: "('s, 'r) storage_ops \<Rightarrow> ('s, 'r) log_db \<Rightarrow> ('s, 'r) log_db \<times> (unit, log_error) result" where
  "db_flush ops db =
     (let (w, x) = handle_flush ops (db_writer db); db' = db\<lparr>db_writer := w\<rparr>
      in case x of
           Ok _ \<Rightarrow> (db', Ok ())
         | Err e \<Rightarrow> (db', Err (LogStorage e))
         | Panic \<Rightarrow> (db', Err (LogInternal ''writer shut down'')))"

definition db_read_view :: "('s, 'r) storage_ops \<Rightarrow> ('s, 'r) log_db \<Rightarrow> log_read_view" where
  "db_read_view ops db =
     \<lparr>rv_storage = op_snap_scan_iter ops (lw_storage (db_writer db)) (db_snapshot db), rv_segments = db_segments db\<rparr>"

definition try_advance_read_view ::
    "('s, 'r) storage_ops \<Rightarrow> ('s, 'r) log_db \<Rightarrow> bool \<Rightarrow> u64 \<Rightarrow> ('s, 'r) log_db" where
  "try_advance_read_view ops db written through_seq =
     (case view_tracker_advance (db_tracker db) through_seq of
        (tracker, None) \<Rightarrow> db\<lparr>db_tracker := tracker\<rparr>
      | (tracker, Some advanced) \<Rightarrow>
          let db1 = db\<lparr>db_tracker := tracker, db_snapshot := ve_snapshot advanced\<rparr>;
              db2 = (if ve_last_segment_id advanced \<noteq> db_known_segment_id db1
                     then (case refresh_segments (db_read_view ops db1) (db_known_segment_id db1) of
                             Ok rv \<Rightarrow> db1\<lparr>db_segments := rv_segments rv, db_known_segment_id := ve_last_segment_id advanced\<rparr>
                           | _ \<Rightarrow> db1)
                     else db1)
          in if written then db2\<lparr>db_read_written := ve_epoch advanced\<rparr>
             else db2\<lparr>db_read_durable := ve_epoch advanced\<rparr>)"

text \<open>A round of the subscriber of \<open>Memory\<close> mode, and the two of \<open>Remote\<close> mode.\<close>

definition tx_entry :: "'r written_view \<Rightarrow> 'r view_entry" where
  "tx_entry v = \<lparr>ve_seqnum = wv_seqnum v, ve_epoch = wv_epoch v, ve_snapshot = wv_snapshot v,
     ve_last_segment_id = wv_last_segment_id v\<rparr>"

definition written_subscriber_round :: "('s, 'r) storage_ops \<Rightarrow> ('s, 'r) log_db \<Rightarrow> ('s, 'r) log_db" where
  "written_subscriber_round ops db =
     (let v = lw_written_tx (db_writer db);
          db1 = db\<lparr>db_seen_epoch := wv_epoch v, db_tracker := view_tracker_push (db_tracker db) (tx_entry v)\<rparr>
      in try_advance_read_view ops db1 True (wv_seqnum v))"

definition durable_subscriber_written :: "('s, 'r) storage_ops \<Rightarrow> ('s, 'r) log_db \<Rightarrow> ('s, 'r) log_db" where
  "durable_subscriber_written ops db =
     (let v = lw_written_tx (db_writer db);
          db1 = db\<lparr>db_seen_epoch := wv_epoch v, db_tracker := view_tracker_push (db_tracker db) (tx_entry v),
                   db_read_written := wv_epoch v\<rparr>
      in try_advance_read_view ops db1 False (db_last_durable_seq db1))"

definition durable_subscriber_durable :: "('s, 'r) storage_ops \<Rightarrow> ('s, 'r) log_db \<Rightarrow> u64 \<Rightarrow> ('s, 'r) log_db" where
  "durable_subscriber_durable ops db durable_seq =
     (let db1 = db\<lparr>db_last_durable_seq := durable_seq\<rparr>
      in try_advance_read_view ops db1 False durable_seq)"

text \<open>\<open>sync_reads\<close> returns once the read side has reached the writer's watermark.\<close>

definition reads_synced :: "('s, 'r) log_db \<Rightarrow> bool" where
  "reads_synced db =
     (case db_visibility db of
        Remote \<Rightarrow> db_read_durable db \<ge> lw_durable_watermark (db_writer db)
      | Memory \<Rightarrow> db_read_written db \<ge> lw_written_watermark (db_writer db))"

definition db_scan :: "('s, 'r) storage_ops \<Rightarrow> ('s, 'r) log_db \<Rightarrow> bytes \<Rightarrow> u64 bound \<Rightarrow> u64 bound \<Rightarrow> log_iterator" where
  "db_scan ops db key s e = view_scan (db_read_view ops db) key (normalize_sequence s e)"

definition db_list_keys ::
    "('s, 'r) storage_ops \<Rightarrow> ('s, 'r) log_db \<Rightarrow> segment_id bound \<Rightarrow> segment_id bound \<Rightarrow> (bytes list, log_error) result" where
  "db_list_keys ops db s e = view_list_keys (db_read_view ops db) (normalize_segment_id s e)"

definition db_list_segments ::
    "('s, 'r) storage_ops \<Rightarrow> ('s, 'r) log_db \<Rightarrow> u64 bound \<Rightarrow> u64 bound \<Rightarrow> segment list" where
  "db_list_segments ops db s e = view_list_segments (db_read_view ops db) (normalize_sequence s e)"

section \<open>Runs\<close>

text \<open>
  The log of a run: the entries of the acknowledged appends, in order.  An append stays within the
  sequence numbers and segment identifiers (\<^const>\<open>append_room\<close>) and the epochs.  A restart opens
  the storage again.
\<close>

definition appended :: "u64 \<Rightarrow> user_record list \<Rightarrow> log_entry list" where
  "appended base recs =
     map (\<lambda>(i, ur). \<lparr>le_key = ur_key ur, le_sequence = base + word_of_nat i, le_value = ur_value ur\<rparr>) (enumerate 0 recs)"

inductive log_run :: "('s, 'r) storage_ops \<Rightarrow> 's \<Rightarrow> ('s, 'r) log_db \<Rightarrow> log_entry list \<Rightarrow> bool"
  for ops :: "('s, 'r) storage_ops" and s0 where
  create: "from_storage ops s0 cfg vis d = (s, Ok db) \<Longrightarrow> log_run ops s0 db []"
| append: "log_run ops s0 db log \<Longrightarrow> recs \<noteq> [] \<Longrightarrow>
    append_room (lw_sequence_allocator (db_writer db)) (lw_segment_cache (db_writer db)) (length recs) \<Longrightarrow>
    unat (lw_epoch (db_writer db)) + 1 < 2 ^ 64 \<Longrightarrow>
    append_inner ops db recs now = (db', Ok out) \<Longrightarrow>
    log_run ops s0 db' (log @ appended (start_sequence out) recs)"
| flush: "log_run ops s0 db log \<Longrightarrow> db_flush ops db = (db', x) \<Longrightarrow> log_run ops s0 db' log"
| written: "log_run ops s0 db log \<Longrightarrow> db_visibility db = Memory \<Longrightarrow>
    wv_epoch (lw_written_tx (db_writer db)) \<noteq> db_seen_epoch db \<Longrightarrow>
    log_run ops s0 (written_subscriber_round ops db) log"
| remote_written: "log_run ops s0 db log \<Longrightarrow> db_visibility db = Remote \<Longrightarrow>
    wv_epoch (lw_written_tx (db_writer db)) \<noteq> db_seen_epoch db \<Longrightarrow>
    log_run ops s0 (durable_subscriber_written ops db) log"
| remote_durable: "log_run ops s0 db log \<Longrightarrow> db_visibility db = Remote \<Longrightarrow>
    log_run ops s0 (durable_subscriber_durable ops db d) log"
| restart: "log_run ops s0 db log \<Longrightarrow>
    from_storage ops (lw_storage (db_writer db)) cfg vis d = (s, Ok db') \<Longrightarrow> log_run ops s0 db' log"

section \<open>The timeline of a database\<close>

text \<open>
  Epoch \<open>i\<close> of the database is a state of the log: its segments and its history.  Later states extend
  earlier ones.
\<close>

type_synonym timeline = "((u64, log_segment) omap \<times> history) list"

definition timeline_ok :: "timeline \<Rightarrow> bool" where
  "timeline_ok line \<longleftrightarrow> line \<noteq> [] \<and> sorted_wrt (\<lambda>(a, h) (b, h'). prefix a b \<and> prefix h h') line"

definition last_id :: "(u64, log_segment) omap \<Rightarrow> segment_id option" where
  "last_id segs = (if segs = [] then None else Some (seg_id (snd (last segs))))"

lemma latest_last_id: "map_option seg_id (latest c) = last_id (sc_segments c)"
  by (simp add: latest_eq last_id_def)

lemma last_id_prefix:
  assumes "segs_ok a n" and "segs_ok b n'" and "prefix a b" and "last_id a = last_id b"
  shows "a = b"
proof (cases "a = []")
  case True
  with assms(4) show ?thesis by (auto simp: last_id_def split: if_splits)
next
  case False
  with assms(3,4) have ne: "b \<noteq> []" and eq: "seg_id (snd (last a)) = seg_id (snd (last b))"
    by (auto simp: last_id_def split: if_splits)
  have "unat (seg_id (snd (last x))) = length x - 1" if "x \<noteq> []" "segs_ok x m" for x m
    using segs_id_nth [OF that(2), of "length x - 1"] that(1) by (simp add: last_conv_nth)
  from this [OF False assms(1)] this [OF ne assms(2)] eq have "length a - 1 = length b - 1" by simp
  with False ne have "length a = length b" by (cases a; cases b) simp_all
  with assms(3) show ?thesis by (auto simp: prefix_def)
qed

lemma timeline_mono:
  "timeline_ok line \<Longrightarrow> i \<le> j \<Longrightarrow> j < length line \<Longrightarrow> prefix (fst (line ! i)) (fst (line ! j)) \<and> prefix (snd (line ! i)) (snd (line ! j))"
  using sorted_wrt_nth_less [of "\<lambda>(a, h) (b, h'). prefix a b \<and> prefix h h'" line i j]
  by (cases "i = j") (auto simp: timeline_ok_def case_prod_unfold)

lemma timeline_snoc:
  assumes "timeline_ok line" and "prefix (fst (last line)) a" and "prefix (snd (last line)) h"
  shows "timeline_ok (line @ [(a, h)])"
proof -
  have "prefix (fst x) a \<and> prefix (snd x) h" if "x \<in> set line" for x
  proof -
    from that obtain i where i: "i < length line" "x = line ! i" by (auto simp: in_set_conv_nth)
    then have "i \<le> length line - 1" "length line - 1 < length line" "last line = line ! (length line - 1)"
      using assms(1) by (auto simp: last_conv_nth timeline_ok_def)
    with timeline_mono [OF assms(1)] i(2) have "prefix (fst x) (fst (last line))" "prefix (snd x) (snd (last line))"
      by simp_all
    with assms(2,3) show ?thesis by (blast intro: prefix_order.trans)
  qed
  with assms(1) show ?thesis by (fastforce simp: timeline_ok_def sorted_wrt_append)
qed

definition read_epoch :: "('s, 'r) log_db \<Rightarrow> u64" where
  "read_epoch db = (case db_visibility db of Memory \<Rightarrow> db_read_written db | Remote \<Rightarrow> db_read_durable db)"

context storage_laws
begin

definition snap_at :: "'s \<Rightarrow> 'r \<Rightarrow> (u64, log_segment) omap \<Rightarrow> history \<Rightarrow> bool" where
  "snap_at s r segs h \<longleftrightarrow> snap_inv r
     \<and> (\<exists>blk n. holds (snap_view s r) (log_content (snd ` set segs) h blk) \<and> segs_ok segs n \<and> hist_ok segs h n)"

definition view_at :: "'s \<Rightarrow> timeline \<Rightarrow> 'r \<Rightarrow> segment_id option \<Rightarrow> u64 \<Rightarrow> bool" where
  "view_at s line r i ep \<longleftrightarrow> unat ep < length line
     \<and> snap_at s r (fst (line ! unat ep)) (snd (line ! unat ep)) \<and> i = last_id (fst (line ! unat ep))"

text \<open>The read view shows one epoch; the tracked views wait in epoch order and are not older.\<close>

definition reader_inv :: "('s, 'r) log_db \<Rightarrow> timeline \<Rightarrow> bool" where
  "reader_inv db line \<longleftrightarrow>
     (let s = lw_storage (db_writer db) in
      inv s \<and> timeline_ok line
      \<and> view_at s line (db_snapshot db) (db_known_segment_id db) (read_epoch db)
      \<and> sc_segments (db_segments db) = fst (line ! unat (read_epoch db))
      \<and> (\<forall>e \<in> set (db_tracker db). view_at s line (ve_snapshot e) (ve_last_segment_id e) (ve_epoch e)
           \<and> read_epoch db \<le> ve_epoch e \<and> ve_epoch e \<le> db_seen_epoch db)
      \<and> sorted_wrt (\<lambda>e e'. ve_epoch e < ve_epoch e') (db_tracker db))"

definition db_inv :: "('s, 'r) log_db \<Rightarrow> timeline \<Rightarrow> bool" where
  "db_inv db line \<longleftrightarrow>
     reader_inv db line \<and> length line = Suc (unat (lw_epoch (db_writer db)))
     \<and> db_seen_epoch db \<le> lw_epoch (db_writer db) \<and> read_epoch db \<le> db_seen_epoch db
     \<and> writer_inv (db_writer db) (snd (last line))
     \<and> sc_segments (lw_segment_cache (db_writer db)) = fst (last line)
     \<and> (db_visibility db = Memory \<longrightarrow> db_tracker db = [])"

lemma snap_scanner_ok: "inv s \<Longrightarrow> snap_inv r \<Longrightarrow> scanner_ok (snap_view s r) (op_snap_scan_iter ops s r)"
  using snap_scan_view by (simp add: scanner_ok_def)

lemma refresh_view_at:
  assumes inv: "inv s" and line: "timeline_ok line" and new: "view_at s line r i ep"
    and old: "unat old \<le> unat ep" "sc_segments c = fst (line ! unat old)"
  shows "segment_cache_refresh c (op_snap_scan_iter ops s r) (last_id (sc_segments c)) = Ok (c\<lparr>sc_segments := fst (line ! unat ep)\<rparr>)"
proof -
  let ?segs = "fst (line ! unat ep)" and ?h = "snd (line ! unat ep)"
  from new obtain blk n where snap: "snap_inv r" "holds (snap_view s r) (log_content (snd ` set ?segs) ?h blk)" "segs_ok ?segs n"
    and ep: "unat ep < length line" by (auto simp: view_at_def snap_at_def)
  from timeline_mono [OF line old(1) ep] have "prefix (sc_segments c) ?segs" by (simp add: old(2))
  then obtain zs where "?segs = sc_segments c @ zs" by (auto simp: prefix_def)
  then have "sc_segments c = take (length (sc_segments c)) ?segs" "length (sc_segments c) \<le> length ?segs" by simp_all
  from segment_cache_refresh_ok [OF snap_scanner_ok [OF inv snap(1)] snap(2,3) this] show ?thesis
    by (simp add: latest_last_id)
qed

lemma tracked_view_at:
  assumes "reader_inv db line" and "e \<in> set (db_tracker db)"
  shows "view_at (lw_storage (db_writer db)) line (ve_snapshot e) (ve_last_segment_id e) (ve_epoch e)"
    and "read_epoch db \<le> ve_epoch e" and "ve_epoch e \<le> db_seen_epoch db"
  using assms by (simp_all add: reader_inv_def Let_def)

lemma advance_to:
  assumes db: "reader_inv db line" and adv: "view_tracker_advance (db_tracker db) thr = (rest, Some adv)"
    "adv \<in> set (db_tracker db)"
  shows "try_advance_read_view ops db written thr =
    (let db' = db\<lparr>db_tracker := rest, db_snapshot := ve_snapshot adv,
                  db_segments := (db_segments db)\<lparr>sc_segments := fst (line ! unat (ve_epoch adv))\<rparr>,
                  db_known_segment_id := ve_last_segment_id adv\<rparr>
     in if written then db'\<lparr>db_read_written := ve_epoch adv\<rparr> else db'\<lparr>db_read_durable := ve_epoch adv\<rparr>)"
proof -
  let ?s = "lw_storage (db_writer db)" and ?old = "read_epoch db" and ?ep = "ve_epoch adv" and ?c = "db_segments db"
  note view = tracked_view_at [OF db adv(2)]
  from db have inv: "inv ?s" "timeline_ok line" and segs: "sc_segments ?c = fst (line ! unat ?old)"
    and old: "view_at ?s line (db_snapshot db) (db_known_segment_id db) ?old"
    by (simp_all add: reader_inv_def Let_def)
  have le: "unat ?old \<le> unat ?ep" using view(2) by (simp add: word_le_nat_alt)
  have known: "db_known_segment_id db = last_id (sc_segments ?c)" using old segs by (simp add: view_at_def)
  note refresh = refresh_view_at [OF inv view(1) le segs]
  show ?thesis
  proof (cases "ve_last_segment_id adv = db_known_segment_id db")
    case False
    with refresh adv(1) known show ?thesis
      by (simp add: try_advance_read_view_def refresh_segments_def db_read_view_def Let_def)
  next
    case True
    from old view(1) timeline_mono [OF inv(2) le] True have "fst (line ! unat ?old) = fst (line ! unat ?ep)"
      by (auto simp: view_at_def snap_at_def intro: last_id_prefix)
    then have "?c\<lparr>sc_segments := fst (line ! unat ?ep)\<rparr> = ?c" by (simp add: segs [symmetric])
    with True adv(1) show ?thesis by (simp add: try_advance_read_view_def Let_def)
  qed
qed

lemma advance_reader_inv:
  assumes db: "reader_inv db line" and written: "written \<longleftrightarrow> db_visibility db = Memory"
  shows "reader_inv (try_advance_read_view ops db written thr) line"
proof -
  let ?P = "\<lambda>e. ve_seqnum e \<le> thr" and ?T = "db_tracker db"
  have T: "takeWhile ?P ?T @ dropWhile ?P ?T = ?T" by simp
  show ?thesis
  proof (cases "takeWhile ?P ?T" rule: rev_cases)
    case Nil
    then have "dropWhile ?P ?T = ?T" using T by simp
    with Nil db show ?thesis by (simp add: try_advance_read_view_def view_tracker_advance_def advance_loop_eq)
  next
    case (snoc xs adv)
    let ?rest = "dropWhile ?P ?T"
    from snoc T have T: "?T = xs @ adv # ?rest" by simp
    then have mem: "adv \<in> set ?T" and sub: "set ?rest \<subseteq> set ?T" by (metis in_set_conv_decomp, metis set_dropWhileD subsetI)
    have adv: "view_tracker_advance ?T thr = (?rest, Some adv)"
      by (simp add: view_tracker_advance_def advance_loop_eq snoc)
    have "sorted_wrt (\<lambda>e e'. ve_epoch e < ve_epoch e') (xs @ adv # ?rest)"
      using db unfolding T [symmetric] by (simp add: reader_inv_def Let_def)
    then have order: "sorted_wrt (\<lambda>e e'. ve_epoch e < ve_epoch e') ?rest" "\<forall>e \<in> set ?rest. ve_epoch adv \<le> ve_epoch e"
      by (auto simp: sorted_wrt_append less_imp_le)
    show ?thesis
      unfolding advance_to [OF db adv mem]
      using db order written tracked_view_at [OF db] mem sub
      by (auto simp: reader_inv_def Let_def read_epoch_def split: read_visibility.splits)
  qed
qed

lemma view_at_mono:
  assumes "view_at s line r i ep" and "\<And>r. snap_view s' r = snap_view s r"
  shows "view_at s' (line @ xs) r i ep"
  using assms by (auto simp: view_at_def snap_at_def nth_append)

lemma reader_inv_writer:
  assumes db: "reader_inv db line" and inv: "inv (lw_storage w')"
    and snap: "\<And>r. snap_view (lw_storage w') r = snap_view (lw_storage (db_writer db)) r"
    and line: "timeline_ok (line @ xs)"
  shows "reader_inv (db\<lparr>db_writer := w'\<rparr>) (line @ xs)"
proof -
  have ep: "unat (read_epoch db) < length line" using db by (simp add: reader_inv_def view_at_def Let_def)
  have "read_epoch (db\<lparr>db_writer := w'\<rparr>) = read_epoch db" by (simp add: read_epoch_def split: read_visibility.splits)
  with db inv line ep view_at_mono [OF _ snap] show ?thesis
    by (auto simp: reader_inv_def Let_def nth_append)
qed

lemma db_inv_append:
  assumes db: "db_inv db line"
    and room: "append_room (lw_sequence_allocator (db_writer db)) (lw_segment_cache (db_writer db)) (length recs)"
    and epoch: "unat (lw_epoch (db_writer db)) + 1 < 2 ^ 64"
    and app: "append_inner ops db recs now = (db', Ok out)" and recs: "recs \<noteq> []"
  shows "start_sequence out = peek_next_sequence (lw_sequence_allocator (db_writer db))
    \<and> (\<exists>segs h. db_inv db' (line @ [(segs, h)]) \<and> map snd h = map snd (snd (last line)) @ appended (start_sequence out) recs)"
proof -
  let ?w = "db_writer db" and ?lw = "\<lparr>lwr_records = recs, lwr_timestamp_ms = now\<rparr>"
  obtain w' x where ha: "handle_append ops ?w ?lw = (w', x)" by fastforce
  with app recs have x: "x = Ok (Some out)" and db': "db' = db\<lparr>db_writer := w'\<rparr>"
    by (auto simp: append_inner_def Let_def split: result.splits option.splits)
  from db have reader: "reader_inv db line" and w: "writer_inv ?w (snd (last line))" and line: "timeline_ok line"
    by (simp_all add: db_inv_def reader_inv_def Let_def)
  from handle_append_ok [OF w _ ha [unfolded x]] room obtain s xs where
    w': "writer_inv w' (snd (last line) @ new_entries s (start_sequence out) recs)"
      "lw_epoch w' = lw_epoch ?w + 1" "sc_segments (lw_segment_cache w') = sc_segments (lw_segment_cache ?w) @ xs"
      "\<And>r. snap_view (lw_storage w') r = snap_view (lw_storage ?w) r"
      and start: "start_sequence out = peek_next_sequence (lw_sequence_allocator ?w)" by auto
  let ?next = "(sc_segments (lw_segment_cache w'), snd (last line) @ new_entries s (start_sequence out) recs)"
  have "timeline_ok (line @ [?next])"
    using db w'(3) by (intro timeline_snoc [OF line]) (simp_all add: db_inv_def)
  with reader_inv_writer [OF reader _ w'(4)] w'(1) have "reader_inv db' (line @ [?next])"
    by (simp add: db' writer_inv_def)
  moreover have "unat (lw_epoch ?w + 1) = Suc (unat (lw_epoch ?w))" using epoch unat_add_u64 [of "lw_epoch ?w" 1] by simp
  moreover have "read_epoch db' = read_epoch db" by (simp add: db' read_epoch_def split: read_visibility.splits)
  ultimately have "db_inv db' (line @ [?next])"
    using db w'(1,2) by (simp add: db_inv_def db' word_le_nat_alt)
  moreover have "map snd (new_entries s (start_sequence out) recs) = appended (start_sequence out) recs"
    by (auto simp: new_entries_def appended_def)
  ultimately show ?thesis using start by (intro conjI exI [of _ "fst ?next"] exI [of _ "snd ?next"]) simp_all
qed

lemma db_inv_flush:
  assumes db: "db_inv db line" and flush: "db_flush ops db = (db', x)"
  shows "db_inv db' line"
proof -
  let ?w = "db_writer db"
  obtain s' y where fl: "op_flush ops (lw_storage ?w) = (s', y)" by fastforce
  from db have inv: "inv (lw_storage ?w)" and reader: "reader_inv db line" and line: "timeline_ok line"
    by (simp_all add: db_inv_def reader_inv_def Let_def)
  note keep = flush_view [OF inv fl] flush_snap [OF inv fl]
  obtain q where db': "db' = db\<lparr>db_writer := ?w\<lparr>lw_storage := s', lw_durable_watermark := q\<rparr>\<rparr>"
  proof (cases y)
    case (Ok u)
    with flush fl have "db' = db\<lparr>db_writer := ?w\<lparr>lw_storage := s', lw_durable_watermark := lw_epoch ?w\<rparr>\<rparr>"
      by (simp add: db_flush_def handle_flush_def)
    then show thesis by (rule that)
  qed (use flush fl that [of "lw_durable_watermark ?w"] in \<open>simp_all add: db_flush_def handle_flush_def\<close>)
  have "reader_inv db' line"
    using reader_inv_writer [OF reader, of "?w\<lparr>lw_storage := s', lw_durable_watermark := q\<rparr>" "[]"] keep line by (simp add: db')
  moreover have "read_epoch db' = read_epoch db" by (simp add: db' read_epoch_def split: read_visibility.splits)
  ultimately show ?thesis
    using db keep by (simp add: db_inv_def writer_inv_def db')
qed

lemma push_reader_inv:
  assumes db: "db_inv db line" and new: "wv_epoch (lw_written_tx (db_writer db)) \<noteq> db_seen_epoch db"
  shows "reader_inv (db\<lparr>db_seen_epoch := lw_epoch (db_writer db),
      db_tracker := db_tracker db @ [tx_entry (lw_written_tx (db_writer db))]\<rparr>) line"
proof -
  let ?w = "db_writer db"
  let ?e = "tx_entry (lw_written_tx ?w)"
  from db have reader: "reader_inv db line" and w: "writer_inv ?w (snd (last line))"
    and len: "length line = Suc (unat (lw_epoch ?w))" and seen: "db_seen_epoch db \<le> lw_epoch ?w" "read_epoch db \<le> db_seen_epoch db"
    and segs: "sc_segments (lw_segment_cache ?w) = fst (last line)" by (simp_all add: db_inv_def)
  from len have "line \<noteq> []" by auto
  with len have last: "last line = line ! unat (lw_epoch ?w)" by (simp add: last_conv_nth)
  have ep: "ve_epoch ?e = lw_epoch ?w" "db_seen_epoch db < lw_epoch ?w"
    using w new seen by (auto simp: tx_entry_def writer_inv_def)
  have view: "view_at (lw_storage ?w) line (ve_snapshot ?e) (ve_last_segment_id ?e) (ve_epoch ?e)"
    using w segs len last by (auto simp: tx_entry_def view_at_def snap_at_def writer_inv_def log_state_ok_def latest_last_id)
  have "ve_epoch e < lw_epoch ?w" "ve_epoch e \<le> lw_epoch ?w" if "e \<in> set (db_tracker db)" for e
    using tracked_view_at(3) [OF reader that] ep(2) by (auto intro: le_less_trans less_imp_le)
  with reader view ep seen show ?thesis
    by (auto simp: reader_inv_def Let_def read_epoch_def sorted_wrt_append split: read_visibility.splits)
qed

lemma try_advance_keeps:
  "db_writer (try_advance_read_view ops db b thr) = db_writer db
   \<and> db_seen_epoch (try_advance_read_view ops db b thr) = db_seen_epoch db
   \<and> db_visibility (try_advance_read_view ops db b thr) = db_visibility db"
  by (auto simp: try_advance_read_view_def Let_def split: option.splits prod.splits result.splits)

lemma tracker_advance_mem:
  assumes "view_tracker_advance T thr = (rest, Some adv)"
  shows "adv \<in> set T"
proof (cases "takeWhile (\<lambda>e. ve_seqnum e \<le> thr) T" rule: rev_cases)
  case (snoc xs y)
  then have "y \<in> set (takeWhile (\<lambda>e. ve_seqnum e \<le> thr) T)" by simp
  then have "y \<in> set T" by (rule set_takeWhileD [THEN conjunct1])
  with assms snoc show ?thesis by (simp add: view_tracker_advance_def advance_loop_eq)
qed (use assms in \<open>simp add: view_tracker_advance_def advance_loop_eq\<close>)

lemma advance_read_epoch:
  assumes db: "reader_inv db line" and "read_epoch db \<le> db_seen_epoch db" and "b \<longleftrightarrow> db_visibility db = Memory"
  shows "read_epoch (try_advance_read_view ops db b thr) \<le> db_seen_epoch db"
proof -
  obtain rest x where adv: "view_tracker_advance (db_tracker db) thr = (rest, x)" by fastforce
  show ?thesis
  proof (cases x)
    case None
    with adv assms show ?thesis by (simp add: try_advance_read_view_def read_epoch_def split: read_visibility.splits)
  next
    case (Some a)
    then have mem: "a \<in> set (db_tracker db)" using adv tracker_advance_mem by metis
    from advance_to [OF db adv [unfolded Some] mem, of b] tracked_view_at(3) [OF db mem] assms(3) show ?thesis
      by (auto simp: Let_def read_epoch_def split: read_visibility.splits)
  qed
qed

lemma advance_db_inv:
  assumes "reader_inv db line" and "b \<longleftrightarrow> db_visibility db = Memory"
    and "db_seen_epoch db \<le> lw_epoch (db_writer db)" and "read_epoch db \<le> db_seen_epoch db"
    and "length line = Suc (unat (lw_epoch (db_writer db)))" and "writer_inv (db_writer db) (snd (last line))"
    and "sc_segments (lw_segment_cache (db_writer db)) = fst (last line)"
    and "db_visibility db = Memory \<Longrightarrow> db_tracker (try_advance_read_view ops db b thr) = []"
  shows "db_inv (try_advance_read_view ops db b thr) line"
  using advance_reader_inv [OF assms(1,2), of thr] advance_read_epoch [OF assms(1,4,2), of thr] assms(3-8)
    try_advance_keeps [of db b thr]
  by (simp add: db_inv_def)

lemma db_inv_written:
  assumes db: "db_inv db line" and vis: "db_visibility db = Memory"
    and new: "wv_epoch (lw_written_tx (db_writer db)) \<noteq> db_seen_epoch db"
  shows "db_inv (written_subscriber_round ops db) line"
proof -
  let ?w = "db_writer db"
  let ?v = "lw_written_tx ?w"
  let ?db1 = "db\<lparr>db_seen_epoch := lw_epoch ?w, db_tracker := db_tracker db @ [tx_entry ?v]\<rparr>"
  have ep: "wv_epoch ?v = lw_epoch ?w" and T: "db_tracker db = []"
    using db vis by (simp_all add: db_inv_def writer_inv_def)
  have "view_tracker_advance (db_tracker ?db1) (wv_seqnum ?v) = ([], Some (tx_entry ?v))"
    by (simp add: T view_tracker_advance_def tx_entry_def)
  then have "db_tracker (try_advance_read_view ops ?db1 True (wv_seqnum ?v)) = []"
    by (auto simp: try_advance_read_view_def Let_def split: result.splits)
  moreover have "read_epoch ?db1 \<le> db_seen_epoch ?db1"
    using db by (auto simp: db_inv_def read_epoch_def split: read_visibility.splits)
  ultimately have "db_inv (try_advance_read_view ops ?db1 True (wv_seqnum ?v)) line"
    using db vis by (intro advance_db_inv push_reader_inv [OF db new]) (simp_all add: db_inv_def)
  then show ?thesis by (simp add: written_subscriber_round_def view_tracker_push_def ep Let_def)
qed

lemma db_inv_remote_written:
  assumes db: "db_inv db line" and vis: "db_visibility db = Remote"
    and new: "wv_epoch (lw_written_tx (db_writer db)) \<noteq> db_seen_epoch db"
  shows "db_inv (durable_subscriber_written ops db) line"
proof -
  let ?w = "db_writer db"
  let ?v = "lw_written_tx ?w"
  let ?db0 = "db\<lparr>db_seen_epoch := lw_epoch ?w, db_tracker := db_tracker db @ [tx_entry ?v]\<rparr>"
  let ?db1 = "?db0\<lparr>db_read_written := lw_epoch ?w\<rparr>"
  have ep: "wv_epoch ?v = lw_epoch ?w" using db by (simp add: db_inv_def writer_inv_def)
  have re: "read_epoch ?db1 = read_epoch ?db0" "read_epoch ?db0 = read_epoch db" using vis by (simp_all add: read_epoch_def)
  have "reader_inv ?db1 line"
    using push_reader_inv [OF db new] re by (simp add: reader_inv_def)
  then have "db_inv (try_advance_read_view ops ?db1 False (db_last_durable_seq db)) line"
    using db vis re by (intro advance_db_inv) (auto simp: db_inv_def)
  then show ?thesis by (simp add: durable_subscriber_written_def view_tracker_push_def ep Let_def)
qed

lemma db_inv_remote_durable:
  assumes db: "db_inv db line" and vis: "db_visibility db = Remote"
  shows "db_inv (durable_subscriber_durable ops db d) line"
proof -
  let ?db1 = "db\<lparr>db_last_durable_seq := d\<rparr>"
  have re: "read_epoch ?db1 = read_epoch db" using vis by (simp add: read_epoch_def)
  then have "reader_inv ?db1 line" using db by (simp add: db_inv_def reader_inv_def)
  then have "db_inv (try_advance_read_view ops ?db1 False d) line"
    using db vis re by (intro advance_db_inv) (auto simp: db_inv_def)
  then show ?thesis by (simp add: durable_subscriber_durable_def)
qed

lemma holds_block:
  assumes "holds m (log_content segs h blk)"
  shows "m SEQ_BLOCK_KEY = map_option seq_block_serialize blk"
proof -
  have "m (lkey_bytes BlockK) = Some v \<longleftrightarrow> (BlockK, v) \<in> log_content segs h blk" for v
    using assms unfolding holds_def by (metis lkey_bytes_inj)
  then have "m SEQ_BLOCK_KEY = Some v \<longleftrightarrow> (\<exists>b. blk = Some b \<and> v = seq_block_serialize b)" for v
    by (auto simp: log_content_def entry_lkey_def)
  then show ?thesis by (cases blk; cases "m SEQ_BLOCK_KEY") auto
qed

lemma from_storage_inv:
  assumes inv: "inv s" and m: "holds (view s) (log_content (snd ` set segs) h blk)" and blk: "reserved_end blk < 2 ^ 64"
    and ok: "segs_ok segs (reserved_end blk)" "hist_ok segs h (reserved_end blk)"
    and fs: "from_storage ops s cfg vis d = (s', Ok db)"
  shows "db_inv db [(segs, h)]"
proof -
  from load_block [OF inv _ blk, of SEQ_BLOCK_KEY] holds_block [OF m] obtain a where
    a: "sequence_allocator_load ops s SEQ_BLOCK_KEY = Ok a" "alloc_wf a" "sa_key a = SEQ_BLOCK_KEY"
      "current_block (sa_block a) = blk" "unat (peek_next_sequence a) = reserved_end blk"
    by (auto simp: stored_block_def)
  obtain s1 x where snap: "op_snapshot ops s = (s1, x)" by fastforce
  with fs a(1) obtain r where x: "x = Ok r" by (cases x) (auto simp: from_storage_def)
  from snapshot_ok [OF inv snap [unfolded x]] have s1: "inv s1" "view s1 = view s" "snap_inv r" "snap_view s1 r = view s"
    by simp_all
  let ?c = "\<lparr>sc_segments = segs, sc_config = cfg\<rparr>"
  have cache: "segment_cache_open (op_snap_scan_iter ops s1 r) cfg = Ok ?c"
    using m ok(1) by (intro segment_cache_open_ok [OF snap_scanner_ok [OF s1(1,3)]]) (simp_all add: s1(4))
  obtain s2 y where snap2: "op_snapshot ops s1 = (s2, y)" by fastforce
  with fs a(1) snap x cache obtain r2 where y: "y = Ok r2"
    by (cases y) (auto simp: from_storage_def log_writer_new_def)
  from snapshot_ok [OF s1(1) snap2 [unfolded y]] have
    s2: "inv s2" "view s2 = view s" "snap_inv r2" "snap_view s2 r2 = view s" by (simp_all add: s1(2))
  have keep: "snap_view s2 r = view s" using snapshot_snap [OF s1(1) snap2] s1(4) by simp
  have db: "db = \<lparr>db_writer = \<lparr>lw_storage = s2, lw_sequence_allocator = a, lw_segment_cache = ?c, lw_listing_cache = listing_cache_new,
        lw_epoch = 0, lw_written_tx = \<lparr>wv_epoch = 0, wv_snapshot = r2, wv_seqnum = 0, wv_last_segment_id = last_id segs\<rparr>,
        lw_written_watermark = 0, lw_durable_watermark = 0, lw_last_segment_id = last_id segs\<rparr>,
      db_snapshot = r, db_segments = ?c, db_tracker = [], db_known_segment_id = last_id segs, db_seen_epoch = 0,
      db_read_written = 0, db_read_durable = 0, db_last_durable_seq = d, db_visibility = vis\<rparr>"
    using fs a(1) snap x cache snap2 y by (auto simp: from_storage_def log_writer_new_def Let_def latest_last_id)
  have "read_epoch db = 0" by (simp add: db read_epoch_def split: read_visibility.splits)
  moreover have "listing_ok listing_cache_new h" by (simp add: listing_ok_def listing_cache_new_def)
  ultimately show ?thesis
    using s1 s2 keep m ok a(2-5)
    by (auto simp: db db_inv_def reader_inv_def view_at_def snap_at_def writer_inv_def log_state_ok_def timeline_ok_def
        latest_last_id)
qed

lemma db_inv_restart:
  assumes db: "db_inv db line" and fs: "from_storage ops (lw_storage (db_writer db)) cfg vis d = (s', Ok db')"
  shows "db_inv db' [last line]"
proof -
  let ?w = "db_writer db"
  let ?a = "lw_sequence_allocator ?w" and ?segs = "sc_segments (lw_segment_cache ?w)" and ?h = "snd (last line)"
  let ?blk = "current_block (sa_block ?a)"
  from db have ok: "inv (lw_storage ?w)" "log_state_ok (view (lw_storage ?w)) ?a (lw_segment_cache ?w) (lw_listing_cache ?w) ?h"
    "?segs = fst (last line)" by (simp_all add: db_inv_def writer_inv_def)
  then have le: "unat (peek_next_sequence ?a) \<le> reserved_end ?blk" "reserved_end ?blk < 2 ^ 64"
    by (simp_all add: log_state_ok_def alloc_wf_def peek_next_sequence_def)
  have "segs_ok ?segs (reserved_end ?blk)" "hist_ok ?segs ?h (reserved_end ?blk)"
    using ok(2) le(1) by (fastforce simp: log_state_ok_def segs_ok_def hist_ok_def)+
  from from_storage_inv [OF ok(1) _ le(2) this fs] ok(2,3) show ?thesis by (simp add: log_state_ok_def)
qed

lemma log_run_inv:
  assumes "log_run ops s0 db log" and "inv s0" and "\<And>k. view s0 k = None"
  shows "\<exists>line. db_inv db line \<and> map snd (snd (last line)) = log"
  using assms
proof (induction rule: log_run.induct)
  case (create cfg vis d s db)
  have "holds (view s0) (log_content (snd ` set []) [] None)" using create(3) by (simp add: holds_def log_content_def)
  from from_storage_inv [OF create(2) this _ _ _ create(1)] show ?case
    by (intro exI [of _ "[([], [])]"]) (simp add: reserved_end_def segs_ok_def hist_ok_def)
next
  case (append db log recs now db' out)
  then obtain line where "db_inv db line" "map snd (snd (last line)) = log" by blast
  with db_inv_append [OF _ append.hyps(3-5,2)] show ?case by (metis last_snoc snd_conv)
qed (use db_inv_flush db_inv_written db_inv_remote_written db_inv_remote_durable db_inv_restart in \<open>fastforce+\<close>)

lemma scan_read_epoch:
  assumes db: "db_inv db line"
  shows "yields (view_scan (db_read_view ops db) key rg) (filter (in_scan key rg) (map snd (snd (line ! unat (read_epoch db)))))"
proof -
  let ?s = "lw_storage (db_writer db)"
  from db obtain blk n where at: "inv ?s" "snap_inv (db_snapshot db)"
    "holds (snap_view ?s (db_snapshot db)) (log_content (snd ` set (fst (line ! unat (read_epoch db)))) (snd (line ! unat (read_epoch db))) blk)"
    "segs_ok (fst (line ! unat (read_epoch db))) n" "hist_ok (fst (line ! unat (read_epoch db))) (snd (line ! unat (read_epoch db))) n"
    "sc_segments (db_segments db) = fst (line ! unat (read_epoch db))"
    by (auto simp: db_inv_def reader_inv_def view_at_def snap_at_def Let_def)
  from scan_yields [OF snap_scanner_ok [OF at(1,2)] at(3,4,6,5)] show ?thesis
    by (simp add: view_scan_def db_read_view_def)
qed

lemma read_epoch_bound: "db_inv db line \<Longrightarrow> unat (read_epoch db) \<le> unat (lw_epoch (db_writer db))"
  by (auto simp: db_inv_def word_le_nat_alt)

lemma last_line: "db_inv db line \<Longrightarrow> last line = line ! unat (lw_epoch (db_writer db))"
  by (cases "line = []") (simp_all add: db_inv_def last_conv_nth)

lemma synced_epoch:
  assumes "db_inv db line" and "db_visibility db = Memory" and "reads_synced db"
  shows "line ! unat (read_epoch db) = last line"
proof -
  have "lw_written_watermark (db_writer db) = lw_epoch (db_writer db)"
    using assms(1) by (simp add: db_inv_def writer_inv_def)
  with assms read_epoch_bound [OF assms(1)] have "unat (read_epoch db) = unat (lw_epoch (db_writer db))"
    by (simp add: reads_synced_def read_epoch_def word_le_nat_alt)
  with last_line [OF assms(1)] show ?thesis by simp
qed

lemma read_prefix:
  assumes db: "db_inv db line"
  shows "\<exists>n. map snd (snd (line ! unat (read_epoch db))) = take n (map snd (snd (last line)))"
proof -
  have "unat (lw_epoch (db_writer db)) < length line" "timeline_ok line"
    using db by (simp_all add: db_inv_def reader_inv_def Let_def)
  from timeline_mono [OF this(2) read_epoch_bound [OF db] this(1)] last_line [OF db]
  obtain zs where "snd (last line) = snd (line ! unat (read_epoch db)) @ zs" by (auto simp: prefix_def)
  then show ?thesis by (intro exI [of _ "length (snd (line ! unat (read_epoch db)))"]) simp
qed

lemma log_sorted:
  assumes "db_inv db line"
  shows "sorted_wrt (<) (map le_sequence (map snd (snd (last line))))"
  using assms by (simp add: db_inv_def writer_inv_def log_state_ok_def hist_ok_def case_prod_unfold comp_def)

lemma keys_read_epoch:
  assumes db: "db_inv db line"
  shows "\<exists>ks. db_list_keys ops db Unbounded Unbounded = Ok ks \<and> sorted_wrt (<) ks
    \<and> set ks = le_key ` set (map snd (snd (line ! unat (read_epoch db))))"
proof -
  let ?s = "lw_storage (db_writer db)" and ?segs = "fst (line ! unat (read_epoch db))" and ?h = "snd (line ! unat (read_epoch db))"
  from db obtain blk n where at: "inv ?s" "snap_inv (db_snapshot db)"
    "holds (snap_view ?s (db_snapshot db)) (log_content (snd ` set ?segs) ?h blk)" "segs_ok ?segs n" "hist_ok ?segs ?h n"
    by (auto simp: db_inv_def reader_inv_def view_at_def snap_at_def Let_def)
  from list_keys_ok [OF snap_scanner_ok [OF at(1,2)] at(3), of "\<lparr>ho_start = 0, ho_end = u32_max\<rparr>"] obtain keys where
    keys: "storage_list_keys (op_snap_scan_iter ops ?s (db_snapshot db)) \<lparr>ho_start = 0, ho_end = u32_max\<rparr> = Ok keys" "btree_wf keys"
      "fst ` set keys = {le_key e | s e. (s, e) \<in> set ?h \<and> seg_id s < u32_max}" by auto
  have "seg_id s < u32_max" if "(s, e) \<in> set ?h" for s e
  proof -
    from that at(5) have "s \<in> snd ` set ?segs" by (auto simp: hist_ok_def)
    then obtain i where "i < length ?segs" "s = snd (?segs ! i)" by (auto simp: in_set_conv_nth)
    with segs_id_nth [OF at(4)] at(4) show ?thesis by (simp add: word_less_nat_alt unat_max_word segs_ok_def)
  qed
  then have "fst ` set keys = le_key ` set (map snd ?h)" unfolding keys(3) by force
  with keys show ?thesis
    by (simp add: db_list_keys_def view_list_keys_def db_read_view_def normalize_segment_id_def btree_wf_def)
qed

lemma round_synced:
  assumes db: "db_inv db line" and "db_visibility db = Memory"
    and "wv_epoch (lw_written_tx (db_writer db)) \<noteq> db_seen_epoch db"
  shows "reads_synced (written_subscriber_round ops db)"
proof -
  let ?w = "db_writer db"
  let ?v = "lw_written_tx ?w"
  have ep: "wv_epoch ?v = lw_epoch ?w" "lw_written_watermark ?w = lw_epoch ?w" and T: "db_tracker db = []"
    using assms by (simp_all add: db_inv_def writer_inv_def)
  let ?db1 = "db\<lparr>db_seen_epoch := lw_epoch ?w, db_tracker := [tx_entry ?v]\<rparr>"
  have "view_tracker_advance (db_tracker ?db1) (wv_seqnum ?v) = ([], Some (tx_entry ?v))"
    by (simp add: view_tracker_advance_def tx_entry_def)
  from advance_to [OF push_reader_inv [OF db assms(3), unfolded T append_Nil] this, of True] assms(2) ep show ?thesis
    by (simp add: written_subscriber_round_def view_tracker_push_def T reads_synced_def tx_entry_def Let_def)
qed

end

text \<open>Over an in-memory storage opening and appending always succeed.\<close>

lemma im_empty: "im_inv (in_memory_new t)" "im_view (in_memory_new t) k = None"
  by (simp_all add: in_memory_new_def im_inv_def im_view_def data_get_def im_get_def)

lemma im_open:
  "\<exists>db. from_storage in_memory_ops (in_memory_new t) cfg vis d = (in_memory_new t, Ok db) \<and> db_visibility db = vis
    \<and> sc_segments (lw_segment_cache (db_writer db)) = [] \<and> lw_epoch (db_writer db) = 0
    \<and> current_block (sa_block (lw_sequence_allocator (db_writer db))) = None
    \<and> peek_next_sequence (lw_sequence_allocator (db_writer db)) = 0"
proof -
  let ?s = "in_memory_new t"
  have m: "holds (im_view ?s) (log_content (snd ` set []) [] None)" by (simp add: holds_def log_content_def im_empty)
  have snap: "op_snapshot in_memory_ops ?s = (?s, Ok (im_data ?s))"
    by (simp add: in_memory_ops_def im_snapshot_def in_memory_new_def)
  from im.snapshot_ok [OF im_empty(1) snap] have r: "btree_wf (im_data ?s)" "im_snap_view ?s (im_data ?s) = im_view ?s" by simp_all
  have "segment_cache_open (op_snap_scan_iter in_memory_ops ?s (im_data ?s)) cfg = Ok \<lparr>sc_segments = [], sc_config = cfg\<rparr>"
    using m by (intro segment_cache_open_ok [where segs = "[]" and hist = "[]" and blk = None and n = 0,
        OF im.snap_scanner_ok [OF im_empty(1) r(1)]])
      (simp_all add: r(2) segs_ok_def)
  moreover have "\<exists>a. sequence_allocator_load in_memory_ops ?s SEQ_BLOCK_KEY = Ok a \<and> current_block (sa_block a) = None
      \<and> peek_next_sequence a = 0"
    using im.load_block [OF im_empty(1), of t SEQ_BLOCK_KEY None] by (auto simp: im.stored_block_def im_empty reserved_end_def unat_eq_0)
  ultimately show ?thesis using snap by (auto simp: from_storage_def log_writer_new_def Let_def)
qed

lemma handle_append_succeeds:
  assumes "0 < length (lwr_records lw)" and "length (lwr_records lw) < 2 ^ 64"
    and put: "\<And>records. \<exists>s1 y s2 r. op_put_with_options ops (lw_storage w) records \<lparr>await_durable = False\<rparr> = (s1, Ok y)
        \<and> op_snapshot ops s1 = (s2, Ok r)"
  shows "\<exists>w' out. handle_append ops w lw = (w', Ok (Some out))"
proof -
  obtain w' x where ha: "handle_append ops w lw = (w', x)" by fastforce
  have nz: "word_of_nat (length (lwr_records lw)) \<noteq> (0 :: u64)"
    using assms(1,2) unat_u64_of_nat [of "length (lwr_records lw)"] by auto
  from ha nz have "\<exists>out. x = Ok (Some out)"
  proof (rule handle_append_cases)
    fix a base r c records2 asg l records3 nk u
    assume wb: "write_and_broadcast ops (w\<lparr>lw_sequence_allocator := a, lw_segment_cache := c, lw_listing_cache := l\<rparr>)
       (add_entries (sa_segment asg) base (lwr_records lw) records3) asg = (w', u)"
      and x: "x = result_map (\<lambda>_. Some \<lparr>start_sequence = base\<rparr>) u"
    from wb put [of "add_entries (sa_segment asg) base (lwr_records lw) records3"] have "u = Ok ()"
      by (auto simp: write_and_broadcast_def Let_def)
    with x show ?thesis by simp
  qed
  with ha show ?thesis by blast
qed

lemma im_append:
  assumes db: "im.db_inv db line" and recs: "recs \<noteq> []"
    and room: "append_room (lw_sequence_allocator (db_writer db)) (lw_segment_cache (db_writer db)) (length recs)"
  shows "\<exists>db' out. append_inner in_memory_ops db recs now = (db', Ok out)"
proof -
  let ?w = "db_writer db" and ?lw = "\<lparr>lwr_records = recs, lwr_timestamp_ms = now\<rparr>"
  have inv: "im_inv (lw_storage ?w)" using db by (simp add: im.db_inv_def im.writer_inv_def)
  have "\<exists>s1 y s2 r. op_put_with_options in_memory_ops (lw_storage ?w) records \<lparr>await_durable = False\<rparr> = (s1, Ok y)
        \<and> op_snapshot in_memory_ops s1 = (s2, Ok r)" for records
    using im_put_Ok [OF inv, of records "\<lparr>await_durable = False\<rparr>"]
    by (cases "im_put_with_options (lw_storage ?w) records \<lparr>await_durable = False\<rparr>")
       (auto simp: in_memory_ops_def im_snapshot_def im_inv_def)
  moreover have "length recs < 2 ^ 64" using room by (auto simp: append_room_def max_def split: if_splits)
  ultimately have "\<exists>w' out. handle_append in_memory_ops ?w ?lw = (w', Ok (Some out))"
    using recs by (intro handle_append_succeeds) auto
  then show ?thesis using recs by (auto simp: append_inner_def Let_def)
qed

lemma im_append_readable:
  assumes "log_run in_memory_ops (in_memory_new t) db log" and "db_visibility db = Memory" and "recs \<noteq> []"
    and "append_room (lw_sequence_allocator (db_writer db)) (lw_segment_cache (db_writer db)) (length recs)"
    and "unat (lw_epoch (db_writer db)) + 1 < 2 ^ 64"
  shows "\<exists>db' out. append_inner in_memory_ops db recs now = (db', Ok out)
    \<and> start_sequence out = peek_next_sequence (lw_sequence_allocator (db_writer db))
    \<and> log_run in_memory_ops (in_memory_new t) (written_subscriber_round in_memory_ops db') (log @ appended (start_sequence out) recs)
    \<and> db_visibility (written_subscriber_round in_memory_ops db') = Memory
    \<and> reads_synced (written_subscriber_round in_memory_ops db')"
proof -
  from im.log_run_inv [OF assms(1) im_empty] obtain line where line: "im.db_inv db line" by blast
  from im_append [OF line assms(3,4)] obtain db' out where app: "append_inner in_memory_ops db recs now = (db', Ok out)" by blast
  note run = log_run.append [OF assms(1,3-5) app]
  from im.db_inv_append [OF line assms(4,5) app assms(3)] obtain segs h where line': "im.db_inv db' (line @ [(segs, h)])"
      and start: "start_sequence out = peek_next_sequence (lw_sequence_allocator (db_writer db))" by blast
  have vis: "db_visibility db' = Memory" "db_seen_epoch db' = db_seen_epoch db"
    using app assms(2,3) by (auto simp: append_inner_def Let_def split: prod.splits result.splits option.splits)
  have "unat (lw_epoch (db_writer db')) = Suc (unat (lw_epoch (db_writer db)))" "db_seen_epoch db' \<le> lw_epoch (db_writer db)"
    using line line' vis(2) by (simp_all add: im.db_inv_def)
  moreover have "wv_epoch (lw_written_tx (db_writer db')) = lw_epoch (db_writer db')"
    using line' by (simp add: im.db_inv_def im.writer_inv_def)
  ultimately have new: "wv_epoch (lw_written_tx (db_writer db')) \<noteq> db_seen_epoch db'" by (auto simp: word_le_nat_alt)
  have "db_visibility (written_subscriber_round in_memory_ops db') = Memory"
    using vis(1) by (simp add: written_subscriber_round_def Let_def im.try_advance_keeps)
  with start show ?thesis
    using app log_run.written [OF run vis(1) new] im.round_synced [OF line' vis(1) new] by blast
qed

text \<open>A run with one append, read back.\<close>

lemma im_example_run:
  assumes "recs \<noteq> []" and "length recs \<le> 4096"
  shows "\<exists>db. log_run in_memory_ops (in_memory_new t) db (appended 0 recs) \<and> db_visibility db = Memory \<and> reads_synced db"
proof -
  from im_open [of t "\<lparr>seal_interval = None\<rparr>" Memory 0] obtain db where
    db: "from_storage in_memory_ops (in_memory_new t) \<lparr>seal_interval = None\<rparr> Memory 0 = (in_memory_new t, Ok db)"
      "db_visibility db = Memory" "sc_segments (lw_segment_cache (db_writer db)) = []" "lw_epoch (db_writer db) = 0"
      "current_block (sa_block (lw_sequence_allocator (db_writer db))) = None"
      "peek_next_sequence (lw_sequence_allocator (db_writer db)) = 0" by blast
  have "append_room (lw_sequence_allocator (db_writer db)) (lw_segment_cache (db_writer db)) (length recs)"
    using db assms(2) by (simp add: append_room_def reserved_end_def)
  from im_append_readable [OF log_run.create [OF db(1)] db(2) assms(1) this] db(4,6) show ?thesis by force
qed

section \<open>A failed put\<close>

text \<open>
  \<open>handle_append\<close> moves the allocator and the caches before it writes.  When the write of the first
  batch fails, the block record and the segment record of that batch are never written again.
\<close>

lemma allocate_fresh:
  assumes "current_block (sa_block a) = None" and "next_sequence (sa_block a) = 0" and "n \<le> 4096" and "n > 0"
    and "allocate a (word_of_nat n) = (a', base, r)"
  shows "alloc_wf a'" and "reserved_end (current_block (sa_block a')) = 4096" and "unat (next_sequence (sa_block a')) = n"
proof -
  have n: "unat (word_of_nat n :: u64) = n" using assms(3) by (intro unat_u64_of_nat) simp
  with assms have "a' = a\<lparr>sa_block := \<lparr>current_block = Some (seq_block_new 0 (max (word_of_nat n) 4096)),
      next_sequence = word_of_nat n\<rparr>\<rparr>"
    by (auto simp: allocate_def remaining_def init_next_block_def Let_def seq_block_new_def DEFAULT_BLOCK_SIZE_def word_le_nat_alt)
  moreover have "unat (max (word_of_nat n) 4096 :: u64) = 4096" using n assms(3) by (simp add: unat_max_u64)
  ultimately show "alloc_wf a'" "reserved_end (current_block (sa_block a')) = 4096" "unat (next_sequence (sa_block a')) = n"
    using n assms(3) by (simp_all add: alloc_wf_def reserved_end_def seq_block_new_def)
qed

lemma fold_put_lkeys:
  assumes "live NoExpiry" and "fold (put_view live) (map lkey_put kvs) m K = Some v"
  shows "m K = Some v \<or> (\<exists>x. K = lkey_bytes x \<and> (x, v) \<in> set kvs)"
  using assms(2)
proof (induction kvs arbitrary: m)
  case (Cons xv kvs)
  obtain x w where xv: "xv = (x, w)" by fastforce
  from Cons.IH [of "m(lkey_bytes x \<mapsto> w)"] Cons.prems assms(1) xv show ?case
    by (auto simp: put_view_lkey simp del: fun_upd_apply split: if_splits) (auto split: if_splits)
qed simp

definition data_key :: "lkey \<Rightarrow> bool" where
  "data_key x = (case x of EntryK _ _ _ \<Rightarrow> True | ListK _ _ \<Rightarrow> True | _ \<Rightarrow> False)"

text \<open>A storage with entries and listings only looks empty to \<open>from_storage\<close>.\<close>

context storage_laws
begin

lemma open_without_metadata:
  assumes inv: "inv s" and m: "\<And>K. view s K \<noteq> None \<Longrightarrow> \<exists>x. K = lkey_bytes x \<and> data_key x"
    and snap: "op_snapshot ops s = (s, Ok r)"
  shows "\<exists>db. from_storage ops s cfg vis d = (s, Ok db) \<and> lw_storage (db_writer db) = s
    \<and> lw_segment_cache (db_writer db) = \<lparr>sc_segments = [], sc_config = cfg\<rparr>
    \<and> sa_block (lw_sequence_allocator (db_writer db)) = \<lparr>current_block = None, next_sequence = 0\<rparr>
    \<and> lw_listing_cache (db_writer db) = listing_cache_new
    \<and> (\<forall>key lo hi. yields (db_scan ops db key lo hi) [])"
proof -
  have block: "view s SEQ_BLOCK_KEY = None"
  proof (rule ccontr)
    assume "view s SEQ_BLOCK_KEY \<noteq> None"
    then obtain x where "lkey_bytes BlockK = lkey_bytes x" "data_key x" using m by fastforce
    then show False by (auto simp: data_key_def simp del: lkey_bytes.simps)
  qed
  then have a: "sequence_allocator_load ops s SEQ_BLOCK_KEY = Ok \<lparr>sa_key = SEQ_BLOCK_KEY, sa_block = \<lparr>current_block = None, next_sequence = 0\<rparr>\<rparr>"
    using get_view [OF inv] by (simp add: sequence_allocator_load_def allocated_seq_block_load_def)
  from snapshot_ok [OF inv snap] have r: "snap_inv r" "snap_view s r = view s" by simp_all
  have "holds (view s) {(x, v). view s (lkey_bytes x) = Some v}" using m by (fastforce simp: holds_def)
  then have "lists_view (view s) (segment_meta_scan_range ids) []" for ids
  proof (rule holds_lists)
    fix K v
    have "\<not> range_contains (segment_meta_scan_range ids) (lkey_bytes x)" if "view s (lkey_bytes x) = Some v" for x
      using m [of "lkey_bytes x"] that by (auto simp: data_key_def lkey_bytes_other simp del: lkey_bytes.simps split: lkey.splits)
    then show "\<lparr>rec_key = K, rec_value = v\<rparr> \<in> set [] \<longleftrightarrow> (\<exists>x. K = lkey_bytes x \<and>
        (x, v) \<in> {(x, v). view s (lkey_bytes x) = Some v} \<and> range_contains (segment_meta_scan_range ids) K)" by auto
  qed simp
  then have c: "segment_cache_open (op_snap_scan_iter ops s r) cfg = Ok \<lparr>sc_segments = [], sc_config = cfg\<rparr>"
    using scanner_lists [OF snap_scanner_ok [OF inv r(1)] segment_meta_range_ok, of "\<lparr>ho_start = 0, ho_end = u32_max\<rparr>" "[]"]
    by (simp add: r(2) segment_cache_open_def scan_segments_def log_from_err_def load_segments_def)
  have "yields (db_scan ops db key lo hi) []" if "sc_segments (db_segments db) = []" for db key lo hi
  proof -
    have "find_covering (db_segments db) rg = []" for rg by (simp add: find_covering_def that)
    then show ?thesis
      using yields_segments [of "db_scan ops db key lo hi" "\<lambda>_. []"]
      by (simp add: db_scan_def view_scan_def log_iterator_open_def db_read_view_def)
  qed
  with a c snap show ?thesis by (simp add: from_storage_def log_writer_new_def Let_def)
qed

end

text \<open>The writer after the failed put of its first batch, and after the next append.\<close>

lemma failed_put_state:
  fixes ops :: "('s, 'r) storage_ops"
  assumes ha: "handle_append (failing_ops ops) w lw = (w1, x)" and fail: "fs_fail_put (lw_storage w) = Some (Once err)"
    and len: "0 < length (lwr_records lw)" "length (lwr_records lw) \<le> 4096"
    and fresh: "current_block (sa_block (lw_sequence_allocator w)) = None" "next_sequence (sa_block (lw_sequence_allocator w)) = 0"
      "sc_segments (lw_segment_cache w) = []"
  shows "x = Err (storage_error_string err)" and "lw_storage w1 = (lw_storage w)\<lparr>fs_fail_put := None\<rparr>"
    and "alloc_wf (lw_sequence_allocator w1)" and "reserved_end (current_block (sa_block (lw_sequence_allocator w1))) = 4096"
    and "unat (next_sequence (sa_block (lw_sequence_allocator w1))) = length (lwr_records lw)"
    and "sc_segments (lw_segment_cache w1) \<noteq> []" and "sc_config (lw_segment_cache w1) = sc_config (lw_segment_cache w)"
    and "btree_wf (lc_keys (lw_listing_cache w)) \<Longrightarrow> btree_wf (lc_keys (lw_listing_cache w1))"
proof -
  let ?recs = "lwr_records lw"
  have nz: "word_of_nat (length ?recs) \<noteq> (0 :: u64)" using len unat_u64_of_nat [of "length ?recs"] by auto
  from ha nz obtain a base r c records2 asg l records3 nk u where
    al: "allocate (lw_sequence_allocator w) (word_of_nat (length ?recs)) = (a, base, r)" and
    asg: "assign_segment (lw_segment_cache w) (lwr_timestamp_ms lw) base
       (case r of Some x \<Rightarrow> [put_record_op_new_with_options x \<lparr>put_ttl = NoExpiry\<rparr>] | None \<Rightarrow> []) False
     = Some (c, records2, asg)" and
    keys: "assign_new_keys (lw_listing_cache w) (seg_id (sa_segment asg)) (map ur_key ?recs) records2 = (l, records3, nk)" and
    wb: "write_and_broadcast (failing_ops ops) (w\<lparr>lw_sequence_allocator := a, lw_segment_cache := c, lw_listing_cache := l\<rparr>)
       (add_entries (sa_segment asg) base ?recs records3) asg = (w1, u)" and
    x: "x = result_map (\<lambda>_. Some \<lparr>start_sequence = base\<rparr>) u"
    by (rule handle_append_cases)
  from wb fail have w1: "w1 = w\<lparr>lw_sequence_allocator := a, lw_segment_cache := c, lw_listing_cache := l,
      lw_storage := (lw_storage w)\<lparr>fs_fail_put := None\<rparr>\<rparr>" and u: "u = Err (storage_error_string err)"
    by (simp_all add: write_and_broadcast_def failing_ops_def failing_put_def)
  show "x = Err (storage_error_string err)" "lw_storage w1 = (lw_storage w)\<lparr>fs_fail_put := None\<rparr>" by (simp_all add: x u w1)
  show "alloc_wf (lw_sequence_allocator w1)" "reserved_end (current_block (sa_block (lw_sequence_allocator w1))) = 4096"
    "unat (next_sequence (sa_block (lw_sequence_allocator w1))) = length ?recs"
    using allocate_fresh [OF fresh(1,2) len(2,1) al] by (simp_all add: w1)
  show "sc_segments (lw_segment_cache w1) \<noteq> []" "sc_config (lw_segment_cache w1) = sc_config (lw_segment_cache w)"
    using asg fresh(3) by (auto simp: w1 assign_segment_def latest_eq should_roll_def segment_cache_insert_def Let_def)
  show "btree_wf (lc_keys (lw_listing_cache w1))" if "btree_wf (lc_keys (lw_listing_cache w))"
    using assign_new_keys_listings(1) [OF that keys] by (simp add: w1)
qed

text \<open>The next append writes listings and entries only.\<close>

lemma append_without_metadata:
  assumes ha: "handle_append ops w lw = (w2, Ok (Some out))"
    and len: "0 < length (lwr_records lw)" "length (lwr_records lw) \<le> 4096"
    and alloc: "alloc_wf (lw_sequence_allocator w)"
      "length (lwr_records lw) + unat (next_sequence (sa_block (lw_sequence_allocator w)))
       \<le> reserved_end (current_block (sa_block (lw_sequence_allocator w)))"
    and seg: "sc_segments (lw_segment_cache w) \<noteq> []" "seal_interval (sc_config (lw_segment_cache w)) = None"
    and listing: "btree_wf (lc_keys (lw_listing_cache w))"
  shows "\<exists>kvs s1 z r. list_all (\<lambda>(x, v). data_key x) kvs
    \<and> op_put_with_options ops (lw_storage w) (map lkey_put kvs) \<lparr>await_durable = False\<rparr> = (s1, Ok z)
    \<and> op_snapshot ops s1 = (lw_storage w2, Ok r)"
proof -
  let ?recs = "lwr_records lw"
  have n: "unat (word_of_nat (length ?recs) :: u64) = length ?recs" using len(2) by (intro unat_u64_of_nat) simp
  then have nz: "word_of_nat (length ?recs) \<noteq> (0 :: u64)" using len by auto
  from ha nz obtain a base r c records2 asg l records3 nk u where
    al: "allocate (lw_sequence_allocator w) (word_of_nat (length ?recs)) = (a, base, r)" and
    asg: "assign_segment (lw_segment_cache w) (lwr_timestamp_ms lw) base
       (case r of Some x \<Rightarrow> [put_record_op_new_with_options x \<lparr>put_ttl = NoExpiry\<rparr>] | None \<Rightarrow> []) False
     = Some (c, records2, asg)" and
    keys: "assign_new_keys (lw_listing_cache w) (seg_id (sa_segment asg)) (map ur_key ?recs) records2 = (l, records3, nk)" and
    wb: "write_and_broadcast ops (w\<lparr>lw_sequence_allocator := a, lw_segment_cache := c, lw_listing_cache := l\<rparr>)
       (add_entries (sa_segment asg) base ?recs records3) asg = (w2, u)" and
    x: "Ok (Some out) = result_map (\<lambda>_. Some \<lparr>start_sequence = base\<rparr>) u"
    by (rule handle_append_cases)
  have "unat (word_of_nat (length ?recs) :: u64) \<le> unat (remaining (sa_block (lw_sequence_allocator w)))"
    using alloc n unat_remaining [OF alloc(1)] by simp
  from allocate_reserved(1) [OF alloc(1) this] al have "r = None" by simp
  with asg seg have "records2 = []" by (auto simp: assign_segment_def latest_eq should_roll_def Let_def)
  with assign_new_keys_listings(2) [OF listing keys] obtain added where
    added: "records3 = map lkey_put (map (\<lambda>k. (ListK (seg_id (sa_segment asg)) k, [])) added)" by auto
  define kvs where "kvs = map (\<lambda>k. (ListK (seg_id (sa_segment asg)) k, [])) added @
        map (\<lambda>(s, e). (entry_lkey s e, le_value e)) (new_entries (sa_segment asg) base ?recs)"
  have kvs: "add_entries (sa_segment asg) base ?recs records3 = map lkey_put kvs"
    unfolding add_entries_puts added kvs_def map_append ..
  have data: "list_all (\<lambda>(x, v). data_key x) kvs"
    by (auto simp: kvs_def list_all_iff data_key_def entry_lkey_def)
  from x have "u = Ok ()" by (cases u) simp_all
  with wb kvs data show ?thesis
    by (auto simp: write_and_broadcast_def Let_def split: prod.splits result.splits)
qed

lemma failing_im_snapshot:
  "im_inv (fs_inner fs) \<Longrightarrow> fs_fail_snapshot fs = None \<Longrightarrow>
     op_snapshot (failing_ops in_memory_ops) fs = (fs, Ok (im_data (fs_inner fs)))"
  by (simp add: failing_ops_def failing_snapshot_def inner_call_def in_memory_ops_def im_snapshot_def im_inv_def)

lemma failing_im_append:
  assumes inv: "im_inv (fs_inner (lw_storage w))" and slots: "fs_fail_put (lw_storage w) = None" "fs_fail_snapshot (lw_storage w) = None"
    and len: "0 < length (lwr_records lw)" "length (lwr_records lw) \<le> 4096"
  shows "\<exists>w' out. handle_append (failing_ops in_memory_ops) w lw = (w', Ok (Some out))"
proof (rule handle_append_succeeds)
  fix records
  show "\<exists>s1 y s2 r. op_put_with_options (failing_ops in_memory_ops) (lw_storage w) records \<lparr>await_durable = False\<rparr> = (s1, Ok y)
        \<and> op_snapshot (failing_ops in_memory_ops) s1 = (s2, Ok r)"
    using slots im_put_Ok [OF inv, of records "\<lparr>await_durable = False\<rparr>"]
    by (cases "im_put_with_options (fs_inner (lw_storage w)) records \<lparr>await_durable = False\<rparr>")
       (auto simp: failing_ops_def failing_put_def failing_snapshot_def inner_call_def in_memory_ops_def im_snapshot_def im_inv_def)
qed (use len in simp_all)

section \<open>Properties\<close>

text \<open>
  C1. Read your writes.  In any run of a database over in-memory storage (appends, flushes, subscriber
  rounds and restarts in any order), once \<open>sync_reads\<close> lets a read of \<open>Memory\<close> visibility through, a
  scan of a key over a range yields exactly the acknowledged entries of that key with a sequence
  number in the range, in the order they were appended.
\<close>

theorem log_scan_reads_your_writes:
  assumes "log_run in_memory_ops (in_memory_new t) db log" and "db_visibility db = Memory" and "reads_synced db"
  shows "yields (db_scan in_memory_ops db key a b) (filter (in_scan key (normalize_sequence a b)) log)"
proof -
  from im.log_run_inv [OF assms(1) im_empty] obtain line where line: "im.db_inv db line" "map snd (snd (last line)) = log" by blast
  from im.scan_read_epoch [OF line(1), of key "normalize_sequence a b"] im.synced_epoch [OF line(1) assms(2,3)] line(2)
  show ?thesis by (simp add: db_scan_def)
qed

theorem log_scan_reads_your_writes_witness:
  "\<exists>db. reads_synced db \<and> db_visibility db = Memory \<and>
     yields (db_scan in_memory_ops db [1] (Included 1) Unbounded)
       [\<lparr>le_key = [1], le_sequence = 2, le_value = [30]\<rparr>]"
proof -
  let ?recs = "[\<lparr>ur_key = [1], ur_value = [10]\<rparr>, \<lparr>ur_key = [2], ur_value = [20]\<rparr>, \<lparr>ur_key = [1], ur_value = [30]\<rparr>]"
  from im_example_run [of ?recs 0] obtain db where
    db: "log_run in_memory_ops (in_memory_new 0) db (appended 0 ?recs)" "db_visibility db = Memory" "reads_synced db" by auto
  from log_scan_reads_your_writes [OF db, of "[1]" "Included 1" Unbounded] db(2,3) show ?thesis
    by (auto simp: appended_def in_scan_def normalize_sequence_def)
qed

text \<open>
  C7. Snapshot reads.  At every moment of a run, with either visibility and without waiting, a scan
  yields the matching entries of a prefix of the log: it never shows an entry without the ones before
  it, nor one twice or out of order.
\<close>

theorem log_scan_prefix_consistent:
  assumes "log_run in_memory_ops (in_memory_new t) db log"
  shows "\<exists>n. yields (db_scan in_memory_ops db key a b) (filter (in_scan key (normalize_sequence a b)) (take n log))"
proof -
  from im.log_run_inv [OF assms im_empty] obtain line where line: "im.db_inv db line" "map snd (snd (last line)) = log" by blast
  from im.read_prefix [OF line(1)] obtain n where "map snd (snd (line ! unat (read_epoch db))) = take n log"
    using line(2) by auto
  with im.scan_read_epoch [OF line(1), of key "normalize_sequence a b"] show ?thesis
    by (intro exI [of _ n]) (simp add: db_scan_def)
qed

theorem log_scan_prefix_consistent_witness:
  "\<exists>db n. yields (db_scan in_memory_ops db [7] Unbounded Unbounded)
     (filter (in_scan [7] (normalize_sequence Unbounded Unbounded)) (take n (appended 0 [\<lparr>ur_key = [7], ur_value = [1]\<rparr>])))"
proof -
  from im_example_run [of "[\<lparr>ur_key = [7], ur_value = [1]\<rparr>]" 0] obtain db where
    "log_run in_memory_ops (in_memory_new 0) db (appended 0 [\<lparr>ur_key = [7], ur_value = [1]\<rparr>])" by auto
  from log_scan_prefix_consistent [OF this, of "[7]" Unbounded Unbounded] show ?thesis by blast
qed



text \<open>
  C23. \<open>list_keys\<close> over all segments returns the distinct keys of the log in order, once reads are
  synced.
\<close>

theorem log_list_keys_complete:
  assumes "log_run in_memory_ops (in_memory_new t) db log" and "db_visibility db = Memory" and "reads_synced db"
  shows "\<exists>ks. db_list_keys in_memory_ops db Unbounded Unbounded = Ok ks \<and> sorted_wrt (<) ks \<and> set ks = le_key ` set log"
proof -
  from im.log_run_inv [OF assms(1) im_empty] obtain line where line: "im.db_inv db line" "map snd (snd (last line)) = log" by blast
  from im.keys_read_epoch [OF line(1)] im.synced_epoch [OF line(1) assms(2,3)] line(2) show ?thesis by simp
qed

theorem log_list_keys_complete_witness:
  "\<exists>db ks. db_list_keys in_memory_ops db Unbounded Unbounded = Ok ks \<and> sorted_wrt (<) ks \<and> set ks = {[1], [2]}"
proof -
  let ?recs = "[\<lparr>ur_key = [2], ur_value = []\<rparr>, \<lparr>ur_key = [1], ur_value = []\<rparr>, \<lparr>ur_key = [2], ur_value = []\<rparr>]"
  from im_example_run [of ?recs 0] obtain db where
    db: "log_run in_memory_ops (in_memory_new 0) db (appended 0 ?recs)" "db_visibility db = Memory" "reads_synced db" by auto
  have "le_key ` set (appended 0 ?recs) = {[1], [2]}" by (auto simp: appended_def)
  with log_list_keys_complete [OF db] show ?thesis by auto
qed

text \<open>
  C20. An append within the limits always succeeds over in-memory storage, and one round of the
  subscriber later reads are synced.
\<close>

theorem log_append_becomes_readable:
  assumes "log_run in_memory_ops (in_memory_new t) db log" and "db_visibility db = Memory" and "recs \<noteq> []"
    and "append_room (lw_sequence_allocator (db_writer db)) (lw_segment_cache (db_writer db)) (length recs)"
    and "unat (lw_epoch (db_writer db)) + 1 < 2 ^ 64"
  shows "\<exists>db' out. append_inner in_memory_ops db recs now = (db', Ok out)
    \<and> log_run in_memory_ops (in_memory_new t) (written_subscriber_round in_memory_ops db') (log @ appended (start_sequence out) recs)
    \<and> reads_synced (written_subscriber_round in_memory_ops db')"
proof -
  from im_append_readable [OF assms, of now] obtain db' out where
    "append_inner in_memory_ops db recs now = (db', Ok out)"
    "log_run in_memory_ops (in_memory_new t) (written_subscriber_round in_memory_ops db') (log @ appended (start_sequence out) recs)"
    "reads_synced (written_subscriber_round in_memory_ops db')" by blast
  then show ?thesis by blast
qed

theorem log_append_becomes_readable_witness:
  "\<exists>db db' out. append_inner in_memory_ops db [\<lparr>ur_key = [1], ur_value = [2]\<rparr>] 0 = (db', Ok out)
     \<and> reads_synced (written_subscriber_round in_memory_ops db')"
proof -
  from im_open [of 0 "\<lparr>seal_interval = None\<rparr>" Memory 0] obtain db where
    db: "from_storage in_memory_ops (in_memory_new 0) \<lparr>seal_interval = None\<rparr> Memory 0 = (in_memory_new 0, Ok db)"
      "db_visibility db = Memory" "sc_segments (lw_segment_cache (db_writer db)) = []" "lw_epoch (db_writer db) = 0"
      "current_block (sa_block (lw_sequence_allocator (db_writer db))) = None" by blast
  then show ?thesis
    using log_append_becomes_readable [OF log_run.create [OF db(1)] db(2), of "[\<lparr>ur_key = [1], ur_value = [2]\<rparr>]" 0]
    by (auto simp: append_room_def reserved_end_def)
qed

text \<open>
  C14. A failed write loses later, acknowledged appends.  If the write of a new log's first append
  fails once, the next append (within the same block of sequence numbers) is acknowledged, yet after a
  restart no scan finds any entry and sequence numbers start at 0 again: the block and segment records
  of the failed batch are never written, because the allocator and the segment cache moved before the
  write.
\<close>

theorem failed_append_loses_acknowledged_entries:
  assumes "recs1 \<noteq> []" and "recs2 \<noteq> []" and "length recs1 + length recs2 \<le> 4096"
  shows "\<exists>s db db1 db2 out s3 db3.
     from_storage (failing_ops in_memory_ops) (fail_put_once (failing_wrap (in_memory_new t)) err) \<lparr>seal_interval = None\<rparr> vis d = (s, Ok db)
     \<and> append_inner (failing_ops in_memory_ops) db recs1 now1 = (db1, Err (AppendStorage (storage_error_string err)))
     \<and> append_inner (failing_ops in_memory_ops) db1 recs2 now2 = (db2, Ok out)
     \<and> from_storage (failing_ops in_memory_ops) (lw_storage (db_writer db2)) \<lparr>seal_interval = None\<rparr> vis d = (s3, Ok db3)
     \<and> peek_next_sequence (lw_sequence_allocator (db_writer db3)) = 0
     \<and> (\<forall>key lo hi. yields (db_scan (failing_ops in_memory_ops) db3 key lo hi) [])"
proof -
  let ?ops = "failing_ops in_memory_ops" and ?s = "fail_put_once (failing_wrap (in_memory_new t)) err"
  let ?lw1 = "\<lparr>lwr_records = recs1, lwr_timestamp_ms = now1\<rparr>" and ?lw2 = "\<lparr>lwr_records = recs2, lwr_timestamp_ms = now2\<rparr>"
  have s: "fs_inner ?s = in_memory_new t" "fs_fail_put ?s = Some (Once err)" "fs_fail_snapshot ?s = None"
    by (simp_all add: fail_put_once_def failing_wrap_def)
  have inv: "im_inv (fs_inner ?s)" by (simp add: s im_empty)
  obtain db where db: "from_storage ?ops ?s \<lparr>seal_interval = None\<rparr> vis d = (?s, Ok db)" "lw_storage (db_writer db) = ?s"
    "lw_segment_cache (db_writer db) = \<lparr>sc_segments = [], sc_config = \<lparr>seal_interval = None\<rparr>\<rparr>"
    "sa_block (lw_sequence_allocator (db_writer db)) = \<lparr>current_block = None, next_sequence = 0\<rparr>"
    "lw_listing_cache (db_writer db) = listing_cache_new"
    using failing_im.open_without_metadata [OF inv _ failing_im_snapshot [OF inv s(3)], of "\<lparr>seal_interval = None\<rparr>" vis d]
    by (auto simp: s im_empty)
  obtain w1 x1 where ha1: "handle_append ?ops (db_writer db) ?lw1 = (w1, x1)" by fastforce
  note w1 = failed_put_state [OF ha1, of err]
  have w1: "x1 = Err (storage_error_string err)" "lw_storage w1 = ?s\<lparr>fs_fail_put := None\<rparr>" "alloc_wf (lw_sequence_allocator w1)"
    "reserved_end (current_block (sa_block (lw_sequence_allocator w1))) = 4096"
    "unat (next_sequence (sa_block (lw_sequence_allocator w1))) = length recs1"
    "sc_segments (lw_segment_cache w1) \<noteq> []" "seal_interval (sc_config (lw_segment_cache w1)) = None"
    "btree_wf (lc_keys (lw_listing_cache w1))"
    using w1 db assms(1,3) s(2) by (simp_all add: listing_cache_new_def)
  obtain w2 out where ha2: "handle_append ?ops w1 ?lw2 = (w2, Ok (Some out))"
    using failing_im_append [of w1 ?lw2] w1(2) inv s(3) assms(2,3) by auto
  have "length recs2 + length recs1 \<le> 4096" "0 < length recs2" "length recs2 \<le> 4096" using assms by auto
  with append_without_metadata [OF ha2] w1 obtain kvs s1 z r where put: "list_all (\<lambda>(x, v). data_key x) kvs"
    "op_put_with_options ?ops (lw_storage w1) (map lkey_put kvs) \<lparr>await_durable = False\<rparr> = (s1, Ok z)"
    "op_snapshot ?ops s1 = (lw_storage w2, Ok r)" by auto
  have inv1: "im_inv (fs_inner (lw_storage w1))" "\<And>K. im_view (fs_inner (lw_storage w1)) K = None"
    using w1(2) s(1) by (simp_all add: im_empty)
  note s1 = failing_im.put_ok [OF inv1(1) put(2)]
  have "fs_fail_snapshot s1 = None"
    using put(2) w1(2) s(3) by (auto simp: failing_ops_def failing_put_def inner_call_def split: prod.splits)
  then have snap: "op_snapshot ?ops s1 = (s1, Ok (im_data (fs_inner s1)))" using s1 by (intro failing_im_snapshot) simp_all
  have "\<exists>x. K = lkey_bytes x \<and> data_key x" if "im_view (fs_inner s1) K \<noteq> None" for K
  proof -
    from that obtain v where "im_view (fs_inner s1) K = Some v" by blast
    with s1 have "fold (put_view (im_live (fs_inner (lw_storage w1)))) (map lkey_put kvs)
        (im_view (fs_inner (lw_storage w1))) K = Some v" by simp
    with failing_im.live_no_expiry [OF inv1(1)] inv1(2) have "\<exists>x. K = lkey_bytes x \<and> (x, v) \<in> set kvs"
      using fold_put_lkeys by (metis option.distinct(1))
    with put(1) show ?thesis by (auto simp: list_all_iff)
  qed
  from failing_im.open_without_metadata [where cfg = "\<lparr>seal_interval = None\<rparr>" and vis = vis and d = d, OF _ this snap] s1 obtain db3 where
    "from_storage ?ops s1 \<lparr>seal_interval = None\<rparr> vis d = (s1, Ok db3)"
    "peek_next_sequence (lw_sequence_allocator (db_writer db3)) = 0" "\<forall>key lo hi. yields (db_scan ?ops db3 key lo hi) []"
    by (auto simp: peek_next_sequence_def)
  moreover have "lw_storage w2 = s1" using put(3) snap by simp
  moreover have "append_inner ?ops db recs1 now1 = (db\<lparr>db_writer := w1\<rparr>, Err (AppendStorage (storage_error_string err)))"
    using ha1 w1(1) assms(1) by (simp add: append_inner_def Let_def)
  moreover have "append_inner ?ops (db\<lparr>db_writer := w1\<rparr>) recs2 now2 = (db\<lparr>db_writer := w2\<rparr>, Ok out)"
    using ha2 assms(2) by (simp add: append_inner_def Let_def)
  ultimately show ?thesis
    by (intro exI [of _ ?s] exI [of _ db] exI [of _ "db\<lparr>db_writer := w1\<rparr>"] exI [of _ "db\<lparr>db_writer := w2\<rparr>"]
        exI [of _ out] exI [of _ s1] exI [of _ db3]) (use db(1) in simp)
qed

theorem failed_append_loses_acknowledged_entries_witness:
  "\<exists>s db db1 db2 out s3 db3.
     from_storage (failing_ops in_memory_ops) (fail_put_once (failing_wrap (in_memory_new 0)) (Storage ''down''))
       \<lparr>seal_interval = None\<rparr> Memory 0 = (s, Ok db)
     \<and> append_inner (failing_ops in_memory_ops) db [\<lparr>ur_key = [1], ur_value = [1]\<rparr>] 0
         = (db1, Err (AppendStorage ''Storage error: down''))
     \<and> append_inner (failing_ops in_memory_ops) db1 [\<lparr>ur_key = [1], ur_value = [2]\<rparr>] 0 = (db2, Ok out)
     \<and> from_storage (failing_ops in_memory_ops) (lw_storage (db_writer db2)) \<lparr>seal_interval = None\<rparr> Memory 0 = (s3, Ok db3)
     \<and> yields (db_scan (failing_ops in_memory_ops) db3 [1] Unbounded Unbounded) []"
  using failed_append_loses_acknowledged_entries [of "[\<lparr>ur_key = [1], ur_value = [1]\<rparr>]" "[\<lparr>ur_key = [1], ur_value = [2]\<rparr>]"
      0 "Storage ''down''" Memory 0 0 0]
  by force

end
