(* ===== verification/Buffer_Batch.thy ===== *)
theory Buffer_Batch
  imports Encoding
begin

text \<open>
  The buffer crate's data batches (\<open>buffer/src/model.rs\<close>, \<open>buffer/src/error.rs\<close>): a batch is the
  records, each behind its length, possibly compressed, followed by a seven-byte footer that holds
  the compression type, the number of records and the format version.  \<open>zstd\<close> is not part of the
  repository; its two entry points are the fields of the record \<open>zstd_ops\<close>, and what the code
  relies on is \<open>zstd_inverse\<close>.  The lemmas show that decoding gives back what was encoded, and
  that whatever the bytes are decoding neither panics nor invents data.
\<close>

section \<open>Errors\<close>

text \<open>\<open>Error\<close>: a message is its format string and the numbers it is filled in with.\<close>

datatype buffer_error =
    BufStorage string "int list"
  | BufSerialization string "int list"
  | BufInvalidInput string "int list"
  | Fenced

type_synonym 'a buffer_result = "('a, buffer_error) result"

section \<open>Encoding and decoding a batch\<close>

datatype compression_type = NoCompression | Zstd

text \<open>\<open>zstd::bulk::compress\<close> at a level, and \<open>zstd::stream::decode_all\<close>; an error is its text.\<close>

record zstd_ops =
  zstd_compress :: "int \<Rightarrow> bytes \<Rightarrow> (bytes, string) result"
  zstd_decode_all :: "bytes \<Rightarrow> (bytes, string) result"

definition batch_format_version :: u16 where "batch_format_version = 1"

definition batch_footer_size :: nat where "batch_footer_size = 1 + 4 + 2"

definition zstd_level :: int where "zstd_level = 3"

fun compression_byte :: "compression_type \<Rightarrow> u8" where
  "compression_byte NoCompression = 0"
| "compression_byte Zstd = 1"

definition compression_try_from :: "u8 \<Rightarrow> compression_type buffer_result" where
  "compression_try_from value =
     (if value = 0 then Ok NoCompression
      else if value = 1 then Ok Zstd
      else Err (BufSerialization ''unsupported compression type: {other}'' [uint value]))"

fun encode_records :: "bytes list \<Rightarrow> bytes" where
  "encode_records [] = []"
| "encode_records (entry # entries) =
     put_u32_le (word_of_nat (length entry)) @ entry @ encode_records entries"

definition encode_batch :: "zstd_ops \<Rightarrow> bytes list \<Rightarrow> compression_type \<Rightarrow> bytes buffer_result" where
  "encode_batch zs entries compression =
     result_bind
       (case compression of
          NoCompression \<Rightarrow> Ok (encode_records entries)
        | Zstd \<Rightarrow>
            result_map_err (\<lambda>e. BufSerialization (''zstd compression failed: '' @ e) [])
              (zstd_compress zs zstd_level (encode_records entries)))
       (\<lambda>compressed. Ok (compressed @ [compression_byte compression]
          @ put_u32_le (word_of_nat (length entries)) @ put_u16_le batch_format_version))"

text \<open>The loop of \<^verbatim>\<open>decode_batch\<close>: so many records from the front of the buffer.\<close>

fun decode_records :: "nat \<Rightarrow> bytes \<Rightarrow> bytes list buffer_result" where
  "decode_records 0 entry_data = Ok []"
| "decode_records (Suc n) entry_data =
     (if length entry_data < 4 then Err (BufSerialization ''truncated record length'' [])
      else
        let len = unat (get_u32_le (take 4 entry_data)); rest = drop 4 entry_data in
        if length rest < len then Err (BufSerialization ''truncated record data'' [])
        else result_map (\<lambda>entries. take len rest # entries) (decode_records n (drop len rest)))"

definition decode_batch :: "zstd_ops \<Rightarrow> bytes \<Rightarrow> bytes list buffer_result" where
  "decode_batch zs data =
     (if length data < batch_footer_size
      then Err (BufSerialization ''batch too small for footer'' [])
      else
        let footer_start = length data - batch_footer_size;
            footer = drop footer_start data;
            body = take footer_start data
        in result_bind (compression_try_from (hd footer)) (\<lambda>compression.
          let record_count = unat (get_u32_le (take 4 (drop 1 footer)));
              version = get_u16_le (take 2 (drop 5 footer))
          in if version \<noteq> batch_format_version
             then Err (BufSerialization ''unsupported batch version: {}'' [uint version])
             else result_bind
               (case compression of
                  NoCompression \<Rightarrow> Ok body
                | Zstd \<Rightarrow>
                    result_map_err (\<lambda>e. BufSerialization (''zstd decompression failed: '' @ e) [])
                      (zstd_decode_all zs body))
               (decode_records record_count)))"

text \<open>What the code relies on: what was compressed at the level used is decompressed to itself.\<close>

definition zstd_inverse :: "zstd_ops \<Rightarrow> bool" where
  "zstd_inverse zs \<longleftrightarrow> (\<forall>bs c. zstd_compress zs zstd_level bs = Ok c \<longrightarrow> zstd_decode_all zs c = Ok bs)"

text \<open>The sizes the format can hold: \<open>u32\<close> lengths and an \<open>u32\<close> number of records.\<close>

definition batch_ok :: "bytes list \<Rightarrow> bool" where
  "batch_ok entries \<longleftrightarrow> length entries < 2 ^ 32 \<and> (\<forall>e \<in> set entries. length e < 2 ^ 32)"

section \<open>The round trip\<close>

lemma decode_records_encode:
  assumes "\<forall>e \<in> set entries. length e < 2 ^ 32"
  shows "decode_records (length entries) (encode_records entries @ rest) = Ok entries"
  using assms
proof (induction entries)
  case (Cons e es)
  then have "unat (word_of_nat (length e) :: u32) = length e" by (intro unat_u32_of_nat) simp
  with Cons show ?case by (simp add: Let_def)
qed simp

lemma compression_round_trip [simp]: "compression_try_from (compression_byte c) = Ok c"
  by (cases c) (simp_all add: compression_try_from_def)

lemma decode_batch_footer:
  assumes "n < 2 ^ 32"
  shows "decode_batch zs (body @ [compression_byte c] @ put_u32_le (word_of_nat n) @ put_u16_le batch_format_version) =
    result_bind
      (case c of
         NoCompression \<Rightarrow> Ok body
       | Zstd \<Rightarrow> result_map_err (\<lambda>e. BufSerialization (''zstd decompression failed: '' @ e) []) (zstd_decode_all zs body))
      (decode_records n)"
  using assms
  by (cases c) (simp_all add: decode_batch_def batch_footer_size_def Let_def unat_u32_of_nat compression_try_from_def)

lemma encode_batch_decodes:
  assumes "batch_ok entries" and "zstd_inverse zs" and "encode_batch zs entries c = Ok data"
  shows "decode_batch zs data = Ok entries"
proof -
  from assms(1) have recs: "decode_records (length entries) (encode_records entries) = Ok entries"
    and n: "length entries < 2 ^ 32"
    using decode_records_encode [of entries "[]"] by (auto simp: batch_ok_def)
  show ?thesis
  proof (cases c)
    case NoCompression
    with assms(3) have d: "data = encode_records entries @ [compression_byte c]
        @ put_u32_le (word_of_nat (length entries)) @ put_u16_le batch_format_version"
      by (simp add: encode_batch_def)
    show ?thesis unfolding d decode_batch_footer [OF n] using NoCompression recs by simp
  next
    case Zstd
    with assms(3) obtain z where z: "zstd_compress zs zstd_level (encode_records entries) = Ok z"
      and d: "data = z @ [compression_byte Zstd] @ put_u32_le (word_of_nat (length entries)) @ put_u16_le batch_format_version"
      by (cases "zstd_compress zs zstd_level (encode_records entries)") (auto simp: encode_batch_def)
    from z assms(2) have "zstd_decode_all zs z = Ok (encode_records entries)" by (auto simp: zstd_inverse_def)
    with recs show ?thesis unfolding d decode_batch_footer [OF n] by simp
  qed
qed

section \<open>Robustness\<close>

lemma decode_records_consumes:
  "decode_records n bs = Ok entries \<Longrightarrow>
    length entries = n \<and> (\<forall>e \<in> set entries. length e < 2 ^ 32) \<and> (\<exists>rest. bs = encode_records entries @ rest)"
proof (induction n arbitrary: bs entries)
  case (Suc n)
  let ?len = "unat (get_u32_le (take 4 bs))"
  from Suc.prems obtain es where l: "\<not> length bs < 4" "\<not> length (drop 4 bs) < ?len"
    and es: "decode_records n (drop ?len (drop 4 bs)) = Ok es" and e: "entries = take ?len (drop 4 bs) # es"
    by (cases "decode_records n (drop ?len (drop 4 bs))") (auto simp: Let_def split: if_splits)
  from Suc.IH [OF es] obtain rest where IH: "length es = n" "\<forall>e \<in> set es. length e < 2 ^ 32"
    "drop ?len (drop 4 bs) = encode_records es @ rest" by blast
  have "put_u32_le (get_u32_le (take 4 bs)) = take 4 bs"
    using le_enc_le_val [of "take 4 bs"] l(1) be_val_less [of "rev (take 4 bs)"]
    by (simp add: put_u32_le_def get_u32_le_def le_val_def unat_u32_of_nat)
  moreover have "drop 4 bs = take ?len (drop 4 bs) @ encode_records es @ rest"
    using IH(3) append_take_drop_id [of ?len "drop 4 bs"] by simp
  moreover have "word_of_nat (length (take ?len (drop 4 bs))) = get_u32_le (take 4 bs)"
    using l(2) by (simp add: min_def)
  ultimately have "bs = encode_records entries @ rest"
    using append_take_drop_id [of 4 bs] unfolding e by (metis append_assoc encode_records.simps(2))
  moreover have "length (take ?len (drop 4 bs)) < 2 ^ 32"
    using unat_u32_less [of "get_u32_le (take 4 bs)"] by simp
  ultimately show ?case using IH(1,2) unfolding e by auto
qed simp

lemma decode_records_no_panic: "decode_records n bs \<noteq> Panic"
proof (induction n arbitrary: bs)
  case (Suc n)
  show ?case
    using Suc [of "drop (unat (get_u32_le (take 4 bs))) (drop 4 bs)"]
    by (cases "decode_records n (drop (unat (get_u32_le (take 4 bs))) (drop 4 bs))") (auto simp: Let_def)
qed simp

lemma decode_batch_uncompressed:
  assumes "decode_batch zs data = Ok entries" and "hd (drop (length data - 7) data) = 0"
  shows "batch_ok entries \<and> (\<exists>rest. data = encode_records entries @ rest)"
proof -
  let ?f = "drop (length data - 7) data" and ?b = "take (length data - 7) data"
  let ?n = "unat (get_u32_le (take 4 (drop 1 ?f)))"
  from assms have "decode_records ?n ?b = Ok entries"
    by (auto simp: decode_batch_def batch_footer_size_def compression_try_from_def Let_def split: if_splits)
  from decode_records_consumes [OF this] obtain rest
    where "length entries = ?n" "\<forall>e \<in> set entries. length e < 2 ^ 32" "?b = encode_records entries @ rest" by blast
  moreover from this(3) have "data = encode_records entries @ rest @ ?f"
    using append_take_drop_id [of "length data - 7" data] by simp
  ultimately show ?thesis using unat_u32_less [of "get_u32_le (take 4 (drop 1 ?f))"] by (auto simp: batch_ok_def)
qed

end
