(* ===== verification/Buffer_Manifest.thy ===== *)
theory Buffer_Manifest
  imports Buffer_Batch
begin

text \<open>
  The queue manifest (\<open>buffer/src/queue.rs\<close>, \<open>Manifest\<close>, \<open>ManifestIter\<close>, \<open>split_entries\<close>,
  \<open>decode_entry\<close>, \<open>parse_manifest\<close>): one object that lists the batches waiting to be consumed.
  Its bytes are the entries, each behind its length, and a footer with the number of entries, the
  next sequence number, the epoch of the active consumer and the format version.  The code keeps
  the bytes as they were read and the entries appended since in a second buffer, decodes entries
  only when they are asked for, and copies the bytes of the entries that stay.  The lemmas show
  that this implements a plain list of entries: \<open>manifest_rep m es\<close> relates the two, and every
  operation of the code is an operation on \<open>es\<close>.  The offset of a decoder is part of its result
  also when it fails, because \<open>ManifestIter\<close> goes on from there.
\<close>

named_theorems manifest_simps \<open>sizes and constants of the manifest format\<close>

section \<open>Entries\<close>

record queue_metadata =
  md_start_index :: u32
  md_ingestion_time_ms :: i64
  md_payload :: bytes

record queue_entry =
  qe_sequence :: u64
  qe_location :: bytes
  qe_metadata :: "queue_metadata list"

definition manifest_version :: u16 where "manifest_version = 1"

definition uninitialized_epoch :: u64 where "uninitialized_epoch = u64_max"

definition manifest_footer_size :: nat where [manifest_simps]: "manifest_footer_size = 4 + 8 + 8 + 2"

definition queue_entry_new :: "bytes \<Rightarrow> queue_metadata list \<Rightarrow> queue_entry buffer_result" where
  "queue_entry_new location metadata =
     (if length location > 65535
      then Err (BufInvalidInput ''location length {} exceeds u16::MAX'' [int (length location)])
      else if length metadata > 4294967295
      then Err (BufInvalidInput ''metadata count {} exceeds u32::MAX'' [int (length metadata)])
      else Ok \<lparr>qe_sequence = 0, qe_location = location, qe_metadata = metadata\<rparr>)"

definition clone_with_sequence :: "queue_entry \<Rightarrow> u64 \<Rightarrow> queue_entry" where
  "clone_with_sequence entry sequence = entry\<lparr>qe_sequence := sequence\<rparr>"

text \<open>
  \<open>encode_entry\<close> writes to a buffer and may stop half way: the buffer is part of what comes back.
\<close>

fun encode_metadata :: "bytes \<Rightarrow> queue_metadata list \<Rightarrow> bytes \<times> unit buffer_result" where
  "encode_metadata buf [] = (buf, Ok ())"
| "encode_metadata buf (m # ms) =
     (if length (md_payload m) > 4294967295
      then (buf, Err (BufInvalidInput ''metadata payload size {} exceeds u32::MAX'' [int (length (md_payload m))]))
      else encode_metadata
        (buf @ put_u32_le (md_start_index m) @ put_u64_le (md_ingestion_time_ms m)
         @ put_u32_le (word_of_nat (length (md_payload m))) @ md_payload m) ms)"

definition entry_body_len :: "queue_entry \<Rightarrow> nat" where
  "entry_body_len entry =
     8 + 2 + length (qe_location entry)
     + (4 + sum_list (map (\<lambda>m. 4 + 8 + 4 + length (md_payload m)) (qe_metadata entry)))"

definition encode_entry :: "bytes \<Rightarrow> queue_entry \<Rightarrow> bytes \<times> unit buffer_result" where
  "encode_entry buf entry =
     encode_metadata
       (buf @ put_u32_le (word_of_nat (entry_body_len entry)) @ put_u64_le (qe_sequence entry)
        @ put_u16_le (word_of_nat (length (qe_location entry))) @ qe_location entry
        @ put_u32_le (word_of_nat (length (qe_metadata entry))))
       (qe_metadata entry)"

text \<open>A slice \<open>data[off..off + n]\<close>, which panics when it does not lie in the data.\<close>

definition read_at ::
  "bytes \<Rightarrow> nat \<Rightarrow> nat \<Rightarrow> (bytes \<Rightarrow> nat \<times> 'a buffer_result) \<Rightarrow> nat \<times> 'a buffer_result" where
  "read_at data off n k =
     (if off + n \<le> length data then k (take n (drop off data)) else (off, Panic))"

definition corrupt :: "string \<Rightarrow> buffer_error" where
  "corrupt msg = BufSerialization (''queue entry corrupt: '' @ msg) []"

fun decode_metadata :: "bytes \<Rightarrow> nat \<Rightarrow> nat \<Rightarrow> nat \<Rightarrow> nat \<times> queue_metadata list buffer_result" where
  "decode_metadata data off stop 0 = (off, Ok [])"
| "decode_metadata data off stop (Suc n) =
     (if off + 4 > stop then (off, Err (corrupt ''size of start index field does not fit in entry''))
      else read_at data off 4 (\<lambda>si. let off = off + 4 in
        if off + 8 > stop then (off, Err (corrupt ''size of ingestion time field does not fit in entry''))
        else read_at data off 8 (\<lambda>time. let off = off + 8 in
          if off + 4 > stop then (off, Err (corrupt ''size of metadata length field does not fit in entry''))
          else read_at data off 4 (\<lambda>len. let off = off + 4; m_len = unat (get_u32_le len) in
            if off + m_len > stop
            then (off, Err (corrupt ''metadata has less bytes than set in the metadata length''))
            else read_at data off m_len (\<lambda>payload.
              case decode_metadata data (off + m_len) stop n of (off', r) \<Rightarrow>
                (off', result_map (\<lambda>ms. \<lparr>md_start_index = get_u32_le si,
                   md_ingestion_time_ms = get_u64_le time, md_payload = payload\<rparr> # ms) r))))))"

text \<open>
  \<open>decode_entry\<close>; of the text of the UTF-8 error, which also says where the error is, only the
  fixed part is kept.
\<close>

definition decode_entry :: "bytes \<Rightarrow> nat \<Rightarrow> nat \<Rightarrow> nat \<times> queue_entry buffer_result" where
  "decode_entry data off stop =
     (if off + 4 > stop
      then (off, Err (corrupt ''size of entry length field does not fit in entry''))
      else read_at data off 4 (\<lambda>len. let entry_len = unat (get_u32_le len); off = off + 4 in
        if off + entry_len > stop
        then (off, Err (corrupt ''entry has less bytes than set in the entry length''))
        else let entry_end = off + entry_len in
          read_at data off 8 (\<lambda>sequence. let off = off + 8 in
            read_at data off 2 (\<lambda>ll.
              let location_len = unat (get_u16_le ll); off = off + 2;
                  min_entry_len = 8 + 2 + location_len + 4
              in if entry_len < min_entry_len
                 then (off, Err (BufSerialization
                   ''queue entry corrupt: entry length {} is less than minimum entry length {} for the length of the location {}''
                   [int entry_len, int min_entry_len, int location_len]))
                 else read_at data off location_len (\<lambda>location.
                   if \<not> utf8_valid location then (off, Err (BufSerialization ''invalid utf-8 sequence'' []))
                   else let off = off + location_len in
                     read_at data off 4 (\<lambda>mc.
                       case decode_metadata data (off + 4) stop (unat (get_u32_le mc)) of
                         (off', Ok metadata) \<Rightarrow>
                           (entry_end, Ok \<lparr>qe_sequence = get_u64_le sequence,
                              qe_location = location, qe_metadata = metadata\<rparr>)
                       | (off', Err e) \<Rightarrow> (off', Err e)
                       | (off', Panic) \<Rightarrow> (off', Panic)))))))"

section \<open>The manifest\<close>

record manifest =
  mf_data :: bytes
  mf_appended :: bytes
  mf_appended_count :: nat
  mf_next_sequence :: u64
  mf_epoch :: u64

definition manifest_footer :: "u32 \<Rightarrow> u64 \<Rightarrow> u64 \<Rightarrow> bytes" where
  "manifest_footer count next_sequence epoch =
     put_u32_le count @ put_u64_le next_sequence @ put_u64_le epoch @ put_u16_le manifest_version"

definition manifest_empty :: manifest where
  "manifest_empty = \<lparr>mf_data = manifest_footer 0 0 0, mf_appended = [], mf_appended_count = 0,
     mf_next_sequence = 0, mf_epoch = 0\<rparr>"

definition manifest_from_bytes :: "bytes \<Rightarrow> manifest buffer_result" where
  "manifest_from_bytes data =
     (if data = [] then Err (BufSerialization ''queue manifest data must not be empty'' [])
      else if length data < manifest_footer_size
      then Err (BufSerialization ''queue manifest too short for footer'' [])
      else
        let version = get_u16_le (drop (length data - 2) data) in
        if version \<noteq> manifest_version
        then Err (BufSerialization ''unsupported queue manifest version: {}'' [uint version])
        else Ok \<lparr>mf_data = data, mf_appended = [], mf_appended_count = 0,
               mf_next_sequence = get_u64_le (take 8 (drop (length data - 2 - 8 - 8) data)),
               mf_epoch = get_u64_le (take 8 (drop (length data - 2 - 8) data))\<rparr>)"

text \<open>
  A manifest is made by \<open>empty\<close> or \<open>from_bytes\<close> and every operation keeps a footer at the end of
  its data, so the subtractions below do not underflow.
\<close>

definition existing_entries_count :: "manifest \<Rightarrow> nat" where
  "existing_entries_count m =
     (if mf_data m = [] then 0
      else unat (get_u32_le (take 4 (drop (length (mf_data m) - manifest_footer_size) (mf_data m)))))"

definition entries_count :: "manifest \<Rightarrow> nat" where
  "entries_count m = existing_entries_count m + mf_appended_count m"

definition entries_end :: "manifest \<Rightarrow> nat" where
  "entries_end m = (if mf_data m = [] then 0 else length (mf_data m) - manifest_footer_size)"

definition manifest_append :: "manifest \<Rightarrow> queue_entry \<Rightarrow> manifest \<times> unit buffer_result" where
  "manifest_append m entry =
     (case encode_entry (mf_appended m) (clone_with_sequence entry (mf_next_sequence m)) of
        (buf, Ok _) \<Rightarrow>
          (m\<lparr>mf_appended := buf, mf_next_sequence := mf_next_sequence m + 1,
             mf_appended_count := mf_appended_count m + 1\<rparr>, Ok ())
      | (buf, Err e) \<Rightarrow> (m\<lparr>mf_appended := buf\<rparr>, Err e)
      | (buf, Panic) \<Rightarrow> (m\<lparr>mf_appended := buf\<rparr>, Panic))"

text \<open>The loop of \<open>split_entries\<close>; the count that is left is cut to \<open>u32\<close> as the code does.\<close>

fun split_loop ::
  "bytes \<Rightarrow> nat \<Rightarrow> nat \<Rightarrow> u64 \<Rightarrow> nat \<Rightarrow> (queue_entry list \<times> nat \<times> u32) buffer_result" where
  "split_loop data 0 stop through off = Ok ([], stop, 0)"
| "split_loop data (Suc n) stop through off =
     (case decode_entry data off stop of
        (off', Ok entry) \<Rightarrow>
          (if qe_sequence entry \<le> through
           then result_map (\<lambda>(removed, rest). (entry # removed, rest)) (split_loop data n stop through off')
           else Ok ([], off, word_of_nat (Suc n)))
      | (off', Err e) \<Rightarrow> Err e
      | (off', Panic) \<Rightarrow> Panic)"

definition split_entries ::
  "bytes \<Rightarrow> nat \<Rightarrow> nat \<Rightarrow> u64 \<Rightarrow> (queue_entry list \<times> nat \<times> u32) buffer_result" where
  "split_entries data count stop through = split_loop data count stop through 0"

definition manifest_dequeue :: "manifest \<Rightarrow> u64 \<Rightarrow> (manifest \<times> queue_entry list) buffer_result" where
  "manifest_dequeue m through =
     result_bind (split_entries (mf_data m) (existing_entries_count m) (entries_end m) through)
       (\<lambda>(removed, base_start, base_count).
     result_bind (split_entries (mf_appended m) (mf_appended_count m) (length (mf_appended m)) through)
       (\<lambda>(appended_removed, appended_start, appended_count).
     if base_start > entries_end m \<or> entries_end m > length (mf_data m)
        \<or> appended_start > length (mf_appended m) then Panic
     else Ok (m\<lparr>mf_data := drop base_start (take (entries_end m) (mf_data m))
                 @ drop appended_start (mf_appended m)
                 @ manifest_footer (base_count + appended_count) (mf_next_sequence m) (mf_epoch m),
               mf_appended := [], mf_appended_count := 0\<rparr>,
             removed @ appended_removed)))"

definition set_epoch :: "manifest \<Rightarrow> u64 \<Rightarrow> manifest" where
  "set_epoch m epoch =
     (let epoch_start = length (mf_data m) - 2 - 8 in
      m\<lparr>mf_epoch := epoch,
        mf_data := take epoch_start (mf_data m) @ put_u64_le epoch @ drop (epoch_start + 8) (mf_data m)\<rparr>)"

definition manifest_to_bytes :: "manifest \<Rightarrow> bytes buffer_result" where
  "manifest_to_bytes m =
     (if mf_appended m = [] then Ok (mf_data m)
      else
        let prefix = take (entries_end m) (mf_data m);
            base_count = existing_entries_count m;
            appended = unat (word_of_nat (mf_appended_count m) :: u32)
        in if base_count + appended > 4294967295
           then Err (BufSerialization
             ''total entry count consisting of {} existing entries + {} appended entries exceeds u32::MAX''
             [int base_count, int (mf_appended_count m)])
           else Ok (prefix @ mf_appended m
             @ manifest_footer (word_of_nat (base_count + appended)) (mf_next_sequence m) (mf_epoch m)))"

section \<open>Iterating\<close>

record manifest_iter =
  mi_data :: bytes
  mi_offset :: nat
  mi_remaining :: nat
  mi_entries_end :: nat
  mi_appended :: bytes
  mi_appended_offset :: nat
  mi_appended_remaining :: nat

definition manifest_iter_of :: "manifest \<Rightarrow> manifest_iter" where
  "manifest_iter_of m = \<lparr>mi_data = mf_data m, mi_offset = 0, mi_remaining = existing_entries_count m,
     mi_entries_end = entries_end m, mi_appended = mf_appended m, mi_appended_offset = 0,
     mi_appended_remaining = mf_appended_count m\<rparr>"

definition manifest_iter_next ::
  "manifest_iter \<Rightarrow> (queue_entry buffer_result \<times> manifest_iter) option" where
  "manifest_iter_next it =
     (if mi_remaining it > 0 then
        (case decode_entry (mi_data it) (mi_offset it) (mi_entries_end it) of (off, r) \<Rightarrow>
           Some (r, it\<lparr>mi_remaining := mi_remaining it - 1, mi_offset := off\<rparr>))
      else if mi_appended_remaining it > 0 then
        (case decode_entry (mi_appended it) (mi_appended_offset it) (length (mi_appended it)) of (off, r) \<Rightarrow>
           Some (r, it\<lparr>mi_appended_remaining := mi_appended_remaining it - 1, mi_appended_offset := off\<rparr>))
      else if mi_offset it \<noteq> mi_entries_end it then
        Some (Err (BufSerialization ''base entries did not consume all bytes: offset {} != entries_end {}''
                [int (mi_offset it), int (mi_entries_end it)]),
              it\<lparr>mi_offset := mi_entries_end it\<rparr>)
      else None)"

definition iter_measure :: "manifest_iter \<Rightarrow> nat" where
  "iter_measure it = 2 * (mi_remaining it + mi_appended_remaining it)
     + (if mi_offset it \<noteq> mi_entries_end it then 1 else 0)"

lemma manifest_iter_next_decreases:
  "manifest_iter_next it = Some (r, it') \<Longrightarrow> iter_measure it' < iter_measure it"
  by (auto simp: manifest_iter_next_def iter_measure_def split: if_splits prod.splits)

text \<open>All the items, in order: what a \<open>for\<close> loop over the iterator sees.\<close>

function iter_items :: "manifest_iter \<Rightarrow> queue_entry buffer_result list" where
  "iter_items it =
     (case manifest_iter_next it of None \<Rightarrow> [] | Some (r, it') \<Rightarrow> r # iter_items it')"
  by pat_completeness auto
termination
  by (relation "measure iter_measure") (auto dest: manifest_iter_next_decreases)

declare iter_items.simps [simp del]

text \<open>\<open>collect::<Result<Vec<_>>>\<close>: the first item that is not a value ends it.\<close>

fun collect_results :: "('a, 'e) result list \<Rightarrow> ('a list, 'e) result" where
  "collect_results [] = Ok []"
| "collect_results (r # rs) = result_bind r (\<lambda>a. result_map ((#) a) (collect_results rs))"

record manifest_view =
  mv_epoch :: u64
  mv_next_sequence :: u64
  mv_entries :: "queue_entry list"

definition parse_manifest :: "bytes \<Rightarrow> manifest_view buffer_result" where
  "parse_manifest data =
     result_bind (manifest_from_bytes data) (\<lambda>m.
     result_map (\<lambda>entries. \<lparr>mv_epoch = mf_epoch m, mv_next_sequence = mf_next_sequence m,
                           mv_entries = entries\<rparr>)
       (collect_results (iter_items (manifest_iter_of m))))"

section \<open>Canonical bytes\<close>

fun metadata_bytes :: "queue_metadata list \<Rightarrow> bytes" where
  "metadata_bytes [] = []"
| "metadata_bytes (m # ms) =
     put_u32_le (md_start_index m) @ put_u64_le (md_ingestion_time_ms m)
     @ put_u32_le (word_of_nat (length (md_payload m))) @ md_payload m @ metadata_bytes ms"

definition entry_bytes :: "queue_entry \<Rightarrow> bytes" where
  "entry_bytes e =
     put_u32_le (word_of_nat (entry_body_len e)) @ put_u64_le (qe_sequence e)
     @ put_u16_le (word_of_nat (length (qe_location e))) @ qe_location e
     @ put_u32_le (word_of_nat (length (qe_metadata e))) @ metadata_bytes (qe_metadata e)"

abbreviation entries_bytes :: "queue_entry list \<Rightarrow> bytes" where
  "entries_bytes es \<equiv> concat (map entry_bytes es)"

definition manifest_bytes :: "queue_entry list \<Rightarrow> u64 \<Rightarrow> u64 \<Rightarrow> bytes" where
  "manifest_bytes es next_sequence epoch =
     entries_bytes es @ manifest_footer (word_of_nat (length es)) next_sequence epoch"

text \<open>An entry the format can hold; the last bound implies the ones on its parts.\<close>

definition entry_ok :: "queue_entry \<Rightarrow> bool" where
  "entry_ok e \<longleftrightarrow> utf8_valid (qe_location e) \<and> length (qe_location e) \<le> 65535
     \<and> entry_body_len e < 2 ^ 32"

text \<open>
  A manifest stands for the entries in its bytes followed by the appended ones.  Until something
  is appended the footer in the bytes is the current one.
\<close>

definition manifest_rep :: "manifest \<Rightarrow> queue_entry list \<Rightarrow> bool" where
  "manifest_rep m es \<longleftrightarrow>
     (\<exists>base app ns ep. es = base @ app
        \<and> mf_data m = entries_bytes base @ manifest_footer (word_of_nat (length base)) ns ep
        \<and> mf_appended m = entries_bytes app \<and> mf_appended_count m = length app
        \<and> (app = [] \<longrightarrow> ns = mf_next_sequence m \<and> ep = mf_epoch m)
        \<and> length base < 2 ^ 32 \<and> (\<forall>e \<in> set es. entry_ok e))"

section \<open>Decoding an entry\<close>

text \<open>A cursor into the data: what is left of it there.\<close>

definition left_at :: "bytes \<Rightarrow> nat \<Rightarrow> bytes \<Rightarrow> bool" where
  "left_at data off rest \<longleftrightarrow> off \<le> length data \<and> drop off data = rest"

lemma read_left_at:
  "left_at data off (x @ rest) \<Longrightarrow> length x = n \<Longrightarrow> read_at data off n k = k x"
  by (auto simp: left_at_def read_at_def dest: arg_cong [where f = length])

lemma left_at_step:
  assumes "left_at data off (x @ rest)" and "length x = n"
  shows "left_at data (off + n) rest"
proof -
  from assms have "drop n (drop off data) = rest" by (auto simp: left_at_def)
  moreover from assms have "off + n \<le> length data"
    by (auto simp: left_at_def dest: arg_cong [where f = length])
  ultimately show ?thesis by (simp add: left_at_def add.commute)
qed

lemma length_metadata_bytes:
  "length (metadata_bytes ms) = sum_list (map (\<lambda>m. 4 + 8 + 4 + length (md_payload m)) ms)"
  by (induction ms) simp_all

lemma length_entry_bytes: "length (entry_bytes e) = 4 + entry_body_len e"
  by (simp add: entry_bytes_def entry_body_len_def length_metadata_bytes)

lemma entry_bytes_not_Nil [simp]: "entry_bytes e \<noteq> []"
  using length_entry_bytes [of e] by auto

lemma payload_bound: "m \<in> set ms \<Longrightarrow> length (md_payload m) \<le> length (metadata_bytes ms)"
  by (induction ms) auto

lemma metadata_count_bound: "length ms \<le> length (metadata_bytes ms)"
  by (induction ms) auto

lemma entry_ok_metadata:
  assumes "entry_ok e"
  shows "length (qe_metadata e) < 2 ^ 32" "\<forall>m \<in> set (qe_metadata e). length (md_payload m) < 2 ^ 32"
  using assms payload_bound [of _ "qe_metadata e"] metadata_count_bound [of "qe_metadata e"]
  by (force simp: entry_ok_def entry_body_len_def length_metadata_bytes)+

lemma encode_metadata_bytes:
  "\<forall>m \<in> set ms. length (md_payload m) < 2 ^ 32 \<Longrightarrow> encode_metadata buf ms = (buf @ metadata_bytes ms, Ok ())"
  by (induction ms arbitrary: buf) auto

lemma encode_entry_bytes: "entry_ok e \<Longrightarrow> encode_entry buf e = (buf @ entry_bytes e, Ok ())"
  by (simp add: encode_entry_def entry_bytes_def encode_metadata_bytes [OF entry_ok_metadata(2)])

lemma decode_metadata_bytes:
  assumes "left_at data off (metadata_bytes ms @ rest)" and "off + length (metadata_bytes ms) \<le> stop"
    and "\<forall>m \<in> set ms. length (md_payload m) < 2 ^ 32"
  shows "decode_metadata data off stop (length ms) = (off + length (metadata_bytes ms), Ok ms)"
  using assms
proof (induction ms arbitrary: off)
  case (Cons m ms)
  let ?l = "put_u32_le (word_of_nat (length (md_payload m)))" and ?p = "md_payload m"
  from Cons.prems(3) have len: "unat (word_of_nat (length ?p) :: u32) = length ?p" by (intro unat_u32_of_nat) simp
  from Cons.prems(1) have c1: "left_at data off (put_u32_le (md_start_index m) @ put_u64_le (md_ingestion_time_ms m)
      @ ?l @ ?p @ metadata_bytes ms @ rest)" by simp
  have c2: "left_at data (off + 4) (put_u64_le (md_ingestion_time_ms m) @ ?l @ ?p @ metadata_bytes ms @ rest)"
    by (rule left_at_step [OF c1]) simp
  have c3: "left_at data (off + 12) (?l @ ?p @ metadata_bytes ms @ rest)"
    using left_at_step [OF c2, of 8] by (simp add: add.assoc)
  have c4: "left_at data (off + 16) (?p @ metadata_bytes ms @ rest)"
    using left_at_step [OF c3, of 4] by (simp add: add.assoc)
  have c5: "left_at data (off + 16 + length ?p) (metadata_bytes ms @ rest)" by (rule left_at_step [OF c4]) simp
  note reads = read_left_at [OF c1, of 4] read_left_at [OF c2, of 8] read_left_at [OF c3, of 4]
    read_left_at [OF c4, of "length ?p"]
  have "decode_metadata data (off + 16 + length ?p) stop (length ms) =
      (off + 16 + length ?p + length (metadata_bytes ms), Ok ms)"
    using Cons.prems by (intro Cons.IH c5) auto
  then show ?case using Cons.prems(2) len by (simp add: Let_def reads add.assoc)
qed simp

lemma decode_entry_bytes:
  assumes "left_at data off (entry_bytes e @ rest)" and "off + length (entry_bytes e) \<le> stop" and "entry_ok e"
  shows "decode_entry data off stop = (off + length (entry_bytes e), Ok e)"
proof -
  let ?loc = "qe_location e" and ?ms = "qe_metadata e"
  let ?lens = "put_u16_le (word_of_nat (length ?loc))" and ?cnt = "put_u32_le (word_of_nat (length ?ms))"
  from assms(3) have ok: "unat (word_of_nat (entry_body_len e) :: u32) = entry_body_len e"
    "unat (word_of_nat (length ?loc) :: u16) = length ?loc" "unat (word_of_nat (length ?ms) :: u32) = length ?ms"
    "utf8_valid ?loc"
    using entry_ok_metadata(1) [OF assms(3)]
    by (auto simp: entry_ok_def intro!: unat_u32_of_nat unat_word16_of_nat)
  from assms(1) have c1: "left_at data off (put_u32_le (word_of_nat (entry_body_len e))
      @ put_u64_le (qe_sequence e) @ ?lens @ ?loc @ ?cnt @ metadata_bytes ?ms @ rest)" by (simp add: entry_bytes_def)
  have c2: "left_at data (off + 4) (put_u64_le (qe_sequence e) @ ?lens @ ?loc @ ?cnt @ metadata_bytes ?ms @ rest)"
    by (rule left_at_step [OF c1]) simp
  have c3: "left_at data (off + 12) (?lens @ ?loc @ ?cnt @ metadata_bytes ?ms @ rest)"
    using left_at_step [OF c2, of 8] by (simp add: add.assoc)
  have c4: "left_at data (off + 14) (?loc @ ?cnt @ metadata_bytes ?ms @ rest)"
    using left_at_step [OF c3, of 2] by (simp add: ac_simps)
  have c5: "left_at data (off + (14 + length ?loc)) (?cnt @ metadata_bytes ?ms @ rest)"
    using left_at_step [OF c4, of "length ?loc"] by (simp add: add.assoc)
  have c6: "left_at data (off + (18 + length ?loc)) (metadata_bytes ?ms @ rest)"
    using left_at_step [OF c5, of 4] by (simp add: add.assoc add.commute)
  note reads = read_left_at [OF c1, of 4] read_left_at [OF c2, of 8] read_left_at [OF c3, of 2]
    read_left_at [OF c4, of "length ?loc"] read_left_at [OF c5, of 4]
  have body: "entry_body_len e = 14 + length ?loc + length (metadata_bytes ?ms)"
    by (simp add: entry_body_len_def length_metadata_bytes)
  have "decode_metadata data (off + (18 + length ?loc)) stop (length ?ms) =
      (off + (18 + length ?loc) + length (metadata_bytes ?ms), Ok ?ms)"
    using assms(2) entry_ok_metadata(2) [OF assms(3)] body
    by (intro decode_metadata_bytes [OF c6]) (auto simp: length_entry_bytes)
  with assms(2) ok body show ?thesis
    by (simp del: add_2_eq_Suc add_2_eq_Suc' add: decode_entry_def Let_def reads add.assoc length_entry_bytes)
qed

section \<open>The operations on a represented list\<close>

lemma split_loop_entries:
  assumes "left_at data off (entries_bytes es @ rest)" and "stop = off + length (entries_bytes es)"
    and "\<forall>e \<in> set es. entry_ok e"
  shows "split_loop data (length es) stop through off =
    (let keep = dropWhile (\<lambda>e. qe_sequence e \<le> through) es in
     Ok (takeWhile (\<lambda>e. qe_sequence e \<le> through) es, stop - length (entries_bytes keep), word_of_nat (length keep)))"
  using assms
proof (induction es arbitrary: off)
  case (Cons e es)
  let ?k = "length (entry_bytes e)"
  from Cons.prems(1) have at: "left_at data off (entry_bytes e @ entries_bytes es @ rest)" by simp
  have dec: "decode_entry data off stop = (off + ?k, Ok e)"
    using Cons.prems(2,3) by (intro decode_entry_bytes [OF at]) auto
  have "split_loop data (length es) stop through (off + ?k) =
    (let keep = dropWhile (\<lambda>e. qe_sequence e \<le> through) es in
     Ok (takeWhile (\<lambda>e. qe_sequence e \<le> through) es, stop - length (entries_bytes keep), word_of_nat (length keep)))"
    using Cons.prems(2,3) left_at_step [OF at, of ?k] by (intro Cons.IH) auto
  with dec Cons.prems(2) show ?case by (simp add: Let_def)
qed simp

lemma split_entries_bytes:
  assumes "\<forall>e \<in> set es. entry_ok e"
  shows "split_entries (entries_bytes es @ rest) (length es) (length (entries_bytes es)) through =
    (let keep = dropWhile (\<lambda>e. qe_sequence e \<le> through) es in
     Ok (takeWhile (\<lambda>e. qe_sequence e \<le> through) es,
         length (entries_bytes es) - length (entries_bytes keep), word_of_nat (length keep)))"
  unfolding split_entries_def using assms by (intro split_loop_entries) (auto simp: left_at_def)

lemma entries_bytes_split:
  "entries_bytes (takeWhile P es) @ entries_bytes (dropWhile P es) = entries_bytes es"
  by (metis concat_append map_append takeWhile_dropWhile_id)

lemma drop_removed:
  "drop (length (entries_bytes es) - length (entries_bytes (dropWhile P es))) (entries_bytes es) =
    entries_bytes (dropWhile P es)"
proof -
  have "length (entries_bytes es) - length (entries_bytes (dropWhile P es)) = length (entries_bytes (takeWhile P es))"
    using arg_cong [OF entries_bytes_split [of P es], of length] by simp
  then show ?thesis
    by (metis append_eq_conv_conj entries_bytes_split)
qed

lemma puts_not_Nil [simp]: "put_u16_le a \<noteq> []" "put_u32_le b \<noteq> []" "put_u64_le c \<noteq> []"
  using length_puts(3) [of a] length_puts(4) [of b] length_puts(5) [of c] by (force simp del: length_puts)+

lemma length_manifest_footer [simp]: "length (manifest_footer c n e) = manifest_footer_size"
  by (simp add: manifest_footer_def manifest_simps)

lemma manifest_footer_not_Nil [simp]: "manifest_footer c n e \<noteq> []"
  by (simp add: manifest_footer_def)

lemma footer_parts:
  assumes "data = body @ manifest_footer c n e"
  shows "data \<noteq> []" "manifest_footer_size \<le> length data" "drop (length data - 2) data = put_u16_le manifest_version"
    "take 8 (drop (length data - 2 - 8 - 8) data) = put_u64_le n" "take 8 (drop (length data - 2 - 8) data) = put_u64_le e"
    "take 4 (drop (length data - manifest_footer_size) data) = put_u32_le c"
    "take (length data - manifest_footer_size) data = body" "length data - manifest_footer_size = length body"
  using assms by (simp_all add: manifest_footer_def manifest_simps)

lemma counts_base:
  assumes "mf_data m = entries_bytes base @ manifest_footer (word_of_nat (length base)) ns ep" and "length base < 2 ^ 32"
  shows "existing_entries_count m = length base" "entries_end m = length (entries_bytes base)"
  using assms footer_parts [OF assms(1)]
  by (simp_all add: existing_entries_count_def entries_end_def unat_u32_of_nat)

lemma manifest_repI:
  assumes "mf_data m = entries_bytes base @ manifest_footer (word_of_nat (length base)) ns ep"
    and "mf_appended m = entries_bytes app" and "mf_appended_count m = length app"
    and "app = [] \<longrightarrow> ns = mf_next_sequence m \<and> ep = mf_epoch m" and "length base < 2 ^ 32"
    and "\<forall>e \<in> set base. entry_ok e" and "\<forall>e \<in> set app. entry_ok e"
  shows "manifest_rep m (base @ app)"
  unfolding manifest_rep_def
  by (rule exI [of _ base], rule exI [of _ app], rule exI [of _ ns], rule exI [of _ ep])
    (use assms in \<open>simp add: ball_Un\<close>)

lemma manifest_from_canonical:
  assumes "\<forall>e \<in> set es. entry_ok e" and "length es < 2 ^ 32"
  shows "\<exists>m. manifest_from_bytes (manifest_bytes es ns ep) = Ok m \<and> manifest_rep m es
    \<and> mf_next_sequence m = ns \<and> mf_epoch m = ep \<and> mf_appended_count m = 0 \<and> mf_data m = manifest_bytes es ns ep"
proof -
  note parts = footer_parts [OF manifest_bytes_def [of es ns ep]]
  let ?m = "\<lparr>mf_data = manifest_bytes es ns ep, mf_appended = [], mf_appended_count = 0, mf_next_sequence = ns, mf_epoch = ep\<rparr>"
  have "manifest_from_bytes (manifest_bytes es ns ep) = Ok ?m"
    using parts by (simp add: manifest_from_bytes_def Let_def)
  moreover have "manifest_rep ?m es"
    using manifest_repI [of ?m es ns ep "[]"] assms by (simp add: manifest_bytes_def)
  ultimately show ?thesis by auto
qed

lemma manifest_empty_rep: "manifest_rep manifest_empty []"
  by (simp add: manifest_rep_def manifest_empty_def)

lemma manifest_repE:
  assumes "manifest_rep m es"
  obtains base app ns ep where "es = base @ app"
    "mf_data m = entries_bytes base @ manifest_footer (word_of_nat (length base)) ns ep"
    "mf_appended m = entries_bytes app" "mf_appended_count m = length app"
    "app = [] \<longrightarrow> ns = mf_next_sequence m \<and> ep = mf_epoch m" "length base < 2 ^ 32"
    "existing_entries_count m = length base" "entries_end m = length (entries_bytes base)"
    "\<forall>e \<in> set base. entry_ok e" "\<forall>e \<in> set app. entry_ok e"
  using assms counts_base [of m] unfolding manifest_rep_def by auto

lemma manifest_to_canonical:
  assumes "manifest_rep m es" and "length es < 2 ^ 32"
  shows "manifest_to_bytes m = Ok (manifest_bytes es (mf_next_sequence m) (mf_epoch m))"
  using assms(1)
proof (cases rule: manifest_repE)
  case (1 base app ns ep)
  show ?thesis
  proof (cases app)
    case Nil
    with 1 show ?thesis by (simp add: manifest_to_bytes_def manifest_bytes_def)
  next
    case (Cons a as)
    then have ne: "mf_appended m \<noteq> []" using 1 by simp
    have "unat (word_of_nat (length app) :: u32) = length app" using assms(2) 1(1) by (intro unat_u32_of_nat) simp
    with ne 1 assms(2) show ?thesis
      by (simp add: manifest_to_bytes_def manifest_bytes_def Let_def)
  qed
qed

lemma entries_count_rep: "manifest_rep m es \<Longrightarrow> entries_count m = length es"
  by (erule manifest_repE) (simp add: entries_count_def)

lemma manifest_append_rep:
  assumes "manifest_rep m es" and "entry_ok (clone_with_sequence e (mf_next_sequence m))"
  shows "\<exists>m'. manifest_append m e = (m', Ok ())
    \<and> manifest_rep m' (es @ [clone_with_sequence e (mf_next_sequence m)])
    \<and> mf_next_sequence m' = mf_next_sequence m + 1 \<and> mf_epoch m' = mf_epoch m"
  using assms(1)
proof (cases rule: manifest_repE)
  case (1 base app ns ep)
  let ?e = "clone_with_sequence e (mf_next_sequence m)"
  let ?m = "m\<lparr>mf_appended := mf_appended m @ entry_bytes ?e, mf_next_sequence := mf_next_sequence m + 1,
    mf_appended_count := mf_appended_count m + 1\<rparr>"
  have "manifest_append m e = (?m, Ok ())" using assms(2) by (simp add: manifest_append_def encode_entry_bytes)
  moreover have "manifest_rep ?m (es @ [?e])"
    using manifest_repI [of ?m base ns ep "app @ [?e]"] 1(1-6,9,10) assms(2) by simp
  ultimately show ?thesis by auto
qed

lemma set_epoch_rep:
  assumes "manifest_rep m es"
  shows "manifest_rep (set_epoch m ep') es" "mf_epoch (set_epoch m ep') = ep'"
    "mf_next_sequence (set_epoch m ep') = mf_next_sequence m"
  using assms
proof (cases rule: manifest_repE)
  case (1 base app ns ep)
  have "mf_data (set_epoch m ep') = entries_bytes base @ manifest_footer (word_of_nat (length base)) ns ep'"
    using 1(2) by (simp add: set_epoch_def Let_def manifest_footer_def)
  then show "manifest_rep (set_epoch m ep') es"
    using manifest_repI [of "set_epoch m ep'" base ns ep' app] 1(1,3-6,9,10) by (simp add: set_epoch_def Let_def)
qed (simp_all add: set_epoch_def Let_def)

text \<open>The entries are in the order of their sequence numbers, and the next one is above them all.\<close>

definition sequences_ok :: "queue_entry list \<Rightarrow> u64 \<Rightarrow> bool" where
  "sequences_ok es ns \<longleftrightarrow> sorted_wrt (<) (map qe_sequence es) \<and> (\<forall>e \<in> set es. qe_sequence e < ns)"

lemma takeWhile_sorted_filter:
  "sorted_wrt (<) (map f es) \<Longrightarrow> takeWhile (\<lambda>e. f e \<le> (t :: 'b::linorder)) es = filter (\<lambda>e. f e \<le> t) es"
  "sorted_wrt (<) (map f es) \<Longrightarrow> dropWhile (\<lambda>e. f e \<le> t) es = filter (\<lambda>e. t < f e) es"
  by (induction es)
    (fastforce simp: not_le dest: less_trans intro!: filter_True [symmetric] filter_False [symmetric])+

lemma manifest_dequeue_rep:
  assumes "manifest_rep m es" and "sequences_ok es ns"
    and "length es < 2 ^ 32"
  shows "\<exists>m'. manifest_dequeue m through = Ok (m', filter (\<lambda>e. qe_sequence e \<le> through) es)
    \<and> manifest_rep m' (filter (\<lambda>e. through < qe_sequence e) es)
    \<and> mf_next_sequence m' = mf_next_sequence m \<and> mf_epoch m' = mf_epoch m"
  using assms(1)
proof (cases rule: manifest_repE)
  case (1 base app ns' ep)
  let ?keep = "filter (\<lambda>e. through < qe_sequence e)" and ?rem = "filter (\<lambda>e. qe_sequence e \<le> through)"
  have sorted: "sorted_wrt (<) (map qe_sequence base)" "sorted_wrt (<) (map qe_sequence app)"
    using assms(2) 1(1) by (auto simp: sequences_ok_def sorted_wrt_append)
  let ?d = "entries_bytes (?keep base) @ entries_bytes (?keep app)
    @ manifest_footer (word_of_nat (length (?keep base)) + word_of_nat (length (?keep app))) (mf_next_sequence m) (mf_epoch m)"
  let ?m = "m\<lparr>mf_data := ?d, mf_appended := [], mf_appended_count := 0\<rparr>"
  note filters = takeWhile_sorted_filter [OF sorted(1), of through] takeWhile_sorted_filter [OF sorted(2), of through]
  let ?cut = "\<lambda>xs. length (entries_bytes xs) - length (entries_bytes (?keep xs))"
  have split: "split_entries (mf_data m) (existing_entries_count m) (entries_end m) through =
      Ok (?rem base, ?cut base, word_of_nat (length (?keep base)))"
    "split_entries (mf_appended m) (mf_appended_count m) (length (mf_appended m)) through =
      Ok (?rem app, ?cut app, word_of_nat (length (?keep app)))"
    using split_entries_bytes [OF 1(9), of _ through] split_entries_bytes [OF 1(10), of "[]" through]
    unfolding 1 Let_def filters by auto
  have drop: "drop (?cut base) (take (entries_end m) (mf_data m)) = entries_bytes (?keep base)"
    "drop (?cut app) (mf_appended m) = entries_bytes (?keep app)"
    using drop_removed [of base "\<lambda>e. qe_sequence e \<le> through"] drop_removed [of app "\<lambda>e. qe_sequence e \<le> through"]
    unfolding 1 filters by auto
  have "\<not> (?cut base > entries_end m \<or> entries_end m > length (mf_data m) \<or> ?cut app > length (mf_appended m))"
    unfolding 1 by auto
  then have "manifest_dequeue m through = Ok (?m, ?rem base @ ?rem app)"
    unfolding manifest_dequeue_def split result_bind.simps prod.case drop by simp
  moreover have "manifest_rep ?m (?keep es)"
    using manifest_repI [of ?m "?keep es" "mf_next_sequence m" "mf_epoch m" "[]"] 1(1,9,10)
      le_less_trans [OF length_filter_le assms(3), of "\<lambda>e. through < qe_sequence e"] by (simp add: ball_Un)
  ultimately show ?thesis using 1(1) by auto
qed

section \<open>Iterating gives the list\<close>

lemma iter_items_app:
  assumes "left_at (mi_appended it) (mi_appended_offset it) (entries_bytes es)"
    and "mi_remaining it = 0" and "mi_offset it = mi_entries_end it" and "mi_appended_remaining it = length es"
    and "\<forall>e \<in> set es. entry_ok e"
  shows "iter_items it = map Ok es"
  using assms
proof (induction es arbitrary: it)
  case Nil
  then show ?case by (simp add: iter_items.simps [of it] manifest_iter_next_def)
next
  case (Cons e es)
  let ?k = "length (entry_bytes e)"
  let ?it = "it\<lparr>mi_appended_remaining := length es, mi_appended_offset := mi_appended_offset it + ?k\<rparr>"
  from Cons.prems(1) have at: "left_at (mi_appended it) (mi_appended_offset it) (entry_bytes e @ entries_bytes es)" by simp
  have "mi_appended_offset it + ?k \<le> length (mi_appended it)"
    using left_at_step [OF at, of ?k] by (simp add: left_at_def)
  then have "manifest_iter_next it = Some (Ok e, ?it)"
    using Cons.prems decode_entry_bytes [OF at] by (simp add: manifest_iter_next_def)
  moreover have "iter_items ?it = map Ok es"
    using Cons.prems left_at_step [OF at, of ?k] by (intro Cons.IH) simp_all
  ultimately show ?case by (simp add: iter_items.simps [of it])
qed

lemma iter_items_base:
  assumes "left_at (mi_data it) (mi_offset it) (entries_bytes es @ rest)" and "mi_remaining it = length es"
    and "mi_entries_end it = mi_offset it + length (entries_bytes es)" and "\<forall>e \<in> set es. entry_ok e"
  shows "iter_items it = map Ok es @ iter_items (it\<lparr>mi_remaining := 0, mi_offset := mi_entries_end it\<rparr>)"
  using assms
proof (induction es arbitrary: it)
  case Nil
  then show ?case by (cases it) simp
next
  case (Cons e es)
  let ?k = "length (entry_bytes e)"
  let ?it = "it\<lparr>mi_remaining := length es, mi_offset := mi_offset it + ?k\<rparr>"
  from Cons.prems(1) have at: "left_at (mi_data it) (mi_offset it) (entry_bytes e @ entries_bytes es @ rest)" by simp
  have "manifest_iter_next it = Some (Ok e, ?it)"
    using Cons.prems decode_entry_bytes [OF at] by (simp add: manifest_iter_next_def)
  moreover have "iter_items ?it = map Ok es @ iter_items (?it\<lparr>mi_remaining := 0, mi_offset := mi_entries_end ?it\<rparr>)"
    using Cons.prems left_at_step [OF at, of ?k] by (intro Cons.IH) simp_all
  ultimately show ?case by (simp add: iter_items.simps [of it])
qed

lemma iter_items_rep:
  assumes "manifest_rep m es"
  shows "iter_items (manifest_iter_of m) = map Ok es"
  using assms
proof (cases rule: manifest_repE)
  case (1 base app ns ep)
  let ?it = "manifest_iter_of m"
  have "iter_items ?it = map Ok base @ iter_items (?it\<lparr>mi_remaining := 0, mi_offset := mi_entries_end ?it\<rparr>)"
    using 1 by (intro iter_items_base) (auto simp: manifest_iter_of_def left_at_def)
  also have "iter_items (?it\<lparr>mi_remaining := 0, mi_offset := mi_entries_end ?it\<rparr>) = map Ok app"
    using 1 by (intro iter_items_app) (auto simp: manifest_iter_of_def left_at_def)
  finally show ?thesis using 1(1) by simp
qed

lemma collect_results_Ok [simp]: "collect_results (map Ok xs) = Ok xs"
  by (induction xs) simp_all

text \<open>Whatever the bytes are, the iterator ends, after at most one item more than there are entries.\<close>

lemma iter_items_length:
  "length (iter_items it) \<le> mi_remaining it + mi_appended_remaining it + 1"
proof (induction it rule: iter_items.induct)
  case (1 it)
  show ?case
  proof (cases "manifest_iter_next it")
    case None
    then show ?thesis by (simp add: iter_items.simps [of it])
  next
    case (Some p)
    obtain r it' where p: "p = (r, it')" by fastforce
    have IH: "length (iter_items it') \<le> mi_remaining it' + mi_appended_remaining it' + 1" using 1 Some p by simp
    have items: "length (iter_items it) = Suc (length (iter_items it'))" using Some p by (simp add: iter_items.simps [of it])
    show ?thesis
    proof (cases "mi_remaining it = 0 \<and> mi_appended_remaining it = 0")
      case True
      with Some p have "mi_remaining it' = 0 \<and> mi_appended_remaining it' = 0 \<and> mi_offset it' = mi_entries_end it'"
        by (auto simp: manifest_iter_next_def split: if_splits)
      then have "iter_items it' = []" by (simp add: iter_items.simps [of it'] manifest_iter_next_def)
      with items show ?thesis by simp
    next
      case False
      with Some p have "Suc (mi_remaining it' + mi_appended_remaining it') = mi_remaining it + mi_appended_remaining it"
        by (auto simp: manifest_iter_next_def split: if_splits prod.splits)
      with IH items show ?thesis by simp
    qed
  qed
qed

section \<open>Arbitrary bytes\<close>

text \<open>
  The length checks of the decoder are enough: on any data that has at least ten bytes behind the
  entries (the footer has twenty-two) no slice is out of range.
\<close>

definition returns :: "nat \<times> 'a buffer_result \<Rightarrow> bool" where
  "returns p \<longleftrightarrow> snd p \<noteq> Panic"

lemma returns_simps [simp]: "returns (off, Ok a)" "returns (off, Err e)"
  by (simp_all add: returns_def)

lemma returns_read_at:
  "off + n \<le> length data \<Longrightarrow> (\<And>x. returns (k x)) \<Longrightarrow> returns (read_at data off n k)"
  by (simp add: read_at_def)

lemma result_map_Panic [simp]: "result_map f r = Panic \<longleftrightarrow> r = Panic"
  by (cases r) simp_all

lemma decode_metadata_returns:
  "stop \<le> length data \<Longrightarrow> returns (decode_metadata data off stop n)"
proof (induction n arbitrary: off)
  case (Suc n)
  have IH: "returns (case decode_metadata data o' stop n of (off', r) \<Rightarrow> (off', result_map f r))"
    for o' and f :: "queue_metadata list \<Rightarrow> queue_metadata list"
    using Suc.IH [OF Suc.prems, of o'] by (auto simp: returns_def split: prod.split)
  show ?case
    unfolding decode_metadata.simps Let_def
    using Suc.prems by (auto intro!: returns_read_at IH)
qed simp

lemma decode_entry_returns:
  assumes "stop + 10 \<le> length data"
  shows "returns (decode_entry data off stop)"
proof -
  have md: "returns (decode_metadata data o' stop n)" for o' n
    using assms by (intro decode_metadata_returns) simp
  have "returns (case decode_metadata data o' stop n of
      (off', Ok metadata) \<Rightarrow> (e, Ok (f metadata)) | (off', Err e) \<Rightarrow> (off', Err e) | (off', Panic) \<Rightarrow> (off', Panic))"
      for o' n e and f :: "queue_metadata list \<Rightarrow> queue_entry"
    using md [of o' n] by (auto simp: returns_def split: prod.split result.split)
  then show ?thesis
    unfolding decode_entry_def Let_def using assms by (auto intro!: returns_read_at)
qed

lemma iter_items_no_panic:
  assumes "mi_entries_end it + 10 \<le> length (mi_data it)" and "mi_appended_remaining it = 0"
  shows "Panic \<notin> set (iter_items it)"
  using assms
proof (induction it rule: iter_items.induct)
  case (1 it)
  show ?case
  proof (cases "manifest_iter_next it")
    case None
    then show ?thesis by (simp add: iter_items.simps [of it])
  next
    case (Some p)
    obtain r it' where p: "p = (r, it')" by fastforce
    have "mi_entries_end it' + 10 \<le> length (mi_data it') \<and> mi_appended_remaining it' = 0"
      using Some p "1.prems" by (auto simp: manifest_iter_next_def split: if_splits prod.splits)
    with 1 Some p have "Panic \<notin> set (iter_items it')" by simp
    moreover have "r \<noteq> Panic"
      using Some p "1.prems" decode_entry_returns [OF "1.prems"(1), of "mi_offset it"]
      by (auto simp: returns_def manifest_iter_next_def split: if_splits prod.splits)
    ultimately show ?thesis using Some p by (simp add: iter_items.simps [of it])
  qed
qed

lemma collect_results_no_panic: "Panic \<notin> set rs \<Longrightarrow> collect_results rs \<noteq> Panic"
proof (induction rs)
  case (Cons r rs)
  then show ?case by (cases r) auto
qed simp

lemma from_bytes_iter:
  assumes "manifest_from_bytes data = Ok m"
  shows "mf_data m = data" "mf_appended_count m = 0" "manifest_footer_size \<le> length data"
  using assms by (auto simp: manifest_from_bytes_def Let_def split: if_splits)

lemma from_bytes_items:
  assumes "manifest_from_bytes data = Ok m"
  shows "Panic \<notin> set (iter_items (manifest_iter_of m))"
    "length (iter_items (manifest_iter_of m)) \<le> entries_count m + 1"
proof -
  note m = from_bytes_iter [OF assms]
  then have "entries_end m + 10 \<le> length (mf_data m)" by (auto simp: entries_end_def manifest_simps)
  with m show "Panic \<notin> set (iter_items (manifest_iter_of m))"
    by (intro iter_items_no_panic) (simp_all add: manifest_iter_of_def)
  show "length (iter_items (manifest_iter_of m)) \<le> entries_count m + 1"
    using iter_items_length [of "manifest_iter_of m"] by (simp add: manifest_iter_of_def entries_count_def)
qed

section \<open>Properties\<close>

text \<open>C36.  Decoding a batch gives back the records that were encoded, whichever compression was
  chosen: for records and record counts that fit in \<open>u32\<close>, and a \<open>zstd\<close> that decompresses what it
  compressed, if \<open>encode_batch\<close> succeeds then \<open>decode_batch\<close> returns exactly the records in order;
  without compression \<open>encode_batch\<close> always succeeds.\<close>

theorem batch_round_trip:
  assumes "batch_ok entries" and "zstd_inverse zs"
  shows "(\<forall>c data. encode_batch zs entries c = Ok data \<longrightarrow> decode_batch zs data = Ok entries)
    \<and> (\<exists>data. encode_batch zs entries NoCompression = Ok data)"
  using encode_batch_decodes [OF assms] by (auto simp: encode_batch_def)

definition copying_zstd :: zstd_ops where
  "copying_zstd = \<lparr>zstd_compress = (\<lambda>l bs. Ok (0x28 # bs)), zstd_decode_all = (\<lambda>bs. case bs of b # r \<Rightarrow> Ok r | [] \<Rightarrow> Err ''eof'')\<rparr>"

theorem batch_round_trip_witness:
  "decode_batch copying_zstd [0x28, 1, 0, 0, 0, 7, 0, 0, 0, 0, 1, 2, 0, 0, 0, 1, 0] = Ok [[7], []]"
proof -
  have ok: "batch_ok [[7], []]" "zstd_inverse copying_zstd"
    by (auto simp: batch_ok_def zstd_inverse_def copying_zstd_def)
  have "encode_batch copying_zstd [[7], []] Zstd = Ok [0x28, 1, 0, 0, 0, 7, 0, 0, 0, 0, 1, 2, 0, 0, 0, 1, 0]"
    by code_simp
  with batch_round_trip [OF ok] show ?thesis by blast
qed

text \<open>C13.  The byte-level manifest is a list of entries.  Take the bytes of any well-formed list
  \<open>es\<close> with its next sequence number and epoch: \<open>from_bytes\<close> accepts them and the iterator yields
  \<open>es\<close>; \<open>append\<close> then \<open>to_bytes\<close> gives the bytes of the list with the entry at its end under the
  next sequence number; \<open>dequeue\<close> returns exactly the entries up to the given sequence number and
  \<open>to_bytes\<close> then gives the bytes of the others; \<open>set_epoch\<close> changes the epoch and nothing else.\<close>

theorem manifest_refines_list:
  assumes "\<forall>e \<in> set es. entry_ok e" and "length es < 2 ^ 32 - 1" and "sequences_ok es ns"
    and "entry_ok (clone_with_sequence e ns)"
  shows "\<exists>m. manifest_from_bytes (manifest_bytes es ns ep) = Ok m
    \<and> iter_items (manifest_iter_of m) = map Ok es
    \<and> (\<exists>m1. manifest_append m e = (m1, Ok ())
         \<and> manifest_to_bytes m1 = Ok (manifest_bytes (es @ [clone_with_sequence e ns]) (ns + 1) ep))
    \<and> (\<exists>m2. manifest_dequeue m t = Ok (m2, filter (\<lambda>x. qe_sequence x \<le> t) es)
         \<and> manifest_to_bytes m2 = Ok (manifest_bytes (filter (\<lambda>x. t < qe_sequence x) es) ns ep))
    \<and> manifest_to_bytes (set_epoch m ep') = Ok (manifest_bytes es ns ep')"
proof -
  from assms(2) have len: "length es < 2 ^ 32" by simp
  obtain m where m: "manifest_from_bytes (manifest_bytes es ns ep) = Ok m" "manifest_rep m es"
    "mf_next_sequence m = ns" "mf_epoch m = ep" using manifest_from_canonical [OF assms(1) len] by blast
  obtain m1 where m1: "manifest_append m e = (m1, Ok ())" "manifest_rep m1 (es @ [clone_with_sequence e ns])"
    "mf_next_sequence m1 = ns + 1" "mf_epoch m1 = ep"
    using manifest_append_rep [OF m(2), of e] assms(4) m(3,4) by auto
  obtain m2 where m2: "manifest_dequeue m t = Ok (m2, filter (\<lambda>x. qe_sequence x \<le> t) es)"
    "manifest_rep m2 (filter (\<lambda>x. t < qe_sequence x) es)" "mf_next_sequence m2 = ns" "mf_epoch m2 = ep"
    using manifest_dequeue_rep [OF m(2) assms(3) len, of t] m(3,4) by auto
  have "manifest_to_bytes m1 = Ok (manifest_bytes (es @ [clone_with_sequence e ns]) (ns + 1) ep)"
    using manifest_to_canonical [OF m1(2)] assms(2) m1(3,4) by simp
  moreover have "manifest_to_bytes m2 = Ok (manifest_bytes (filter (\<lambda>x. t < qe_sequence x) es) ns ep)"
    using manifest_to_canonical [OF m2(2) le_less_trans [OF length_filter_le len]] m2(3,4) by simp
  moreover have "manifest_to_bytes (set_epoch m ep') = Ok (manifest_bytes es ns ep')"
    using manifest_to_canonical [OF set_epoch_rep(1) [OF m(2)] len, of ep'] set_epoch_rep(2,3) [OF m(2), of ep'] m(3) by simp
  ultimately show ?thesis using m(1) m1(1) m2(1) iter_items_rep [OF m(2)] by blast
qed

definition sample_entry :: "u64 \<Rightarrow> queue_entry" where
  "sample_entry seq = \<lparr>qe_sequence = seq, qe_location = [0x61],
     qe_metadata = [\<lparr>md_start_index = 0, md_ingestion_time_ms = 5, md_payload = [9]\<rparr>]\<rparr>"

lemma sample_entry_ok: "entry_ok (sample_entry seq)" "clone_with_sequence (sample_entry a) b = sample_entry b"
  by (simp_all add: entry_ok_def sample_entry_def entry_body_len_def clone_with_sequence_def)

theorem manifest_refines_list_witness:
  "\<exists>m m1. manifest_from_bytes (manifest_bytes [sample_entry 3, sample_entry 4] 5 2) = Ok m
     \<and> manifest_append m (sample_entry 0) = (m1, Ok ())
     \<and> manifest_to_bytes m1 = Ok (manifest_bytes [sample_entry 3, sample_entry 4, sample_entry 5] 6 2)"
proof -
  have "sequences_ok [sample_entry 3, sample_entry 4] 5" by (simp add: sequences_ok_def sample_entry_def)
  then show ?thesis
    using manifest_refines_list [of "[sample_entry 3, sample_entry 4]" 5 "sample_entry 0" 2 3 9]
    by (auto simp: sample_entry_ok)
qed

text \<open>C37.  Parsing a manifest is total.  Whatever bytes are stored, \<open>parse_manifest\<close> returns (it
  never panics on a slice), the iterator of an accepted manifest ends after at most one item more
  than the count in the footer, and parsing the bytes of a well-formed list gives that list.\<close>

theorem parse_manifest_total:
  "parse_manifest data \<noteq> Panic
   \<and> (\<forall>m. manifest_from_bytes data = Ok m \<longrightarrow> length (iter_items (manifest_iter_of m)) \<le> entries_count m + 1)
   \<and> (\<forall>es ns ep. data = manifest_bytes es ns ep \<and> (\<forall>e \<in> set es. entry_ok e) \<and> length es < 2 ^ 32 \<longrightarrow>
        parse_manifest data = Ok \<lparr>mv_epoch = ep, mv_next_sequence = ns, mv_entries = es\<rparr>)"
proof (intro conjI allI impI)
  show "parse_manifest data \<noteq> Panic"
  proof (cases "manifest_from_bytes data")
    case (Ok m)
    then show ?thesis
      using collect_results_no_panic [OF from_bytes_items(1) [OF Ok]] by (simp add: parse_manifest_def)
  qed (auto simp: parse_manifest_def manifest_from_bytes_def Let_def split: if_splits)
  show "length (iter_items (manifest_iter_of m)) \<le> entries_count m + 1" if "manifest_from_bytes data = Ok m" for m
    using from_bytes_items(2) [OF that] .
  fix es ns ep
  assume "data = manifest_bytes es ns ep \<and> (\<forall>e \<in> set es. entry_ok e) \<and> length es < 2 ^ 32"
  then have d: "data = manifest_bytes es ns ep" "\<forall>e \<in> set es. entry_ok e" "length es < 2 ^ 32" by auto
  obtain m where "manifest_from_bytes data = Ok m" "manifest_rep m es" "mf_next_sequence m = ns" "mf_epoch m = ep"
    using manifest_from_canonical [OF d(2,3)] d(1) by blast
  then show "parse_manifest data = Ok \<lparr>mv_epoch = ep, mv_next_sequence = ns, mv_entries = es\<rparr>"
    by (simp add: parse_manifest_def iter_items_rep)
qed

theorem parse_manifest_total_witness:
  "parse_manifest (manifest_bytes [sample_entry 3] 4 2) =
     Ok \<lparr>mv_epoch = 2, mv_next_sequence = 4, mv_entries = [sample_entry 3]\<rparr>"
  using parse_manifest_total [of "manifest_bytes [sample_entry 3] 4 2"] sample_entry_ok(1) [of 3] by auto

end
