(* ===== verification/Buffer_Queue.thy ===== *)
theory Buffer_Queue
  imports Buffer_Manifest
begin

text \<open>
  The queue between producers and the consumer (\<open>buffer/src/queue.rs\<close>, \<open>ManifestStore\<close>,
  \<open>QueueProducer\<close>, \<open>QueueConsumer\<close>).  There is no server: every client reads the manifest from the
  object store, changes its copy and writes it back on the condition that nobody wrote in between,
  and starts over when somebody did.  Consumers fence each other with the epoch in the manifest.

  The object store is not part of the repository.  Its operations are the fields of
  \<open>object_store_ops\<close>, and what the code relies on is \<open>cas_store\<close>: a conditional put takes effect only
  on the version it names.  Each operation of the code is cut at the one point where other clients
  can interfere, between its read and its write, into a \<open>begin\<close> and a \<open>finish\<close>; the loops of the
  code are built from these, and so is the step relation \<open>queue_step\<close> of any number of clients.
  The lemmas show that every interleaving is a sequential queue: what was dequeued, followed by
  what is stored, is what was enqueued, in order and numbered without gaps.
\<close>

section \<open>The object store\<close>

datatype os_error = NotFound string | AlreadyExists string | Precondition string | OtherOsError string

fun os_error_string :: "os_error \<Rightarrow> string" where
  "os_error_string (NotFound msg) = msg"
| "os_error_string (AlreadyExists msg) = msg"
| "os_error_string (Precondition msg) = msg"
| "os_error_string (OtherOsError msg) = msg"

datatype 'v put_mode = Overwrite | Create | Update 'v

text \<open>
  \<open>get\<close> returns the version and the body, whose transfer may still fail; \<open>list\<close> is the stream of the
  locations under a prefix; \<open>path_from\<close> is \<open>Path::from\<close>, back as a string.
\<close>

record ('o, 'v) object_store_ops =
  os_get :: "'o \<Rightarrow> bytes \<Rightarrow> ('v \<times> (bytes, os_error) result, os_error) result"
  os_put_opts :: "'o \<Rightarrow> bytes \<Rightarrow> bytes \<Rightarrow> 'v put_mode \<Rightarrow> 'o \<times> (unit, os_error) result"
  os_list :: "'o \<Rightarrow> bytes \<Rightarrow> (bytes, os_error) result list"
  os_delete :: "'o \<Rightarrow> bytes \<Rightarrow> 'o \<times> (unit, os_error) result"
  path_from :: "bytes \<Rightarrow> bytes"

section \<open>Reading and writing the manifest\<close>

datatype manifest_write_error = Conflict | Fatal buffer_error

definition buf_storage :: "os_error \<Rightarrow> buffer_error" where
  "buf_storage e = BufStorage (os_error_string e) []"

definition manifest_store_read ::
  "('o, 'v) object_store_ops \<Rightarrow> 'o \<Rightarrow> bytes \<Rightarrow> (manifest \<times> 'v option) buffer_result" where
  "manifest_store_read ops st manifest_path =
     (case os_get ops st (path_from ops manifest_path) of
        Ok (version, body) \<Rightarrow>
          result_bind (result_map_err buf_storage body) (\<lambda>bs.
          result_bind (manifest_from_bytes bs) (\<lambda>m. Ok (m, Some version)))
      | Err (NotFound _) \<Rightarrow> Ok (manifest_empty, None)
      | Err e \<Rightarrow> Err (buf_storage e)
      | Panic \<Rightarrow> Panic)"

definition manifest_store_write ::
  "('o, 'v) object_store_ops \<Rightarrow> 'o \<Rightarrow> bytes \<Rightarrow> manifest \<Rightarrow> 'v option \<Rightarrow> 'o \<times> (unit, manifest_write_error) result" where
  "manifest_store_write ops st manifest_path m version =
     (let put_mode = (case version of Some v \<Rightarrow> Update v | None \<Rightarrow> Create) in
      case manifest_to_bytes m of
        Ok data \<Rightarrow>
          (case os_put_opts ops st (path_from ops manifest_path) data put_mode of
             (st', Ok _) \<Rightarrow> (st', Ok ())
           | (st', Err (Precondition _)) \<Rightarrow> (st', Err Conflict)
           | (st', Err (AlreadyExists _)) \<Rightarrow> (st', Err Conflict)
           | (st', Err e) \<Rightarrow> (st', Err (Fatal (buf_storage e)))
           | (st', Panic) \<Rightarrow> (st', Panic))
      | Err e \<Rightarrow> (st, Err (Fatal e))
      | Panic \<Rightarrow> (st, Panic))"

record conflict_counter =
  cc_write_count :: u64
  cc_conflict_count :: u64

definition conflict_counter_new :: conflict_counter where
  "conflict_counter_new = \<lparr>cc_write_count = 0, cc_conflict_count = 0\<rparr>"

definition record_write :: "conflict_counter \<Rightarrow> conflict_counter" where
  "record_write c = c\<lparr>cc_write_count := cc_write_count c + 1\<rparr>"

definition record_conflict :: "conflict_counter \<Rightarrow> conflict_counter" where
  "record_conflict c = c\<lparr>cc_conflict_count := cc_conflict_count c + 1\<rparr>"

section \<open>The producer\<close>

record queue_producer =
  qp_manifest_path :: bytes
  qp_counter :: conflict_counter

definition queue_producer_new :: "bytes \<Rightarrow> queue_producer" where
  "queue_producer_new manifest_path = \<lparr>qp_manifest_path = manifest_path, qp_counter = conflict_counter_new\<rparr>"

text \<open>One round of the loop of \<open>enqueue\<close> up to the write.\<close>

definition enqueue_begin ::
  "('o, 'v) object_store_ops \<Rightarrow> bytes \<Rightarrow> queue_entry \<Rightarrow> 'o \<Rightarrow> (manifest \<times> 'v option) buffer_result" where
  "enqueue_begin ops path entry st =
     result_bind (manifest_store_read ops st path) (\<lambda>(m, version).
       case manifest_append m entry of
         (m', Ok _) \<Rightarrow> Ok (m', version)
       | (m', Err e) \<Rightarrow> Err e
       | (m', Panic) \<Rightarrow> Panic)"

text \<open>
  The loop.  The list holds one pair for each round: what the other clients do to the store before
  the read and between the read and the write.  When it is used up the loop is still running,
  which is the result \<^const>\<open>None\<close>.
\<close>

fun enqueue_loop ::
  "('o, 'v) object_store_ops \<Rightarrow> queue_entry \<Rightarrow> queue_producer \<Rightarrow> 'o \<Rightarrow> (('o \<Rightarrow> 'o) \<times> ('o \<Rightarrow> 'o)) list
    \<Rightarrow> 'o \<times> queue_producer \<times> unit buffer_result option" where
  "enqueue_loop ops entry p st [] = (st, p, None)"
| "enqueue_loop ops entry p st ((before, between) # rounds) =
     (let st = before st in
      case enqueue_begin ops (qp_manifest_path p) entry st of
        Err e \<Rightarrow> (st, p, Some (Err e))
      | Panic \<Rightarrow> (st, p, Some Panic)
      | Ok (m, version) \<Rightarrow>
          let p = p\<lparr>qp_counter := record_write (qp_counter p)\<rparr> in
          (case manifest_store_write ops (between st) (qp_manifest_path p) m version of
             (st', Ok _) \<Rightarrow> (st', p, Some (Ok ()))
           | (st', Err Conflict) \<Rightarrow>
               enqueue_loop ops entry (p\<lparr>qp_counter := record_conflict (qp_counter p)\<rparr>) st' rounds
           | (st', Err (Fatal e)) \<Rightarrow> (st', p, Some (Err e))
           | (st', Panic) \<Rightarrow> (st', p, Some Panic)))"

definition enqueue ::
  "('o, 'v) object_store_ops \<Rightarrow> queue_producer \<Rightarrow> bytes \<Rightarrow> queue_metadata list \<Rightarrow> 'o \<Rightarrow> (('o \<Rightarrow> 'o) \<times> ('o \<Rightarrow> 'o)) list
    \<Rightarrow> 'o \<times> queue_producer \<times> unit buffer_result option" where
  "enqueue ops p location metadata st rounds =
     (case queue_entry_new location metadata of
        Ok entry \<Rightarrow> enqueue_loop ops entry p st rounds
      | Err e \<Rightarrow> (st, p, Some (Err e))
      | Panic \<Rightarrow> (st, p, Some Panic))"

section \<open>The consumer\<close>

record queue_consumer =
  qc_manifest_path :: bytes
  qc_epoch :: u64
  qc_counter :: conflict_counter
  qc_queue_len :: u64

definition queue_consumer_new :: "bytes \<Rightarrow> queue_consumer" where
  "queue_consumer_new manifest_path = \<lparr>qc_manifest_path = manifest_path, qc_epoch = uninitialized_epoch,
     qc_counter = conflict_counter_new, qc_queue_len = 0\<rparr>"

definition consumer_read_manifest ::
  "('o, 'v) object_store_ops \<Rightarrow> queue_consumer \<Rightarrow> 'o \<Rightarrow> queue_consumer \<times> (manifest \<times> 'v option) buffer_result" where
  "consumer_read_manifest ops c st =
     (case manifest_store_read ops st (qc_manifest_path c) of
        Ok (m, version) \<Rightarrow> (c\<lparr>qc_queue_len := word_of_nat (entries_count m)\<rparr>, Ok (m, version))
      | Err e \<Rightarrow> (c, Err e)
      | Panic \<Rightarrow> (c, Panic))"

definition consumer_write_manifest ::
  "('o, 'v) object_store_ops \<Rightarrow> queue_consumer \<Rightarrow> 'o \<Rightarrow> manifest \<Rightarrow> 'v option
    \<Rightarrow> 'o \<times> queue_consumer \<times> (unit, manifest_write_error) result" where
  "consumer_write_manifest ops c st m version =
     (let c = c\<lparr>qc_counter := record_write (qc_counter c)\<rparr> in
      case manifest_store_write ops st (qc_manifest_path c) m version of
        (st', Ok _) \<Rightarrow> (st', c\<lparr>qc_queue_len := word_of_nat (entries_count m)\<rparr>, Ok ())
      | (st', r) \<Rightarrow> (st', c, r))"

definition next_epoch :: "u64 \<Rightarrow> u64" where
  "next_epoch epoch = (let new_epoch = epoch + 1 in if new_epoch = uninitialized_epoch then new_epoch + 1 else new_epoch)"

definition initialize_begin ::
  "('o, 'v) object_store_ops \<Rightarrow> queue_consumer \<Rightarrow> 'o \<Rightarrow> queue_consumer \<times> (manifest \<times> 'v option \<times> u64) buffer_result" where
  "initialize_begin ops c st =
     (case consumer_read_manifest ops c st of
        (c, Ok (m, version)) \<Rightarrow>
          (let new_epoch = next_epoch (mf_epoch m) in (c, Ok (set_epoch m new_epoch, version, new_epoch)))
      | (c, Err e) \<Rightarrow> (c, Err e)
      | (c, Panic) \<Rightarrow> (c, Panic))"

fun initialize ::
  "('o, 'v) object_store_ops \<Rightarrow> queue_consumer \<Rightarrow> 'o \<Rightarrow> (('o \<Rightarrow> 'o) \<times> ('o \<Rightarrow> 'o)) list
    \<Rightarrow> 'o \<times> queue_consumer \<times> unit buffer_result option" where
  "initialize ops c st [] = (st, c, None)"
| "initialize ops c st ((before, between) # rounds) =
     (let st = before st in
      case initialize_begin ops c st of
        (c, Err e) \<Rightarrow> (st, c, Some (Err e))
      | (c, Panic) \<Rightarrow> (st, c, Some Panic)
      | (c, Ok (m, version, new_epoch)) \<Rightarrow>
          (case consumer_write_manifest ops c (between st) m version of
             (st', c, Ok _) \<Rightarrow> (st', c\<lparr>qc_epoch := new_epoch\<rparr>, Some (Ok ()))
           | (st', c, Err Conflict) \<Rightarrow>
               initialize ops (c\<lparr>qc_counter := record_conflict (qc_counter c)\<rparr>) st' rounds
           | (st', c, Err (Fatal e)) \<Rightarrow> (st', c, Some (Err e))
           | (st', c, Panic) \<Rightarrow> (st', c, Some Panic)))"

text \<open>The manifest of a consumer that has not been fenced.\<close>

definition fenced_manifest ::
  "('o, 'v) object_store_ops \<Rightarrow> queue_consumer \<Rightarrow> 'o \<Rightarrow> queue_consumer \<times> (manifest \<times> 'v option) buffer_result" where
  "fenced_manifest ops c st =
     (case consumer_read_manifest ops c st of
        (c, Ok (m, version)) \<Rightarrow> (c, if mf_epoch m \<noteq> qc_epoch c then Err Fenced else Ok (m, version))
      | (c, Err e) \<Rightarrow> (c, Err e)
      | (c, Panic) \<Rightarrow> (c, Panic))"

text \<open>\<open>Option<Result<_>>::transpose\<close>.\<close>

fun transpose_result :: "('a, 'e) result option \<Rightarrow> ('a option, 'e) result" where
  "transpose_result None = Ok None"
| "transpose_result (Some r) = result_map Some r"

definition peek ::
  "('o, 'v) object_store_ops \<Rightarrow> queue_consumer \<Rightarrow> 'o \<Rightarrow> queue_consumer \<times> queue_entry option buffer_result" where
  "peek ops c st =
     (case fenced_manifest ops c st of (c, r) \<Rightarrow>
        (c, result_bind r (\<lambda>(m, version).
           transpose_result (map_option fst (manifest_iter_next (manifest_iter_of m))))))"

text \<open>\<open>find(|e| matches!(e, Ok(e) if e.sequence == sequence))\<close>: items that are errors are passed over.\<close>

fun find_sequence :: "u64 \<Rightarrow> queue_entry buffer_result list \<Rightarrow> queue_entry option buffer_result" where
  "find_sequence sequence [] = Ok None"
| "find_sequence sequence (r # rs) =
     (case r of
        Ok e \<Rightarrow> if qe_sequence e = sequence then Ok (Some e) else find_sequence sequence rs
      | Err _ \<Rightarrow> find_sequence sequence rs
      | Panic \<Rightarrow> Panic)"

definition queue_read ::
  "('o, 'v) object_store_ops \<Rightarrow> queue_consumer \<Rightarrow> u64 \<Rightarrow> 'o \<Rightarrow> queue_consumer \<times> queue_entry option buffer_result" where
  "queue_read ops c sequence st =
     (case fenced_manifest ops c st of (c, r) \<Rightarrow>
        (c, result_bind r (\<lambda>(m, version). find_sequence sequence (iter_items (manifest_iter_of m)))))"

definition dequeue_begin ::
  "('o, 'v) object_store_ops \<Rightarrow> queue_consumer \<Rightarrow> u64 \<Rightarrow> 'o
    \<Rightarrow> queue_consumer \<times> (manifest \<times> 'v option \<times> queue_entry list) buffer_result" where
  "dequeue_begin ops c through st =
     (case fenced_manifest ops c st of (c, r) \<Rightarrow>
        (c, result_bind r (\<lambda>(m, version).
           result_map (\<lambda>(m', removed). (m', version, removed)) (manifest_dequeue m through))))"

fun dequeue ::
  "('o, 'v) object_store_ops \<Rightarrow> queue_consumer \<Rightarrow> u64 \<Rightarrow> 'o \<Rightarrow> (('o \<Rightarrow> 'o) \<times> ('o \<Rightarrow> 'o)) list
    \<Rightarrow> 'o \<times> queue_consumer \<times> queue_entry list buffer_result option" where
  "dequeue ops c through st [] = (st, c, None)"
| "dequeue ops c through st ((before, between) # rounds) =
     (let st = before st in
      case dequeue_begin ops c through st of
        (c, Err e) \<Rightarrow> (st, c, Some (Err e))
      | (c, Panic) \<Rightarrow> (st, c, Some Panic)
      | (c, Ok (m, version, removed)) \<Rightarrow>
          (case consumer_write_manifest ops c (between st) m version of
             (st', c, Ok _) \<Rightarrow> (st', c, Some (Ok removed))
           | (st', c, Err Conflict) \<Rightarrow>
               dequeue ops (c\<lparr>qc_counter := record_conflict (qc_counter c)\<rparr>) through st' rounds
           | (st', c, Err (Fatal e)) \<Rightarrow> (st', c, Some (Err e))
           | (st', c, Panic) \<Rightarrow> (st', c, Some Panic)))"

definition queue_len :: "queue_consumer \<Rightarrow> nat" where
  "queue_len c = unat (qc_queue_len c)"

section \<open>What the object store promises\<close>

text \<open>
  \<open>cont st p\<close> is the object at a path with its version.  A read returns it or fails.  A put that
  succeeds found what its mode asks for and stored the data; one that reports that its
  condition failed changed nothing; any other failure leaves open whether the data was stored.
  \<open>later\<close> is the order of time: a version seen at two times belongs to the same bytes.
\<close>

definition stored_by_put ::
  "('o \<Rightarrow> bytes \<Rightarrow> (bytes \<times> 'v) option) \<Rightarrow> 'o \<Rightarrow> 'o \<Rightarrow> bytes \<Rightarrow> bytes \<Rightarrow> 'v put_mode \<Rightarrow> bool" where
  "stored_by_put cont st st' p d mode \<longleftrightarrow>
     (case mode of Overwrite \<Rightarrow> True | Create \<Rightarrow> cont st p = None | Update v \<Rightarrow> \<exists>d0. cont st p = Some (d0, v))
     \<and> (\<exists>v'. cont st' = (cont st)(p \<mapsto> (d, v')))"

definition get_law :: "('o, 'v) object_store_ops \<Rightarrow> ('o \<Rightarrow> bytes \<Rightarrow> (bytes \<times> 'v) option) \<Rightarrow> bool" where
  "get_law ops cont \<longleftrightarrow>
     (\<forall>st p v body. os_get ops st p = Ok (v, body) \<longrightarrow>
        (\<exists>d. cont st p = Some (d, v) \<and> (body = Ok d \<or> (\<exists>e. body = Err e))))
   \<and> (\<forall>st p msg. os_get ops st p = Err (NotFound msg) \<longrightarrow> cont st p = None)"

definition put_law :: "('o, 'v) object_store_ops \<Rightarrow> ('o \<Rightarrow> bytes \<Rightarrow> (bytes \<times> 'v) option) \<Rightarrow> bool" where
  "put_law ops cont \<longleftrightarrow>
     (\<forall>st p d mode st' r. os_put_opts ops st p d mode = (st', r) \<longrightarrow>
        (case r of
           Ok _ \<Rightarrow> stored_by_put cont st st' p d mode
         | Err e \<Rightarrow> cont st' = cont st \<or> (\<exists>msg. e = OtherOsError msg) \<and> stored_by_put cont st st' p d mode
         | Panic \<Rightarrow> False))"

definition time_law ::
  "('o, 'v) object_store_ops \<Rightarrow> ('o \<Rightarrow> bytes \<Rightarrow> (bytes \<times> 'v) option) \<Rightarrow> ('o \<Rightarrow> 'o \<Rightarrow> bool) \<Rightarrow> bool" where
  "time_law ops cont later \<longleftrightarrow>
     reflp later \<and> transp later
   \<and> (\<forall>st p d mode. later st (fst (os_put_opts ops st p d mode)))
   \<and> (\<forall>a b p d d' v. later a b \<longrightarrow> cont a p = Some (d, v) \<longrightarrow> cont b p = Some (d', v) \<longrightarrow> d = d')"

definition cas_store ::
  "('o, 'v) object_store_ops \<Rightarrow> ('o \<Rightarrow> bytes \<Rightarrow> (bytes \<times> 'v) option) \<Rightarrow> ('o \<Rightarrow> 'o \<Rightarrow> bool) \<Rightarrow> bool" where
  "cas_store ops cont later \<longleftrightarrow> get_law ops cont \<and> put_law ops cont \<and> time_law ops cont later"

text \<open>The queue that is stored; no object is the empty queue.\<close>

definition queue_stored ::
  "(bytes \<times> 'v) option \<Rightarrow> queue_entry list \<Rightarrow> u64 \<Rightarrow> u64 \<Rightarrow> bool" where
  "queue_stored obj es ns ep \<longleftrightarrow>
     (obj = None \<and> es = [] \<and> ns = 0 \<and> ep = 0 \<or> (\<exists>v. obj = Some (manifest_bytes es ns ep, v)))
     \<and> (\<forall>e \<in> set es. entry_ok e) \<and> sequences_ok es ns"

section \<open>The sequential queue\<close>

record abstract_queue =
  aq_entries :: "queue_entry list"
  aq_next :: u64
  aq_epoch :: u64

datatype queue_change = Enqueued queue_entry | Dequeued u64 "queue_entry list" | Initialized u64

definition empty_queue :: abstract_queue where
  "empty_queue = \<lparr>aq_entries = [], aq_next = 0, aq_epoch = 0\<rparr>"

text \<open>
  What a sequential queue does, and \<^const>\<open>None\<close> where it refuses: an entry gets the next sequence
  number, the consumer of the current epoch takes entries from the front, a new consumer
  moves the epoch on.
\<close>

fun queue_change_step :: "queue_change \<Rightarrow> abstract_queue \<Rightarrow> abstract_queue option" where
  "queue_change_step (Enqueued e) q =
     (if qe_sequence e = aq_next q then Some (q\<lparr>aq_entries := aq_entries q @ [e], aq_next := aq_next q + 1\<rparr>) else None)"
| "queue_change_step (Dequeued k removed) q =
     (if k = aq_epoch q \<and> take (length removed) (aq_entries q) = removed
      then Some (q\<lparr>aq_entries := drop (length removed) (aq_entries q)\<rparr>) else None)"
| "queue_change_step (Initialized k) q =
     (if k = next_epoch (aq_epoch q) then Some (q\<lparr>aq_epoch := k\<rparr>) else None)"

fun run_changes :: "queue_change list \<Rightarrow> abstract_queue \<Rightarrow> abstract_queue option" where
  "run_changes [] q = Some q"
| "run_changes (ch # chs) q = Option.bind (queue_change_step ch q) (run_changes chs)"

fun enqueued :: "queue_change list \<Rightarrow> queue_entry list" where
  "enqueued [] = []"
| "enqueued (ch # chs) = (case ch of Enqueued e \<Rightarrow> e # enqueued chs | _ \<Rightarrow> enqueued chs)"

fun dequeued :: "queue_change list \<Rightarrow> queue_entry list" where
  "dequeued [] = []"
| "dequeued (ch # chs) = (case ch of Dequeued k removed \<Rightarrow> removed @ dequeued chs | _ \<Rightarrow> dequeued chs)"

fun current_epoch :: "u64 \<Rightarrow> queue_change list \<Rightarrow> u64" where
  "current_epoch ep [] = ep"
| "current_epoch ep (ch # chs) = current_epoch (case ch of Initialized k \<Rightarrow> k | _ \<Rightarrow> ep) chs"

lemma run_changes_append:
  "run_changes (xs @ ys) q = Option.bind (run_changes xs q) (run_changes ys)"
proof (induction xs arbitrary: q)
  case (Cons ch xs)
  then show ?case by (cases "queue_change_step ch q") simp_all
qed simp

lemma enqueued_append [simp]: "enqueued (xs @ ys) = enqueued xs @ enqueued ys"
  by (induction xs) (auto split: queue_change.split)

lemma dequeued_append [simp]: "dequeued (xs @ ys) = dequeued xs @ dequeued ys"
  by (induction xs) (auto split: queue_change.split)

lemma length_enqueued: "length (enqueued chs) \<le> length chs"
  by (induction chs) (auto split: queue_change.split)

text \<open>First in, first out, without gaps in the numbering.\<close>

lemma run_changes_Cons:
  assumes "run_changes (ch # chs) q = Some q'"
  obtains q1 where "queue_change_step ch q = Some q1" "run_changes chs q1 = Some q'"
  using assms by (auto simp: Option.bind_eq_Some_conv)

lemma run_changes_fifo:
  "run_changes chs q = Some q' \<Longrightarrow> dequeued chs @ aq_entries q' = aq_entries q @ enqueued chs"
proof (induction chs arbitrary: q)
  case (Cons ch chs)
  from Cons.prems obtain q1 where q1: "queue_change_step ch q = Some q1" "run_changes chs q1 = Some q'"
    by (rule run_changes_Cons)
  from Cons.IH [OF q1(2)] q1(1) show ?case
  proof (cases ch)
    case (Dequeued k removed)
    with q1(1) have "aq_entries q = removed @ aq_entries q1"
      by (auto split: if_splits) (metis append_take_drop_id)
    with Cons.IH [OF q1(2)] Dequeued show ?thesis by simp
  qed (auto split: if_splits)
qed simp

lemma run_changes_numbering:
  "run_changes chs q = Some q' \<Longrightarrow>
    map qe_sequence (enqueued chs) = map (\<lambda>i. aq_next q + word_of_nat i) [0..<length (enqueued chs)]
    \<and> aq_next q' = aq_next q + word_of_nat (length (enqueued chs))"
proof (induction chs arbitrary: q)
  case (Cons ch chs)
  from Cons.prems obtain q1 where q1: "queue_change_step ch q = Some q1" "run_changes chs q1 = Some q'"
    by (rule run_changes_Cons)
  note IH = Cons.IH [OF q1(2)]
  show ?case
  proof (cases ch)
    case (Enqueued e)
    with q1(1) have e: "qe_sequence e = aq_next q" "aq_next q1 = aq_next q + 1" by (auto split: if_splits)
    let ?n = "length (enqueued chs)"
    have "map (\<lambda>i. aq_next q1 + word_of_nat i) [0..<?n] = map (\<lambda>i. aq_next q + word_of_nat i) [Suc 0..<Suc ?n]"
      unfolding e map_Suc_upt [symmetric] map_map by (simp add: ac_simps)
    with IH Enqueued e show ?thesis by (simp add: upt_conv_Cons ac_simps del: upt_Suc)
  qed (use q1(1) IH in \<open>auto split: if_splits\<close>)
qed simp

lemma run_changes_epoch:
  "run_changes chs q = Some q' \<Longrightarrow> aq_epoch q' = current_epoch (aq_epoch q) chs"
proof (induction chs arbitrary: q)
  case (Cons ch chs)
  from Cons.prems obtain q1 where q1: "queue_change_step ch q = Some q1" "run_changes chs q1 = Some q'"
    by (rule run_changes_Cons)
  from Cons.IH [OF q1(2)] q1(1) show ?case by (cases ch) (auto split: if_splits)
qed simp

lemma run_changes_fenced:
  assumes "run_changes (xs @ Dequeued k removed # ys) q = Some q'"
  shows "k = current_epoch (aq_epoch q) xs"
  using assms run_changes_epoch [of xs q]
  by (auto simp: run_changes_append Option.bind_eq_Some_conv split: if_splits)

section \<open>Any number of clients\<close>

text \<open>
  The state of the system: the object store, for each client the round it is in the middle of
  and the epoch it was given, and the changes that took effect, in order.  A round that is
  between its read and its write holds the change it is about to make, the changed manifest and
  the version that was read.
\<close>

record ('o, 'v, 'c) queue_system =
  qs_store :: 'o
  qs_pending :: "'c \<Rightarrow> (queue_change \<times> manifest \<times> 'v option) option"
  qs_epochs :: "'c \<Rightarrow> u64"
  qs_log :: "queue_change list"

inductive queue_step ::
  "('o, 'v) object_store_ops \<Rightarrow> ('o \<Rightarrow> bytes \<Rightarrow> (bytes \<times> 'v) option) \<Rightarrow> ('o \<Rightarrow> 'o \<Rightarrow> bool) \<Rightarrow> bytes
    \<Rightarrow> ('o, 'v, 'c) queue_system \<Rightarrow> ('o, 'v, 'c) queue_system \<Rightarrow> bool"
  for ops cont later path where
  enqueue_reads:
    "\<lbrakk>queue_entry_new location metadata = Ok entry; \<forall>n. entry_ok (clone_with_sequence entry n);
      enqueue_begin ops path entry (qs_store s) = Ok (m, v)\<rbrakk>
     \<Longrightarrow> queue_step ops cont later path s
           (s\<lparr>qs_pending := (qs_pending s)(c \<mapsto> (Enqueued (clone_with_sequence entry (mf_next_sequence m - 1)), m, v))\<rparr>)"
| initialize_reads:
    "\<lbrakk>qc_manifest_path k = path; initialize_begin ops k (qs_store s) = (k', Ok (m, v, new_epoch))\<rbrakk>
     \<Longrightarrow> queue_step ops cont later path s
           (s\<lparr>qs_pending := (qs_pending s)(c \<mapsto> (Initialized new_epoch, m, v))\<rparr>)"
| dequeue_reads:
    "\<lbrakk>qc_manifest_path k = path; qc_epoch k = qs_epochs s c;
      dequeue_begin ops k through (qs_store s) = (k', Ok (m, v, removed))\<rbrakk>
     \<Longrightarrow> queue_step ops cont later path s
           (s\<lparr>qs_pending := (qs_pending s)(c \<mapsto> (Dequeued (qs_epochs s c) removed, m, v))\<rparr>)"
| writes:
    "\<lbrakk>qs_pending s c = Some (ch, m, v); manifest_store_write ops (qs_store s) path m v = (st, r)\<rbrakk>
     \<Longrightarrow> queue_step ops cont later path s
           (s\<lparr>qs_store := st, qs_pending := (qs_pending s)(c := None),
              qs_epochs := (case (ch, r) of (Initialized new_epoch, Ok _) \<Rightarrow> (qs_epochs s)(c := new_epoch) | _ \<Rightarrow> qs_epochs s),
              qs_log := (if r \<noteq> Ok () \<and> cont st = cont (qs_store s) then qs_log s else qs_log s @ [ch])\<rparr>)"
| stops:
    "queue_step ops cont later path s (s\<lparr>qs_pending := (qs_pending s)(c := None)\<rparr>)"
| elsewhere:
    "\<lbrakk>later (qs_store s) st; cont st (path_from ops path) = cont (qs_store s) (path_from ops path)\<rbrakk>
     \<Longrightarrow> queue_step ops cont later path s (s\<lparr>qs_store := st\<rparr>)"

inductive queue_reachable ::
  "('o, 'v) object_store_ops \<Rightarrow> ('o \<Rightarrow> bytes \<Rightarrow> (bytes \<times> 'v) option) \<Rightarrow> ('o \<Rightarrow> 'o \<Rightarrow> bool) \<Rightarrow> bytes
    \<Rightarrow> ('o, 'v, 'c) queue_system \<Rightarrow> bool"
  for ops cont later path where
  start: "cont st (path_from ops path) = None \<Longrightarrow>
     queue_reachable ops cont later path
       \<lparr>qs_store = st, qs_pending = (\<lambda>_. None), qs_epochs = (\<lambda>_. uninitialized_epoch), qs_log = []\<rparr>"
| step: "queue_reachable ops cont later path s \<Longrightarrow> queue_step ops cont later path s s' \<Longrightarrow>
     queue_reachable ops cont later path s'"

section \<open>One round\<close>

lemma cas_get:
  assumes "cas_store ops cont later"
  shows "os_get ops st p = Ok (v, body) \<Longrightarrow> \<exists>d. cont st p = Some (d, v) \<and> (body = Ok d \<or> (\<exists>e. body = Err e))"
    "os_get ops st p = Err (NotFound msg) \<Longrightarrow> cont st p = None"
  using assms by (simp_all add: cas_store_def get_law_def)

lemma cas_put:
  assumes "cas_store ops cont later" and "os_put_opts ops st p d mode = (st', r)"
  shows "(case r of
     Ok _ \<Rightarrow> stored_by_put cont st st' p d mode
   | Err e \<Rightarrow> cont st' = cont st \<or> (\<exists>msg. e = OtherOsError msg) \<and> stored_by_put cont st st' p d mode
   | Panic \<Rightarrow> False) \<and> later st st'"
proof
  from assms(1) have "later st (fst (os_put_opts ops st p d mode))" by (simp add: cas_store_def time_law_def)
  with assms(2) show "later st st'" by simp
qed (use assms in \<open>simp add: cas_store_def put_law_def\<close>)

lemma cas_time:
  assumes "cas_store ops cont later"
  shows "later a a" "later a b \<Longrightarrow> later b c \<Longrightarrow> later a c"
    "later a b \<Longrightarrow> cont a p = Some (d, v) \<Longrightarrow> cont b p = Some (d', v) \<Longrightarrow> d = d'"
  using assms by (auto simp: cas_store_def time_law_def dest: reflpD transpD)

lemma manifest_empty_fields: "mf_next_sequence manifest_empty = 0" "mf_epoch manifest_empty = 0"
  by (simp_all add: manifest_empty_def)

text \<open>A read returns the queue that is stored, and its version.\<close>

lemma manifest_store_read_stored:
  assumes "cas_store ops cont later" and "manifest_store_read ops st path = Ok (m, v)"
    and "queue_stored (cont st (path_from ops path)) es ns ep" and "length es < 2 ^ 32"
  shows "manifest_rep m es \<and> mf_next_sequence m = ns \<and> mf_epoch m = ep
    \<and> v = map_option snd (cont st (path_from ops path))"
proof (cases "os_get ops st (path_from ops path)")
  case (Ok vb)
  obtain w body where vb: "vb = (w, body)" by fastforce
  with Ok assms(2) obtain bs where bs: "body = Ok bs" "manifest_from_bytes bs = Ok m" "v = Some w"
    by (cases body) (auto simp: manifest_store_read_def result_bind_eq_Ok)
  from cas_get(1) [OF assms(1) Ok [unfolded vb]] bs(1)
  have "cont st (path_from ops path) = Some (bs, w)" by auto
  moreover from this assms(3) have "bs = manifest_bytes es ns ep" "\<forall>e \<in> set es. entry_ok e"
    by (auto simp: queue_stored_def)
  ultimately show ?thesis using manifest_from_canonical [of es ns ep] assms(4) bs by auto
next
  case (Err e)
  with assms(2) obtain msg where e: "e = NotFound msg" "m = manifest_empty" "v = None"
    by (cases e) (auto simp: manifest_store_read_def)
  with cas_get(2) [OF assms(1) Err [unfolded e]] have "cont st (path_from ops path) = None" by simp
  with assms(3) e show ?thesis by (simp add: queue_stored_def manifest_empty_rep manifest_empty_fields)
next
  case Panic
  with assms(2) show ?thesis by (simp add: manifest_store_read_def)
qed

lemma queue_stored_cong:
  "map_option fst a = map_option fst b \<Longrightarrow> queue_stored a es ns ep = queue_stored b es ns ep"
  by (cases a; cases b) (auto simp: queue_stored_def)

text \<open>The condition of a write on what is stored, given the version that was read.\<close>

definition version_current :: "(bytes \<times> 'v) option \<Rightarrow> 'v option \<Rightarrow> bool" where
  "version_current obj v \<longleftrightarrow> map_option snd obj = v"

lemma version_current_stored:
  assumes "cas_store ops cont later" and "later st1 st2" and "v = map_option snd (cont st1 p)"
    and "version_current (cont st2 p) v"
  shows "queue_stored (cont st1 p) es ns ep = queue_stored (cont st2 p) es ns ep"
proof (rule queue_stored_cong)
  show "map_option fst (cont st1 p) = map_option fst (cont st2 p)"
    using assms(3,4) cas_time(3) [OF assms(1,2), of p]
    by (cases "cont st1 p"; cases "cont st2 p") (auto simp: version_current_def)
qed

text \<open>
  A write either changes nothing, and then does not report success, or it replaces the queue
  whose version it names, and then does not report a conflict.
\<close>

lemma manifest_store_write_effect:
  assumes "cas_store ops cont later" and "manifest_rep m es" and "length es < 2 ^ 32"
    and "manifest_store_write ops st path m v = (st', r)"
  shows "later st st' \<and> r \<noteq> Panic"
    and "(cont st' = cont st \<and> r \<noteq> Ok ())
      \<or> (r \<noteq> Err Conflict \<and> version_current (cont st (path_from ops path)) v
          \<and> (\<exists>w. cont st' (path_from ops path) = Some (manifest_bytes es (mf_next_sequence m) (mf_epoch m), w)))"
proof -
  let ?P = "path_from ops path" and ?d = "manifest_bytes es (mf_next_sequence m) (mf_epoch m)"
  let ?mode = "case v of Some v \<Rightarrow> Update v | None \<Rightarrow> Create"
  obtain st1 r1 where put: "os_put_opts ops st ?P ?d ?mode = (st1, r1)" by fastforce
  note law = cas_put [OF assms(1) put]
  have put_stored: "version_current (cont st ?P) v \<and> (\<exists>w. cont st1 ?P = Some (?d, w))"
    if "stored_by_put cont st st1 ?P ?d ?mode"
    using that by (cases v) (auto simp: stored_by_put_def version_current_def)
  note written = assms(4) [unfolded manifest_store_write_def manifest_to_canonical [OF assms(2,3)] Let_def, simplified, unfolded put]
  show "later st st' \<and> r \<noteq> Panic"
    using written law by (cases r1) (auto split: os_error.splits)
  show "(cont st' = cont st \<and> r \<noteq> Ok ()) \<or> (r \<noteq> Err Conflict \<and> version_current (cont st ?P) v \<and> (\<exists>w. cont st' ?P = Some (?d, w)))"
  proof (cases r1)
    case (Ok u)
    with written law put_stored show ?thesis by auto
  next
    case (Err e)
    with written law put_stored show ?thesis by (cases e) auto
  next
    case Panic
    with law show ?thesis by simp
  qed
qed

section \<open>Every interleaving is a sequential queue\<close>

abbreviation stores :: "(bytes \<times> 'v) option \<Rightarrow> abstract_queue \<Rightarrow> bool" where
  "stores obj q \<equiv> queue_stored obj (aq_entries q) (aq_next q) (aq_epoch q)"

definition queue_room :: "abstract_queue \<Rightarrow> bool" where
  "queue_room q \<longleftrightarrow> length (aq_entries q) < 2 ^ 32 - 1 \<and> unat (aq_next q) < 2 ^ 64 - 1"

text \<open>The changed copy a client holds is right for the queue it was made from.\<close>

definition prepares :: "abstract_queue \<Rightarrow> queue_change \<Rightarrow> manifest \<Rightarrow> bool" where
  "prepares q ch m \<longleftrightarrow>
     (\<exists>q'. queue_change_step ch q = Some q' \<and> manifest_rep m (aq_entries q') \<and> mf_next_sequence m = aq_next q'
        \<and> mf_epoch m = aq_epoch q' \<and> length (aq_entries q') < 2 ^ 32
        \<and> (\<forall>e \<in> set (aq_entries q'). entry_ok e) \<and> sequences_ok (aq_entries q') (aq_next q'))"

lemma sequences_ok_append:
  assumes "sequences_ok es ns" and "unat ns < 2 ^ 64 - 1"
  shows "sequences_ok (es @ [clone_with_sequence e ns]) (ns + 1)"
proof -
  have "ns < ns + 1" using assms(2) unat_add_u64 [of ns 1] by (simp add: word_less_nat_alt)
  with assms(1) show ?thesis
    by (force simp: sequences_ok_def sorted_wrt_append clone_with_sequence_def)
qed

lemma enqueue_prepares:
  assumes "cas_store ops cont later" and "enqueue_begin ops path entry st = Ok (m, v)"
    and "\<forall>n. entry_ok (clone_with_sequence entry n)"
    and "stores (cont st (path_from ops path)) q" and "queue_room q"
  shows "prepares q (Enqueued (clone_with_sequence entry (mf_next_sequence m - 1))) m
    \<and> v = map_option snd (cont st (path_from ops path))"
proof -
  from assms(2) obtain m0 v0 where r: "manifest_store_read ops st path = Ok (m0, v0)"
    by (auto simp: enqueue_begin_def result_bind_eq_Ok)
  from assms(5) have len: "length (aq_entries q) < 2 ^ 32" by (simp add: queue_room_def)
  from manifest_store_read_stored [OF assms(1) r assms(4) len]
  have m0: "manifest_rep m0 (aq_entries q)" "mf_next_sequence m0 = aq_next q" "mf_epoch m0 = aq_epoch q"
    "v0 = map_option snd (cont st (path_from ops path))" by auto
  let ?e = "clone_with_sequence entry (aq_next q)"
  obtain m1 where m1: "manifest_append m0 entry = (m1, Ok ())" "manifest_rep m1 (aq_entries q @ [?e])"
    "mf_next_sequence m1 = aq_next q + 1" "mf_epoch m1 = aq_epoch q"
    using manifest_append_rep [OF m0(1), of entry] assms(3) m0(2,3) by auto
  from assms(2) r m1(1) have "m = m1" "v = v0" by (simp_all add: enqueue_begin_def)
  moreover have "sequences_ok (aq_entries q @ [?e]) (aq_next q + 1)"
    using assms(4,5) by (intro sequences_ok_append) (simp_all add: queue_stored_def queue_room_def)
  moreover have "\<forall>e \<in> set (aq_entries q). entry_ok e" using assms(4) by (simp add: queue_stored_def)
  ultimately show ?thesis
    using m0(4) m1 assms(3,5) by (simp add: prepares_def queue_room_def) (simp add: clone_with_sequence_def)
qed

lemma fenced_manifest_stored:
  assumes "cas_store ops cont later" and "fenced_manifest ops k st = (k', Ok (m, v))"
    and "stores (cont st (path_from ops (qc_manifest_path k))) q" and "queue_room q"
  shows "manifest_rep m (aq_entries q)" "mf_next_sequence m = aq_next q" "mf_epoch m = aq_epoch q" "qc_epoch k = aq_epoch q"
    "v = map_option snd (cont st (path_from ops (qc_manifest_path k)))"
proof -
  from assms(2) have r: "manifest_store_read ops st (qc_manifest_path k) = Ok (m, v)" "mf_epoch m = qc_epoch k"
    by (auto simp: fenced_manifest_def consumer_read_manifest_def split: result.splits prod.splits if_splits)
  from assms(4) have len: "length (aq_entries q) < 2 ^ 32" by (simp add: queue_room_def)
  from manifest_store_read_stored [OF assms(1) r(1) assms(3) len] r(2)
  show "manifest_rep m (aq_entries q)" "mf_next_sequence m = aq_next q" "mf_epoch m = aq_epoch q" "qc_epoch k = aq_epoch q"
    "v = map_option snd (cont st (path_from ops (qc_manifest_path k)))" by auto
qed

lemma filter_split:
  assumes "sorted_wrt (<) (map f es)"
  shows "take (length (filter (\<lambda>e. f e \<le> (t :: 'b::linorder)) es)) es = filter (\<lambda>e. f e \<le> t) es"
    "drop (length (filter (\<lambda>e. f e \<le> t) es)) es = filter (\<lambda>e. t < f e) es"
  unfolding takeWhile_sorted_filter [OF assms, symmetric]
  by (metis append_eq_conv_conj takeWhile_dropWhile_id)+

lemma result_map_eq_Ok: "result_map f r = Ok b \<longleftrightarrow> (\<exists>a. r = Ok a \<and> b = f a)"
  by (cases r) auto

lemma dequeue_prepares:
  assumes "cas_store ops cont later" and "dequeue_begin ops k through st = (k', Ok (m, v, removed))"
    and "stores (cont st (path_from ops (qc_manifest_path k))) q" and "queue_room q"
  shows "prepares q (Dequeued (qc_epoch k) removed) m \<and> removed = filter (\<lambda>e. qe_sequence e \<le> through) (aq_entries q)
    \<and> v = map_option snd (cont st (path_from ops (qc_manifest_path k)))"
proof -
  from assms(2) obtain m0 where r: "fenced_manifest ops k st = (k', Ok (m0, v))" "manifest_dequeue m0 through = Ok (m, removed)"
    by (auto simp: dequeue_begin_def result_bind_eq_Ok result_map_eq_Ok split: prod.splits)
  note m0 = fenced_manifest_stored [OF assms(1) r(1) assms(3,4)]
  from assms(3,4) have q: "sequences_ok (aq_entries q) (aq_next q)" "\<forall>e \<in> set (aq_entries q). entry_ok e"
    "length (aq_entries q) < 2 ^ 32" by (auto simp: queue_stored_def queue_room_def)
  let ?keep = "filter (\<lambda>e. through < qe_sequence e) (aq_entries q)"
  from manifest_dequeue_rep [OF m0(1) q(1,3), of through] r(2) have m: "removed = filter (\<lambda>e. qe_sequence e \<le> through) (aq_entries q)"
    "manifest_rep m ?keep" "mf_next_sequence m = mf_next_sequence m0" "mf_epoch m = mf_epoch m0" by auto
  have "sorted_wrt (<) (map qe_sequence (aq_entries q))" using q(1) by (simp add: sequences_ok_def)
  note split = filter_split [OF this, of through]
  have "sequences_ok ?keep (aq_next q)" using q(1)
    by (auto simp: sequences_ok_def sorted_wrt_map sorted_wrt_filter)
  moreover have "length ?keep < 2 ^ 32" using q(3) by (rule le_less_trans [OF length_filter_le])
  moreover have "\<forall>e \<in> set ?keep. entry_ok e" using q(2) by simp
  moreover have "queue_change_step (Dequeued (qc_epoch k) removed) q = Some (q\<lparr>aq_entries := ?keep\<rparr>)"
    unfolding m(1) queue_change_step.simps split m0(4) by simp
  ultimately have "prepares q (Dequeued (qc_epoch k) removed) m"
    unfolding prepares_def using m(2-4) m0(2,3)
    by (intro exI [of _ "q\<lparr>aq_entries := ?keep\<rparr>"]) simp
  with m(1) m0(5) show ?thesis by simp
qed

lemma initialize_prepares:
  assumes "cas_store ops cont later" and "initialize_begin ops k st = (k', Ok (m, v, new_epoch))"
    and "stores (cont st (path_from ops (qc_manifest_path k))) q" and "queue_room q"
  shows "prepares q (Initialized new_epoch) m \<and> v = map_option snd (cont st (path_from ops (qc_manifest_path k)))"
proof -
  obtain m0 where r: "manifest_store_read ops st (qc_manifest_path k) = Ok (m0, v)"
    "m = set_epoch m0 new_epoch" "new_epoch = next_epoch (mf_epoch m0)"
  proof (cases "manifest_store_read ops st (qc_manifest_path k)")
    case (Ok p)
    with assms(2) have "manifest_store_read ops st (qc_manifest_path k) = Ok (fst p, v)
        \<and> m = set_epoch (fst p) new_epoch \<and> new_epoch = next_epoch (mf_epoch (fst p))"
      by (cases p) (auto simp: initialize_begin_def consumer_read_manifest_def Let_def)
    then show ?thesis by (intro that [of "fst p"]) auto
  qed (use assms(2) in \<open>simp_all add: initialize_begin_def consumer_read_manifest_def\<close>)
  from assms(4) have len: "length (aq_entries q) < 2 ^ 32" by (simp add: queue_room_def)
  from manifest_store_read_stored [OF assms(1) r(1) assms(3) len]
  have m0: "manifest_rep m0 (aq_entries q)" "mf_next_sequence m0 = aq_next q" "mf_epoch m0 = aq_epoch q"
    "v = map_option snd (cont st (path_from ops (qc_manifest_path k)))" by auto
  have "queue_change_step (Initialized new_epoch) q = Some (q\<lparr>aq_epoch := new_epoch\<rparr>)" using r(3) m0(3) by simp
  moreover have "\<forall>e \<in> set (aq_entries q). entry_ok e" "sequences_ok (aq_entries q) (aq_next q)"
    using assms(3) by (auto simp: queue_stored_def)
  ultimately have "prepares q (Initialized new_epoch) m"
    unfolding prepares_def r(2) using len set_epoch_rep [OF m0(1), of new_epoch] m0(2)
    by (intro exI [of _ "q\<lparr>aq_epoch := new_epoch\<rparr>"]) simp
  with m0(4) show ?thesis by simp
qed

text \<open>
  The invariant of the system: the stored queue is what the changes lead to, and a round that is
  between its read and its write holds a copy that is right for the queue of its version.
\<close>

definition pending_ok ::
  "('o \<Rightarrow> (bytes \<times> 'v) option) \<Rightarrow> ('o \<Rightarrow> 'o \<Rightarrow> bool) \<Rightarrow> 'o \<Rightarrow> queue_change \<Rightarrow> manifest \<Rightarrow> 'v option \<Rightarrow> bool" where
  "pending_ok obj later now ch m v \<longleftrightarrow>
     (\<exists>st. later st now \<and> v = map_option snd (obj st)
        \<and> (\<forall>q. stores (obj st) q \<and> queue_room q \<longrightarrow> prepares q ch m)
        \<and> (\<exists>es. manifest_rep m es \<and> length es < 2 ^ 32))"

definition queue_system_ok ::
  "('o, 'v) object_store_ops \<Rightarrow> ('o \<Rightarrow> bytes \<Rightarrow> (bytes \<times> 'v) option) \<Rightarrow> ('o \<Rightarrow> 'o \<Rightarrow> bool) \<Rightarrow> bytes
    \<Rightarrow> ('o, 'v, 'c) queue_system \<Rightarrow> bool" where
  "queue_system_ok ops cont later path s \<longleftrightarrow>
     (\<exists>q. run_changes (qs_log s) empty_queue = Some q \<and> stores (cont (qs_store s) (path_from ops path)) q)
   \<and> (\<forall>c ch m v. qs_pending s c = Some (ch, m, v) \<longrightarrow>
        pending_ok (\<lambda>st. cont st (path_from ops path)) later (qs_store s) ch m v)"

lemma pending_ok_later:
  assumes "cas_store ops cont later" and "later now now'" and "pending_ok obj later now ch m v"
  shows "pending_ok obj later now' ch m v"
  using assms(3) cas_time(2) [OF assms(1) _ assms(2)] unfolding pending_ok_def by blast

lemma log_room:
  assumes "run_changes chs empty_queue = Some q" and "length chs < 2 ^ 32 - 1"
  shows "queue_room q"
proof -
  have "length (aq_entries q) \<le> length (enqueued chs)"
    using arg_cong [OF run_changes_fifo [OF assms(1)], of length] by (simp add: empty_queue_def)
  moreover have "aq_next q = word_of_nat (length (enqueued chs))"
    using run_changes_numbering [OF assms(1)] by (simp add: empty_queue_def)
  ultimately show ?thesis
    using assms(2) length_enqueued [of chs] unat_u64_of_nat [of "length (enqueued chs)"]
    by (simp add: queue_room_def)
qed

lemma queue_system_ok_pending:
  assumes "queue_system_ok ops cont later path s" and "cas_store ops cont later"
    and "\<forall>q. stores (cont (qs_store s) (path_from ops path)) q \<and> queue_room q \<longrightarrow> prepares q ch m
           \<and> v = map_option snd (cont (qs_store s) (path_from ops path))"
    and "length (qs_log s) < 2 ^ 32 - 1"
  shows "queue_system_ok ops cont later path (s\<lparr>qs_pending := (qs_pending s)(c \<mapsto> (ch, m, v))\<rparr>)"
proof -
  from assms(1) obtain q where q: "run_changes (qs_log s) empty_queue = Some q"
    "stores (cont (qs_store s) (path_from ops path)) q" by (auto simp: queue_system_ok_def)
  from log_room [OF q(1) assms(4)] q(2) assms(3) have "prepares q ch m" and v: "v = map_option snd (cont (qs_store s) (path_from ops path))"
    by blast+
  then have "\<exists>es. manifest_rep m es \<and> length es < 2 ^ 32" by (auto simp: prepares_def)
  with assms(3) v cas_time(1) [OF assms(2)]
  have "pending_ok (\<lambda>st. cont st (path_from ops path)) later (qs_store s) ch m v" by (auto simp: pending_ok_def)
  with assms(1) show ?thesis unfolding queue_system_ok_def by auto
qed

lemma queue_system_ok_write:
  assumes ok: "queue_system_ok ops cont later path s" and cas: "cas_store ops cont later"
    and pend: "qs_pending s c = Some (ch, m, v)"
    and written: "manifest_store_write ops (qs_store s) path m v = (st, r)"
    and len: "length (qs_log s) < 2 ^ 32 - 1"
    and s': "qs_store s' = st" "qs_pending s' = (qs_pending s)(c := None)"
      "qs_log s' = (if r \<noteq> Ok () \<and> cont st = cont (qs_store s) then qs_log s else qs_log s @ [ch])"
  shows "queue_system_ok ops cont later path s'"
proof -
  let ?P = "path_from ops path"
  from ok obtain q where q: "run_changes (qs_log s) empty_queue = Some q" "stores (cont (qs_store s) ?P) q"
    by (auto simp: queue_system_ok_def)
  from ok pend obtain st1 es where st1: "later st1 (qs_store s)" "v = map_option snd (cont st1 ?P)"
    "\<forall>q. stores (cont st1 ?P) q \<and> queue_room q \<longrightarrow> prepares q ch m" "manifest_rep m es" "length es < 2 ^ 32"
    unfolding queue_system_ok_def pending_ok_def by blast
  note effect = manifest_store_write_effect [OF cas st1(4,5) written]
  have "\<exists>q'. run_changes (qs_log s') empty_queue = Some q' \<and> stores (cont st ?P) q'"
  proof (cases "r \<noteq> Ok () \<and> cont st = cont (qs_store s)")
    case True
    with q s'(3) show ?thesis by auto
  next
    case False
    with effect(2) have cur: "version_current (cont (qs_store s) ?P) v" by auto
    from version_current_stored [OF cas st1(1,2) cur] q(2) have "stores (cont st1 ?P) q" by blast
    with st1(3) log_room [OF q(1) len] have "prepares q ch m" by blast
    then obtain q' where q': "queue_change_step ch q = Some q'" "manifest_rep m (aq_entries q')"
      "mf_next_sequence m = aq_next q'" "mf_epoch m = aq_epoch q'" "length (aq_entries q') < 2 ^ 32"
      "\<forall>e \<in> set (aq_entries q'). entry_ok e" "sequences_ok (aq_entries q') (aq_next q')" by (auto simp: prepares_def)
    from manifest_store_write_effect(2) [OF cas q'(2,5) written] False
    obtain w where "cont st ?P = Some (manifest_bytes (aq_entries q') (aq_next q') (aq_epoch q'), w)"
      using q'(3,4) by auto
    with q' have "stores (cont st ?P) q'" by (simp add: queue_stored_def)
    moreover have "run_changes (qs_log s') empty_queue = Some q'"
      unfolding s'(3) using False q(1) q'(1) by (auto simp: run_changes_append)
    ultimately show ?thesis by blast
  qed
  moreover have "pending_ok (\<lambda>st. cont st ?P) later st ch' m' v'" if "qs_pending s' d = Some (ch', m', v')" for d ch' m' v'
  proof (rule pending_ok_later [OF cas conjunct1 [OF effect(1)]])
    have "qs_pending s d = Some (ch', m', v')" using that s'(2) by (auto split: if_splits)
    with ok show "pending_ok (\<lambda>st. cont st ?P) later (qs_store s) ch' m' v'" by (simp add: queue_system_ok_def)
  qed
  ultimately show ?thesis unfolding queue_system_ok_def s'(1) by blast
qed

lemma queue_step_log: "queue_step ops cont later path s s' \<Longrightarrow> length (qs_log s) \<le> length (qs_log s')"
  by (induction rule: queue_step.induct) auto

lemma queue_step_ok:
  assumes "queue_step ops cont later path s s'" and "cas_store ops cont later"
    and "queue_system_ok ops cont later path s" and "length (qs_log s) < 2 ^ 32 - 1"
  shows "queue_system_ok ops cont later path s'"
  using assms(1)
proof cases
  case (enqueue_reads location metadata entry m v c)
  then show ?thesis
    using enqueue_prepares [OF assms(2) enqueue_reads(4,3)] assms(2-4)
    by (auto intro!: queue_system_ok_pending)
next
  case (initialize_reads k k' m v new_epoch c)
  then show ?thesis
    using initialize_prepares [OF assms(2) initialize_reads(3)] assms(2-4)
    by (auto intro!: queue_system_ok_pending)
next
  case (dequeue_reads k c through k' m v removed)
  then show ?thesis
    using dequeue_prepares [OF assms(2) dequeue_reads(4)] assms(2-4)
    by (auto intro!: queue_system_ok_pending)
next
  case (writes c ch m v st r)
  then show ?thesis
    using queue_system_ok_write [OF assms(3,2) writes(2,3) assms(4), of s'] by simp
next
  case (stops c)
  with assms(3) show ?thesis by (simp add: queue_system_ok_def)
next
  case (elsewhere st)
  with assms(3) show ?thesis
    by (simp add: queue_system_ok_def) (blast intro: pending_ok_later [OF assms(2) elsewhere(2)])
qed

lemma queue_reachable_ok:
  assumes "queue_reachable ops cont later path s" and "cas_store ops cont later" and "length (qs_log s) < 2 ^ 32 - 1"
  shows "queue_system_ok ops cont later path s"
  using assms
proof (induction rule: queue_reachable.induct)
  case (start st)
  then show ?case by (simp add: queue_system_ok_def queue_stored_def empty_queue_def sequences_ok_def)
next
  case (step s s')
  with queue_step_log [OF step(2)] queue_step_ok [OF step(2) step(4)] show ?case by simp
qed

section \<open>A retry loop that is left alone succeeds\<close>

text \<open>
  A store that answers: an existing object is returned, and a put fails only when its condition
  does.
\<close>

definition answering_store :: "('o, 'v) object_store_ops \<Rightarrow> ('o \<Rightarrow> bytes \<Rightarrow> (bytes \<times> 'v) option) \<Rightarrow> bool" where
  "answering_store ops cont \<longleftrightarrow>
     (\<forall>st p. case cont st p of
         None \<Rightarrow> (\<exists>msg. os_get ops st p = Err (NotFound msg))
       | Some (d, v) \<Rightarrow> os_get ops st p = Ok (v, Ok d))
   \<and> (\<forall>st p d v. case snd (os_put_opts ops st p d (case v of Some w \<Rightarrow> Update w | None \<Rightarrow> Create)) of
         Ok _ \<Rightarrow> True
       | Err e \<Rightarrow> map_option snd (cont st p) \<noteq> v \<and> (\<exists>msg. e = Precondition msg \<or> e = AlreadyExists msg)
       | Panic \<Rightarrow> False)"

lemma manifest_store_read_answers:
  assumes "answering_store ops cont" and "stores (cont st (path_from ops path)) q" and "queue_room q"
  shows "\<exists>m v. manifest_store_read ops st path = Ok (m, v)"
proof -
  let ?P = "path_from ops path"
  from assms(1) have get: "case cont st ?P of
         None \<Rightarrow> (\<exists>msg. os_get ops st ?P = Err (NotFound msg))
       | Some (d, v) \<Rightarrow> os_get ops st ?P = Ok (v, Ok d)" by (simp add: answering_store_def)
  show ?thesis
  proof (cases "cont st ?P")
    case None
    with get obtain msg where "os_get ops st ?P = Err (NotFound msg)" by auto
    then show ?thesis by (simp add: manifest_store_read_def)
  next
    case (Some dv)
    with assms(2) obtain v where dv: "dv = (manifest_bytes (aq_entries q) (aq_next q) (aq_epoch q), v)"
      "\<forall>e \<in> set (aq_entries q). entry_ok e" by (auto simp: queue_stored_def)
    with get Some have "os_get ops st ?P = Ok (v, Ok (manifest_bytes (aq_entries q) (aq_next q) (aq_epoch q)))" by simp
    moreover have "length (aq_entries q) < 2 ^ 32" using assms(3) by (simp add: queue_room_def)
    ultimately show ?thesis
      using manifest_from_canonical [OF dv(2), of "aq_next q" "aq_epoch q"] by (auto simp: manifest_store_read_def)
  qed
qed

lemma manifest_store_write_answers:
  assumes "answering_store ops cont" and "manifest_rep m es" and "length es < 2 ^ 32"
    and "manifest_store_write ops st path m v = (st', r)"
  shows "r = Ok () \<or> (r = Err Conflict \<and> \<not> version_current (cont st (path_from ops path)) v)"
proof -
  let ?mode = "case v of Some w \<Rightarrow> Update w | None \<Rightarrow> Create"
  obtain st1 r1 where put: "os_put_opts ops st (path_from ops path) (manifest_bytes es (mf_next_sequence m) (mf_epoch m)) ?mode = (st1, r1)"
    by fastforce
  have "case snd (os_put_opts ops st (path_from ops path) (manifest_bytes es (mf_next_sequence m) (mf_epoch m)) ?mode) of
         Ok _ \<Rightarrow> True
       | Err e \<Rightarrow> map_option snd (cont st (path_from ops path)) \<noteq> v \<and> (\<exists>msg. e = Precondition msg \<or> e = AlreadyExists msg)
       | Panic \<Rightarrow> False"
    using assms(1) unfolding answering_store_def by blast
  with put assms(4) show ?thesis
    by (cases r1) (auto simp: manifest_store_write_def manifest_to_canonical [OF assms(2,3)] Let_def version_current_def)
qed

text \<open>
  What the other clients may do in a round: they leave a well-formed queue with room.
\<close>

definition queue_valid :: "('o \<Rightarrow> (bytes \<times> 'v) option) \<Rightarrow> 'o \<Rightarrow> bool" where
  "queue_valid obj st \<longleftrightarrow> (\<exists>q. stores (obj st) q \<and> queue_room q)"

definition polite ::
  "('o \<Rightarrow> (bytes \<times> 'v) option) \<Rightarrow> ('o \<Rightarrow> 'o \<Rightarrow> bool) \<Rightarrow> ('o \<Rightarrow> 'o) \<Rightarrow> bool" where
  "polite obj later env \<longleftrightarrow> (\<forall>st. queue_valid obj st \<longrightarrow> queue_valid obj (env st) \<and> later st (env st))"

lemma enqueue_round:
  assumes cas: "cas_store ops cont later" and ans: "answering_store ops cont"
    and entry: "\<forall>n. entry_ok (clone_with_sequence entry n)"
    and obj: "obj = (\<lambda>st. cont st (path_from ops path))"
    and valid: "queue_valid obj st" and pol: "polite obj later between"
  obtains m v st' r where "enqueue_begin ops path entry st = Ok (m, v)"
    "manifest_store_write ops (between st) path m v = (st', r)"
    "r = Err Conflict \<and> cont st' = cont (between st) \<and> obj (between st) \<noteq> obj st
     \<or> r = Ok () \<and> (\<exists>q. stores (obj (between st)) q \<and> queue_room q
          \<and> stores (obj st') (q\<lparr>aq_entries := aq_entries q @ [clone_with_sequence entry (aq_next q)], aq_next := aq_next q + 1\<rparr>))"
proof -
  from valid obtain q where q: "stores (obj st) q" "queue_room q" by (auto simp: queue_valid_def)
  from q obtain m0 v0 where r0: "manifest_store_read ops st path = Ok (m0, v0)"
    using manifest_store_read_answers [OF ans, of st path q] obj by auto
  from q(2) have len: "length (aq_entries q) < 2 ^ 32" by (simp add: queue_room_def)
  from manifest_store_read_stored [OF cas r0 _ len, of "aq_next q" "aq_epoch q"] q(1) obj
  have m0: "manifest_rep m0 (aq_entries q)" by auto
  from manifest_append_rep [OF m0, of entry] entry obtain m where began: "enqueue_begin ops path entry st = Ok (m, v0)"
    using r0 by (fastforce simp: enqueue_begin_def)
  from enqueue_prepares [OF cas began entry _ q(2)] q(1) obj
  have prep: "prepares q (Enqueued (clone_with_sequence entry (mf_next_sequence m - 1))) m"
    and v0: "v0 = map_option snd (obj st)" by auto
  let ?q' = "q\<lparr>aq_entries := aq_entries q @ [clone_with_sequence entry (aq_next q)], aq_next := aq_next q + 1\<rparr>"
  from prep have m: "manifest_rep m (aq_entries ?q')" "mf_next_sequence m = aq_next ?q'" "mf_epoch m = aq_epoch ?q'"
    "length (aq_entries ?q') < 2 ^ 32" "\<forall>e \<in> set (aq_entries ?q'). entry_ok e" "sequences_ok (aq_entries ?q') (aq_next ?q')"
    by (auto simp: prepares_def clone_with_sequence_def split: if_splits)
  obtain st' r where written: "manifest_store_write ops (between st) path m v0 = (st', r)" by fastforce
  note ok = manifest_store_write_answers [OF ans m(1,4) written]
  note effect = manifest_store_write_effect(2) [OF cas m(1,4) written]
  have "r = Err Conflict \<and> cont st' = cont (between st) \<and> obj (between st) \<noteq> obj st
     \<or> r = Ok () \<and> (\<exists>q. stores (obj (between st)) q \<and> queue_room q
          \<and> stores (obj st') (q\<lparr>aq_entries := aq_entries q @ [clone_with_sequence entry (aq_next q)], aq_next := aq_next q + 1\<rparr>))"
  proof (cases "r = Ok ()")
    case True
    with effect have cur: "version_current (obj (between st)) v0"
      and new: "\<exists>w. obj st' = Some (manifest_bytes (aq_entries ?q') (aq_next ?q') (aq_epoch ?q'), w)"
      using obj m(2,3) by auto
    have "later st (between st)" using pol valid by (simp add: polite_def)
    from version_current_stored [OF cas this, of v0 "path_from ops path"] v0 cur q(1) obj
    have "stores (obj (between st)) q" by auto
    moreover have "stores (obj st') ?q'" using new m(5,6) unfolding queue_stored_def by blast
    ultimately show ?thesis using True q(2) by blast
  next
    case False
    with ok have "r = Err Conflict" "\<not> version_current (obj (between st)) v0" by (auto simp: obj)
    with effect v0 show ?thesis by (auto simp: version_current_def)
  qed
  with began written that show ?thesis by blast
qed

text \<open>
  The loop of \<open>enqueue\<close> never fails; a round in which nobody else writes the manifest is its
  last, and when it returns the entry is at the end of the queue that was stored at that moment.
\<close>

lemma enqueue_loop_result:
  assumes "cas_store ops cont later" and "answering_store ops cont"
    and "\<forall>n. entry_ok (clone_with_sequence entry n)"
    and "obj = (\<lambda>st. cont st (path_from ops (qp_manifest_path p)))"
    and "queue_valid obj st" and "\<forall>(before, between) \<in> set rounds. polite obj later before \<and> polite obj later between"
    and "enqueue_loop ops entry p st rounds = (st', p', r)"
  shows "(r = Some (Ok ()) \<and> (\<exists>q. queue_room q
            \<and> stores (obj st') (q\<lparr>aq_entries := aq_entries q @ [clone_with_sequence entry (aq_next q)], aq_next := aq_next q + 1\<rparr>)))
       \<or> (r = None \<and> queue_valid obj st' \<and> (\<forall>(before, between) \<in> set rounds. \<exists>st. queue_valid obj st \<and> obj (between st) \<noteq> obj st))"
  using assms(4-7)
proof (induction rounds arbitrary: p st)
  case (Cons round rounds)
  obtain before between where round: "round = (before, between)" by fastforce
  let ?st = "before st" and ?path = "qp_manifest_path p"
  from Cons.prems(2,3) round have valid: "queue_valid obj ?st" and pol: "polite obj later between" by (auto simp: polite_def)
  obtain m v st1 r1 where b: "enqueue_begin ops ?path entry ?st = Ok (m, v)"
    "manifest_store_write ops (between ?st) ?path m v = (st1, r1)"
    "r1 = Err Conflict \<and> cont st1 = cont (between ?st) \<and> obj (between ?st) \<noteq> obj ?st
     \<or> r1 = Ok () \<and> (\<exists>q. stores (obj (between ?st)) q \<and> queue_room q
          \<and> stores (obj st1) (q\<lparr>aq_entries := aq_entries q @ [clone_with_sequence entry (aq_next q)], aq_next := aq_next q + 1\<rparr>))"
    by (rule enqueue_round [OF assms(1-3) Cons.prems(1) valid pol])
  let ?p = "p\<lparr>qp_counter := record_write (qp_counter p)\<rparr>"
  show ?case
  proof (cases "r1 = Ok ()")
    case True
    with Cons.prems(4) round b(1,2) have "st' = st1" "r = Some (Ok ())" by (simp_all add: Let_def)
    with b(3) True show ?thesis by auto
  next
    case False
    with b(3) have r1: "r1 = Err Conflict" "cont st1 = cont (between ?st)" "obj (between ?st) \<noteq> obj ?st" by auto
    let ?p2 = "?p\<lparr>qp_counter := record_conflict (qp_counter ?p)\<rparr>"
    have loop: "enqueue_loop ops entry ?p2 st1 rounds = (st', p', r)"
      using Cons.prems(4) round b(1,2) r1(1) by (simp add: Let_def)
    have "queue_valid obj (between ?st)" using pol valid by (simp add: polite_def)
    then have valid1: "queue_valid obj st1" using r1(2) Cons.prems(1) by (simp add: queue_valid_def)
    have obj2: "obj = (\<lambda>st. cont st (path_from ops (qp_manifest_path ?p2)))" using Cons.prems(1) by simp
    have "\<forall>(before, between) \<in> set rounds. polite obj later before \<and> polite obj later between" using Cons.prems(3) by simp
    from Cons.IH [OF obj2 valid1 this loop] r1(3) valid round show ?thesis by auto
  qed
qed simp

section \<open>A store that keeps the promises\<close>

text \<open>An object store whose version of an object is its content.\<close>

definition list_put :: "(bytes \<times> bytes) list \<Rightarrow> bytes \<Rightarrow> bytes \<Rightarrow> bytes put_mode \<Rightarrow> (bytes \<times> bytes) list \<times> (unit, os_error) result" where
  "list_put st p d mode =
     (case mode of
        Overwrite \<Rightarrow> ((p, d) # st, Ok ())
      | Create \<Rightarrow> (case map_of st p of None \<Rightarrow> ((p, d) # st, Ok ()) | Some _ \<Rightarrow> (st, Err (AlreadyExists ''exists'')))
      | Update v \<Rightarrow> (if map_of st p = Some v then ((p, d) # st, Ok ()) else (st, Err (Precondition ''changed''))))"

definition list_store :: "((bytes \<times> bytes) list, bytes) object_store_ops" where
  "list_store = \<lparr>
     os_get = (\<lambda>st p. case map_of st p of Some d \<Rightarrow> Ok (d, Ok d) | None \<Rightarrow> Err (NotFound ''missing'')),
     os_put_opts = list_put,
     os_list = (\<lambda>st p. map Ok (filter (\<lambda>k. take (length p) k = p) (remdups (map fst st)))),
     os_delete = (\<lambda>st p. (filter (\<lambda>(k, d). k \<noteq> p) st, Ok ())),
     path_from = (\<lambda>s. s)\<rparr>"

definition list_cont :: "(bytes \<times> bytes) list \<Rightarrow> bytes \<Rightarrow> (bytes \<times> bytes) option" where
  "list_cont st p = map_option (\<lambda>d. (d, d)) (map_of st p)"

lemma list_store_simps [simp]:
  "os_get list_store = (\<lambda>st p. case map_of st p of Some d \<Rightarrow> Ok (d, Ok d) | None \<Rightarrow> Err (NotFound ''missing''))"
  "os_put_opts list_store = list_put" "path_from list_store = (\<lambda>s. s)"
  by (simp_all add: list_store_def)

lemma list_store_cas: "cas_store list_store list_cont (\<lambda>_ _. True)"
proof -
  have "get_law list_store list_cont" by (auto simp: get_law_def list_cont_def split: option.splits)
  moreover have "put_law list_store list_cont"
    by (auto simp: put_law_def list_put_def stored_by_put_def list_cont_def fun_eq_iff
        split: put_mode.splits option.splits if_splits)
  moreover have "time_law list_store list_cont (\<lambda>_ _. True)"
    by (auto simp: time_law_def list_cont_def reflp_def transp_def)
  ultimately show ?thesis by (simp add: cas_store_def)
qed

lemma list_store_answers: "answering_store list_store list_cont"
  by (auto simp: answering_store_def list_put_def list_cont_def split: option.splits put_mode.splits if_splits)

section \<open>Properties\<close>

text \<open>C4.  Whatever the interleaving of any number of producers and consumers, crashes and
  ambiguous failures of the store included, the queue is sequential.  In every reachable state with
  fewer than \<open>2\<^sup>3\<^sup>2 - 1\<close> changes, the changes that took effect, in order, are a run of the sequential
  queue that ends in the stored one: the entries dequeued so far followed by those stored are exactly
  the entries enqueued, in order; their sequence numbers are \<open>0, 1, 2, \<dots>\<close>; and every dequeue
  was made by a consumer whose epoch was current, so a fenced consumer removes nothing.\<close>

theorem queue_interleavings_sequential:
  assumes "queue_reachable ops cont later path s" and "cas_store ops cont later" and "length (qs_log s) < 2 ^ 32 - 1"
  shows "\<exists>q. run_changes (qs_log s) empty_queue = Some q
    \<and> queue_stored (cont (qs_store s) (path_from ops path)) (aq_entries q) (aq_next q) (aq_epoch q)
    \<and> dequeued (qs_log s) @ aq_entries q = enqueued (qs_log s)
    \<and> map qe_sequence (enqueued (qs_log s)) = map word_of_nat [0..<length (enqueued (qs_log s))]
    \<and> (\<forall>xs k removed ys. qs_log s = xs @ Dequeued k removed # ys \<longrightarrow> k = current_epoch 0 xs)"
proof -
  from queue_reachable_ok [OF assms] obtain q where q: "run_changes (qs_log s) empty_queue = Some q"
    "queue_stored (cont (qs_store s) (path_from ops path)) (aq_entries q) (aq_next q) (aq_epoch q)"
    by (auto simp: queue_system_ok_def)
  have "k = current_epoch 0 xs" if "qs_log s = xs @ Dequeued k removed # ys" for xs k removed ys
    using run_changes_fenced [OF q(1) [unfolded that]] by (simp add: empty_queue_def)
  with q run_changes_fifo [OF q(1)] run_changes_numbering [OF q(1)] show ?thesis
    by (auto simp: empty_queue_def)
qed

definition sample_queue_entry :: "u64 \<Rightarrow> queue_entry" where
  "sample_queue_entry n = \<lparr>qe_sequence = n, qe_location = [0x61], qe_metadata = []\<rparr>"

lemma sample_queue_entry_ok: "entry_ok (clone_with_sequence (sample_queue_entry 0) n)"
  by (simp add: entry_ok_def entry_body_len_def sample_queue_entry_def clone_with_sequence_def)

text \<open>A run of one enqueue, over a store in which there is no manifest yet.\<close>

lemma sample_queue_run:
  assumes "map_of st [0x6D] = None"
  shows "\<exists>s. queue_reachable list_store list_cont (\<lambda>_ _. True) [0x6D] (s :: ((bytes \<times> bytes) list, bytes, nat) queue_system)
    \<and> qs_log s = [Enqueued (sample_queue_entry 0)] \<and> qs_store s = ([0x6D], manifest_bytes [sample_queue_entry 0] 1 0) # st"
proof -
  let ?R = "queue_reachable list_store list_cont (\<lambda>_ _. True) [0x6D]" and ?e = "sample_queue_entry 0"
  let ?s0 = "\<lparr>qs_store = st, qs_pending = (\<lambda>_. None), qs_epochs = (\<lambda>_. uninitialized_epoch), qs_log = []\<rparr>
    :: ((bytes \<times> bytes) list, bytes, nat) queue_system"
  have r0: "?R ?s0" by (rule queue_reachable.start) (simp add: list_cont_def assms)
  have new: "queue_entry_new [0x61] [] = Ok ?e" by (simp add: queue_entry_new_def sample_queue_entry_def)
  obtain m where b: "enqueue_begin list_store [0x6D] ?e st = Ok (m, None)" "mf_next_sequence m = 1" "mf_epoch m = 0"
    "manifest_rep m [?e]"
    using manifest_append_rep [OF manifest_empty_rep, of ?e] sample_queue_entry_ok assms
    by (fastforce simp: enqueue_begin_def manifest_store_read_def manifest_empty_fields clone_with_sequence_def sample_queue_entry_def)
  let ?s1 = "?s0\<lparr>qs_pending := [0 \<mapsto> (Enqueued ?e, m, None)]\<rparr>"
  have "queue_step list_store list_cont (\<lambda>_ _. True) [0x6D] ?s0 ?s1"
    using queue_step.enqueue_reads [OF new, of list_store "[0x6D]" ?s0 m None list_cont "\<lambda>_ _. True" 0]
      sample_queue_entry_ok b(1,2) by (simp add: clone_with_sequence_def sample_queue_entry_def)
  with r0 have r1: "?R ?s1" by (rule queue_reachable.step)
  let ?st = "([0x6D], manifest_bytes [?e] 1 0) # st"
  have st: "manifest_store_write list_store st [0x6D] m None = (?st, Ok ())"
    using b(2-4) assms by (simp add: manifest_store_write_def manifest_to_canonical list_put_def)
  let ?s2 = "?s1\<lparr>qs_store := ?st, qs_pending := (qs_pending ?s1)(0 := None), qs_epochs := qs_epochs ?s1, qs_log := [Enqueued ?e]\<rparr>"
  have "queue_step list_store list_cont (\<lambda>_ _. True) [0x6D] ?s1 ?s2"
    using queue_step.writes [of ?s1 0 "Enqueued ?e" m None list_store "[0x6D]" ?st "Ok ()" list_cont "\<lambda>_ _. True"] st
    by simp
  with r1 have "?R ?s2" by (rule queue_reachable.step)
  then show ?thesis by (intro exI [of _ ?s2]) simp
qed

theorem queue_interleavings_sequential_witness:
  "\<exists>s q. queue_reachable list_store list_cont (\<lambda>_ _. True) [0x6D] (s :: ((bytes \<times> bytes) list, bytes, nat) queue_system)
     \<and> qs_log s = [Enqueued (sample_queue_entry 0)]
     \<and> queue_stored (list_cont (qs_store s) [0x6D]) (aq_entries (q :: abstract_queue)) (aq_next q) (aq_epoch q)
     \<and> dequeued (qs_log s) @ aq_entries q = enqueued (qs_log s)"
proof -
  obtain s :: "((bytes \<times> bytes) list, bytes, nat) queue_system"
    where s: "queue_reachable list_store list_cont (\<lambda>_ _. True) [0x6D] s" "qs_log s = [Enqueued (sample_queue_entry 0)]"
    using sample_queue_run [of "[]"] by auto
  then have "length (qs_log s) < 2 ^ 32 - 1" by simp
  from queue_interleavings_sequential [OF s(1) list_store_cas this] obtain q :: abstract_queue
    where "queue_stored (list_cont (qs_store s) (path_from list_store [0x6D])) (aq_entries q) (aq_next q) (aq_epoch q)"
      "dequeued (qs_log s) @ aq_entries q = enqueued (qs_log s)" by blast
  with s show ?thesis unfolding list_store_simps by blast
qed

text \<open>C21.  A producer gets through.  Over a store that answers, and beside other clients that keep
  the queue well formed, the loop of \<open>enqueue\<close> does not fail: either it has returned \<open>Ok\<close>, and then the
  entry was put, under the next sequence number, at the end of the queue that was stored at that
  moment; or it is still retrying, and then in every round another client changed the manifest
  between the read and the write.  So one round that is left alone is enough.\<close>

theorem enqueue_gets_through:
  assumes "cas_store ops cont later" and "answering_store ops cont"
    and "queue_entry_new location metadata = Ok entry" and "\<forall>n. entry_ok (clone_with_sequence entry n)"
    and "queue_valid (\<lambda>st. cont st (path_from ops (qp_manifest_path p))) st"
    and "\<forall>(before, between) \<in> set rounds. polite (\<lambda>st. cont st (path_from ops (qp_manifest_path p))) later before
           \<and> polite (\<lambda>st. cont st (path_from ops (qp_manifest_path p))) later between"
    and "(before, between) \<in> set rounds"
    and "\<forall>st. cont (between st) (path_from ops (qp_manifest_path p)) = cont st (path_from ops (qp_manifest_path p))"
  shows "\<exists>st' p' es ns ep. enqueue ops p location metadata st rounds = (st', p', Some (Ok ()))
    \<and> queue_stored (cont st' (path_from ops (qp_manifest_path p))) (es @ [clone_with_sequence entry ns]) (ns + 1) ep"
proof -
  let ?obj = "\<lambda>st. cont st (path_from ops (qp_manifest_path p))"
  obtain st' p' r where loop: "enqueue_loop ops entry p st rounds = (st', p', r)"
    by (cases "enqueue_loop ops entry p st rounds") auto
  have "\<not> (\<exists>st. queue_valid ?obj st \<and> ?obj (between st) \<noteq> ?obj st)" using assms(8) by blast
  with enqueue_loop_result [OF assms(1,2,4) refl assms(5,6) loop] assms(7)
  obtain q where "r = Some (Ok ())"
    "stores (?obj st') (q\<lparr>aq_entries := aq_entries q @ [clone_with_sequence entry (aq_next q)], aq_next := aq_next q + 1\<rparr>)"
    by fastforce
  with loop assms(3) show ?thesis by (auto simp: enqueue_def)
qed

theorem enqueue_gets_through_witness:
  "\<exists>st' p' es ns ep. enqueue list_store (queue_producer_new [0x6D]) [0x61] [] [] [(\<lambda>st. st, \<lambda>st. st)] = (st', p', Some (Ok ()))
     \<and> queue_stored (list_cont st' [0x6D]) (es @ [sample_queue_entry ns]) (ns + 1) ep"
proof -
  have valid: "queue_valid (\<lambda>st. list_cont st [0x6D]) []"
    unfolding queue_valid_def
    by (rule exI [of _ empty_queue]) (simp add: list_cont_def queue_stored_def empty_queue_def sequences_ok_def queue_room_def)
  have "queue_entry_new [0x61] [] = Ok (sample_queue_entry 0)"
    by (simp add: queue_entry_new_def sample_queue_entry_def)
  from enqueue_gets_through [OF list_store_cas list_store_answers this, of "queue_producer_new [0x6D]" "[]" "[(\<lambda>st. st, \<lambda>st. st)]"]
    sample_queue_entry_ok valid
  show ?thesis by (simp add: polite_def queue_producer_new_def clone_with_sequence_def sample_queue_entry_def)
qed

end
