(* ===== verification/Buffer_Pipeline.thy ===== *)
theory Buffer_Pipeline
  imports Buffer_Queue "HOL-Library.Code_Target_Nat"
begin

text \<open>
  The two ends of the buffer: the producer's batch writer (\<open>buffer/src/producer.rs\<close>), the consumer
  (\<open>buffer/src/consumer.rs\<close>) and its garbage collector (\<open>buffer/src/gc.rs\<close>).  Entries are collected
  into a batch until it is large enough, old enough or flushed; the batch is stored as an object of
  its own and then enqueued in the manifest; whoever waits for it is told the outcome.  The consumer
  follows the sequence numbers of the queue, fetches the batches, and removes acknowledged
  entries from the queue every hundred acknowledgements; the collector deletes batch objects that no
  entry refers to.  Channels, the timer and the cancellation token of the tasks are the events
  given to \<open>writer_event\<close>; a ULID is a parameter (its text when it is made, its time when it is read).
  The lemmas compose the two ends over the queue: a batch that was acknowledged is returned
  unchanged by the consumer, batches are delivered in the order they were enqueued, and the
  collector never deletes a batch that is still to be consumed.
\<close>

section \<open>Batches in the making\<close>

text \<open>A notifier is the sending half of a watch channel; \<open>'n\<close> names it.\<close>

record 'n data_and_notifiers =
  dn_entries :: "bytes list"
  dn_metadata :: "queue_metadata list"
  dn_notifiers :: "'n list"

definition dn_default :: "'n data_and_notifiers" where
  "dn_default = \<lparr>dn_entries = [], dn_metadata = [], dn_notifiers = []\<rparr>"

definition dn_add ::
  "'n data_and_notifiers \<Rightarrow> bytes list \<Rightarrow> bytes \<Rightarrow> i64 \<Rightarrow> 'n \<Rightarrow> 'n data_and_notifiers \<times> unit buffer_result" where
  "dn_add d entries metadata ingestion_time_ms notifier =
     (let start_index = word_of_nat (length (dn_entries d));
          d = d\<lparr>dn_entries := dn_entries d @ entries\<rparr>
      in if length (dn_entries d) > 4294967295
         then (d, Err (BufInvalidInput ''batch entry count {} exceeds u32::MAX'' [int (length (dn_entries d))]))
         else (d\<lparr>dn_metadata := dn_metadata d @ [\<lparr>md_start_index = start_index,
                   md_ingestion_time_ms = ingestion_time_ms, md_payload = metadata\<rparr>],
                 dn_notifiers := dn_notifiers d @ [notifier]\<rparr>, Ok ()))"

definition dn_is_empty :: "'n data_and_notifiers \<Rightarrow> bool" where
  "dn_is_empty d \<longleftrightarrow> dn_entries d = [] \<and> dn_metadata d = [] \<and> dn_notifiers d = []"

text \<open>Times and durations are numbers of nanoseconds.\<close>

record 'n batch =
  ba_data :: "'n data_and_notifiers"
  ba_size_bytes :: nat
  ba_started_at :: "nat option"

definition batch_new :: "'n batch" where
  "batch_new = \<lparr>ba_data = dn_default, ba_size_bytes = 0, ba_started_at = None\<rparr>"

definition batch_add ::
  "'n batch \<Rightarrow> bytes list \<Rightarrow> bytes \<Rightarrow> i64 \<Rightarrow> 'n \<Rightarrow> nat \<Rightarrow> 'n batch \<times> unit buffer_result" where
  "batch_add b entries metadata ingestion_time_ms notifier now =
     (case find (\<lambda>e. length e > 4294967295) entries of
        Some e \<Rightarrow> (b, Err (BufInvalidInput ''entry size {} exceeds u32::MAX'' [int (length e)]))
      | None \<Rightarrow>
          (let entry_size_sum = sum_list (map length entries);
               b = b\<lparr>ba_size_bytes := ba_size_bytes b + (entry_size_sum + length metadata)\<rparr>
           in case dn_add (ba_data b) entries metadata ingestion_time_ms notifier of
                (d, Ok _) \<Rightarrow>
                  (b\<lparr>ba_data := d,
                     ba_started_at := (case ba_started_at b of None \<Rightarrow> Some now | Some t \<Rightarrow> Some t)\<rparr>, Ok ())
              | (d, r) \<Rightarrow> (b\<lparr>ba_data := d\<rparr>, r)))"

definition batch_take :: "'n batch \<Rightarrow> 'n batch \<times> 'n data_and_notifiers" where
  "batch_take b = (b\<lparr>ba_size_bytes := 0, ba_started_at := None, ba_data := dn_default\<rparr>, ba_data b)"

definition batch_is_empty :: "'n batch \<Rightarrow> bool" where
  "batch_is_empty b = dn_is_empty (ba_data b)"

section \<open>The batch writer\<close>

record 'n batch_writer_task =
  bw_producer :: queue_producer
  bw_data_path_prefix :: bytes
  bw_flush_interval :: nat
  bw_flush_size_bytes :: nat
  bw_compression :: compression_type
  bw_batch :: "'n batch"

definition batch_writer_task_new :: "bytes \<Rightarrow> bytes \<Rightarrow> nat \<Rightarrow> nat \<Rightarrow> compression_type \<Rightarrow> 'n batch_writer_task" where
  "batch_writer_task_new manifest_path data_path_prefix flush_interval flush_size_bytes compression =
     \<lparr>bw_producer = queue_producer_new manifest_path, bw_data_path_prefix = data_path_prefix,
      bw_flush_interval = flush_interval, bw_flush_size_bytes = flush_size_bytes,
      bw_compression = compression, bw_batch = batch_new\<rparr>"

text \<open>The text \<open>{prefix}/{id}.batch\<close>.\<close>

definition batch_suffix :: bytes where "batch_suffix = [0x2E, 0x62, 0x61, 0x74, 0x63, 0x68]"

definition batch_path :: "bytes \<Rightarrow> bytes \<Rightarrow> bytes" where
  "batch_path data_prefix ulid = data_prefix @ [0x2F] @ ulid @ batch_suffix"

text \<open>
  \<open>write_and_enqueue\<close>: \<open>ulid\<close> is the new ULID and \<open>rounds\<close> what other clients do during the retries of
  \<open>enqueue\<close>; the result is \<^const>\<open>None\<close> while it is still retrying.
\<close>

definition write_and_enqueue ::
  "('o, 'v) object_store_ops \<Rightarrow> zstd_ops \<Rightarrow> 'n batch_writer_task \<Rightarrow> bytes list \<Rightarrow> queue_metadata list \<Rightarrow> 'o \<Rightarrow> bytes
    \<Rightarrow> (('o \<Rightarrow> 'o) \<times> ('o \<Rightarrow> 'o)) list \<Rightarrow> 'o \<times> 'n batch_writer_task \<times> unit buffer_result option" where
  "write_and_enqueue ops zs task entries metadata st ulid rounds =
     (case encode_batch zs entries (bw_compression task) of
        Err e \<Rightarrow> (st, task, Some (Err e))
      | Panic \<Rightarrow> (st, task, Some Panic)
      | Ok payload \<Rightarrow>
          (let path = path_from ops (batch_path (bw_data_path_prefix task) ulid) in
           case os_put_opts ops st path payload Overwrite of
             (st', Err e) \<Rightarrow> (st', task, Some (Err (buf_storage e)))
           | (st', Panic) \<Rightarrow> (st', task, Some Panic)
           | (st', Ok _) \<Rightarrow>
               (case enqueue ops (bw_producer task) path metadata st' rounds of
                  (st'', p, r) \<Rightarrow> (st'', task\<lparr>bw_producer := p\<rparr>, r))))"

text \<open>\<open>write_batch\<close>; the third component is what the notifiers are sent.\<close>

definition write_batch ::
  "('o, 'v) object_store_ops \<Rightarrow> zstd_ops \<Rightarrow> 'n batch_writer_task \<Rightarrow> 'o \<Rightarrow> bytes \<Rightarrow> (('o \<Rightarrow> 'o) \<times> ('o \<Rightarrow> 'o)) list
    \<Rightarrow> 'o \<times> 'n batch_writer_task \<times> ('n \<times> unit buffer_result) list \<times> unit buffer_result option" where
  "write_batch ops zs task st ulid rounds =
     (if batch_is_empty (bw_batch task) then (st, task, [], Some (Ok ()))
      else
        (case batch_take (bw_batch task) of (b, d) \<Rightarrow>
           (case write_and_enqueue ops zs (task\<lparr>bw_batch := b\<rparr>) (dn_entries d) (dn_metadata d) st ulid rounds of
              (st', task', None) \<Rightarrow> (st', task', [], None)
            | (st', task', Some Panic) \<Rightarrow> (st', task', [], Some Panic)
            | (st', task', Some r) \<Rightarrow> (st', task', map (\<lambda>n. (n, r)) (dn_notifiers d), Some r))))"

text \<open>How long \<open>run\<close> sleeps before it writes the batch on its own.\<close>

definition sleep_duration :: "'n batch_writer_task \<Rightarrow> nat \<Rightarrow> nat" where
  "sleep_duration task now =
     (case ba_started_at (bw_batch task) of
        Some started \<Rightarrow> started + bw_flush_interval task - now
      | None \<Rightarrow> bw_flush_interval task)"

datatype 'n writer_message =
    AddMessage "bytes list" bytes i64 'n
  | FlushMessage 'n
  | TimerElapsed

text \<open>
  One turn of the loop of \<open>run\<close>: an \<open>Add\<close>, whose notifier is told at once when it is refused; a \<open>Flush\<close>,
  whose sender gets the outcome of the write; or the timer.
\<close>

definition writer_event ::
  "('o, 'v) object_store_ops \<Rightarrow> zstd_ops \<Rightarrow> 'n batch_writer_task \<Rightarrow> 'o \<Rightarrow> 'n writer_message \<Rightarrow> nat \<Rightarrow> bytes
    \<Rightarrow> (('o \<Rightarrow> 'o) \<times> ('o \<Rightarrow> 'o)) list \<Rightarrow> 'o \<times> 'n batch_writer_task \<times> ('n \<times> unit buffer_result) list" where
  "writer_event ops zs task st msg now ulid rounds =
     (case msg of
        AddMessage entries metadata ingestion_time_ms notifier \<Rightarrow>
          (case batch_add (bw_batch task) entries metadata ingestion_time_ms notifier now of
             (b, Err e) \<Rightarrow> (st, task\<lparr>bw_batch := b\<rparr>, [(notifier, Err e)])
           | (b, _) \<Rightarrow>
               (if ba_size_bytes b \<ge> bw_flush_size_bytes task
                then case write_batch ops zs (task\<lparr>bw_batch := b\<rparr>) st ulid rounds of
                       (st', task', notes, r) \<Rightarrow> (st', task', notes)
                else (st, task\<lparr>bw_batch := b\<rparr>, [])))
      | FlushMessage sender \<Rightarrow>
          (case write_batch ops zs task st ulid rounds of
             (st', task', notes, Some r) \<Rightarrow> (st', task', notes @ [(sender, r)])
           | (st', task', notes, None) \<Rightarrow> (st', task', notes))
      | TimerElapsed \<Rightarrow>
          (case write_batch ops zs task st ulid rounds of (st', task', notes, r) \<Rightarrow> (st', task', notes)))"

text \<open>\<open>Producer::produce\<close>: the checks, and the message that is sent.\<close>

definition produce :: "bytes list \<Rightarrow> bytes \<Rightarrow> i64 \<Rightarrow> 'n \<Rightarrow> 'n writer_message buffer_result" where
  "produce entries metadata ingestion_time_ms notifier =
     (if entries = [] then Err (BufInvalidInput ''entries must not be empty'' [])
      else if length metadata > 4294967295
      then Err (BufInvalidInput ''metadata size {} exceeds u32::MAX'' [int (length metadata)])
      else Ok (AddMessage entries metadata ingestion_time_ms notifier))"

section \<open>The consumer\<close>

definition dequeue_interval :: u64 where "dequeue_interval = 100"

record consumed_batch =
  cb_entries :: "bytes list"
  cb_sequence :: u64
  cb_location :: bytes
  cb_metadata :: "queue_metadata list"

record consumer =
  co_consumer :: queue_consumer
  co_ack_count :: u64
  co_last_acked :: "u64 option"
  co_last_fetched :: "u64 option"

definition consumer_open ::
  "('o, 'v) object_store_ops \<Rightarrow> bytes \<Rightarrow> u64 option \<Rightarrow> 'o \<Rightarrow> (('o \<Rightarrow> 'o) \<times> ('o \<Rightarrow> 'o)) list \<Rightarrow> (('o \<Rightarrow> 'o) \<times> ('o \<Rightarrow> 'o)) list
    \<Rightarrow> 'o \<times> consumer buffer_result option" where
  "consumer_open ops manifest_path last_acked st rounds rounds' =
     (case initialize ops (queue_consumer_new manifest_path) st rounds of
        (st, c, None) \<Rightarrow> (st, None)
      | (st, c, Some (Err e)) \<Rightarrow> (st, Some (Err e))
      | (st, c, Some Panic) \<Rightarrow> (st, Some Panic)
      | (st, c, Some (Ok _)) \<Rightarrow>
          (case last_acked of
             None \<Rightarrow> (st, Some (Ok \<lparr>co_consumer = c, co_ack_count = 0, co_last_acked = None, co_last_fetched = None\<rparr>))
           | Some seq \<Rightarrow>
               (case dequeue ops c seq st rounds' of
                  (st, c, None) \<Rightarrow> (st, None)
                | (st, c, Some (Err e)) \<Rightarrow> (st, Some (Err e))
                | (st, c, Some Panic) \<Rightarrow> (st, Some Panic)
                | (st, c, Some (Ok _)) \<Rightarrow>
                    (st, Some (Ok \<lparr>co_consumer = c, co_ack_count = 0, co_last_acked = Some seq, co_last_fetched = Some seq\<rparr>)))))"

definition fetch_batch ::
  "('o, 'v) object_store_ops \<Rightarrow> zstd_ops \<Rightarrow> queue_entry \<Rightarrow> 'o \<Rightarrow> consumed_batch option buffer_result" where
  "fetch_batch ops zs entry st =
     (case os_get ops st (path_from ops (qe_location entry)) of
        Ok (version, body) \<Rightarrow>
          result_bind (result_map_err buf_storage body) (\<lambda>data.
          result_bind (decode_batch zs data) (\<lambda>entries.
            Ok (Some \<lparr>cb_entries = entries, cb_sequence = qe_sequence entry, cb_location = qe_location entry,
                      cb_metadata = qe_metadata entry\<rparr>)))
      | Err e \<Rightarrow> Err (buf_storage e)
      | Panic \<Rightarrow> Panic)"

definition next_batch ::
  "('o, 'v) object_store_ops \<Rightarrow> zstd_ops \<Rightarrow> consumer \<Rightarrow> 'o \<Rightarrow> consumer \<times> consumed_batch option buffer_result" where
  "next_batch ops zs c st =
     (case (case co_last_fetched c of
              None \<Rightarrow> peek ops (co_consumer c) st
            | Some seq \<Rightarrow> queue_read ops (co_consumer c) (seq + 1) st) of
        (k, Ok (Some entry)) \<Rightarrow>
          (case fetch_batch ops zs entry st of
             Ok b \<Rightarrow> (c\<lparr>co_consumer := k, co_last_fetched := Some (qe_sequence entry)\<rparr>, Ok b)
           | Err e \<Rightarrow> (c\<lparr>co_consumer := k\<rparr>, Err e)
           | Panic \<Rightarrow> (c\<lparr>co_consumer := k\<rparr>, Panic))
      | (k, Ok None) \<Rightarrow> (c\<lparr>co_consumer := k\<rparr>, Ok None)
      | (k, Err e) \<Rightarrow> (c\<lparr>co_consumer := k\<rparr>, Err e)
      | (k, Panic) \<Rightarrow> (c\<lparr>co_consumer := k\<rparr>, Panic))"

definition consumer_dequeue ::
  "('o, 'v) object_store_ops \<Rightarrow> consumer \<Rightarrow> u64 \<Rightarrow> 'o \<Rightarrow> (('o \<Rightarrow> 'o) \<times> ('o \<Rightarrow> 'o)) list
    \<Rightarrow> 'o \<times> consumer \<times> unit buffer_result option" where
  "consumer_dequeue ops c sequence st rounds =
     (case dequeue ops (co_consumer c) sequence st rounds of
        (st', k, r) \<Rightarrow> (st', c\<lparr>co_consumer := k\<rparr>, map_option (result_map (\<lambda>_. ())) r))"

definition ack ::
  "('o, 'v) object_store_ops \<Rightarrow> consumer \<Rightarrow> u64 \<Rightarrow> 'o \<Rightarrow> (('o \<Rightarrow> 'o) \<times> ('o \<Rightarrow> 'o)) list
    \<Rightarrow> 'o \<times> consumer \<times> unit buffer_result option" where
  "ack ops c sequence st rounds =
     (if \<exists>acked. co_last_acked c = Some acked \<and> sequence \<noteq> acked + 1
      then (st, c, Some (Err (BufStorage ''out-of-order ack: expected sequence {}, got {}''
             [uint (the (co_last_acked c) + 1), uint sequence])))
      else
        let c = c\<lparr>co_last_acked := Some sequence, co_ack_count := co_ack_count c + 1\<rparr> in
        if co_ack_count c mod dequeue_interval = 0 then consumer_dequeue ops c sequence st rounds
        else (st, c, Some (Ok ())))"

text \<open>\<open>flush\<close>; \<open>close\<close> is a flush and the end of the collector.\<close>

definition consumer_flush ::
  "('o, 'v) object_store_ops \<Rightarrow> consumer \<Rightarrow> 'o \<Rightarrow> (('o \<Rightarrow> 'o) \<times> ('o \<Rightarrow> 'o)) list
    \<Rightarrow> 'o \<times> consumer \<times> unit buffer_result option" where
  "consumer_flush ops c st rounds =
     (case co_last_acked c of
        Some seq \<Rightarrow> consumer_dequeue ops c seq st rounds
      | None \<Rightarrow> (st, c, Some (Ok ())))"

definition consumer_len :: "consumer \<Rightarrow> nat" where
  "consumer_len c = queue_len (co_consumer c)"

section \<open>The garbage collector\<close>

record garbage_collector =
  gc_manifest_path :: bytes
  gc_data_path_prefix :: bytes
  gc_grace_period :: nat

record manifest_snapshot =
  ms_locations :: "bytes set"
  ms_oldest_location_ts :: "nat option"

text \<open>
  The time of a batch from its file name: the part after the last slash, without \<open>.batch\<close>, read
  as a ULID by the parameter.
\<close>

definition extract_ulid_timestamp :: "(bytes \<Rightarrow> nat option) \<Rightarrow> bytes \<Rightarrow> nat option" where
  "extract_ulid_timestamp ulid_time path =
     (let filename = rev (takeWhile (\<lambda>b. b \<noteq> 0x2F) (rev path)) in
      if suffix batch_suffix filename
      then ulid_time (take (length filename - length batch_suffix) filename) else None)"

fun snapshot_loop ::
  "(bytes \<Rightarrow> nat option) \<Rightarrow> queue_entry buffer_result list \<Rightarrow> manifest_snapshot \<Rightarrow> manifest_snapshot buffer_result" where
  "snapshot_loop ulid_time [] s = Ok s"
| "snapshot_loop ulid_time (item # items) s =
     result_bind item (\<lambda>entry.
       let s = s\<lparr>ms_locations := insert (qe_location entry) (ms_locations s)\<rparr>;
           s = (case extract_ulid_timestamp ulid_time (qe_location entry) of
                  Some ts \<Rightarrow>
                    (case ms_oldest_location_ts s of
                       None \<Rightarrow> s\<lparr>ms_oldest_location_ts := Some ts\<rparr>
                     | Some old \<Rightarrow> if ts < old then s\<lparr>ms_oldest_location_ts := Some ts\<rparr> else s)
                | None \<Rightarrow> s)
       in snapshot_loop ulid_time items s)"

definition read_manifest_snapshot ::
  "('o, 'v) object_store_ops \<Rightarrow> (bytes \<Rightarrow> nat option) \<Rightarrow> garbage_collector \<Rightarrow> 'o \<Rightarrow> manifest_snapshot buffer_result" where
  "read_manifest_snapshot ops ulid_time gc st =
     result_bind (manifest_store_read ops st (gc_manifest_path gc)) (\<lambda>(m, version).
       snapshot_loop ulid_time (iter_items (manifest_iter_of m))
         \<lparr>ms_locations = {}, ms_oldest_location_ts = None\<rparr>)"

text \<open>The tests a listed object has to pass to be deleted.\<close>

definition gc_candidate ::
  "(bytes \<Rightarrow> nat option) \<Rightarrow> garbage_collector \<Rightarrow> manifest_snapshot \<Rightarrow> nat \<Rightarrow> bytes \<Rightarrow> bool" where
  "gc_candidate ulid_time gc s now path =
     (case extract_ulid_timestamp ulid_time path of
        None \<Rightarrow> False
      | Some file_ts \<Rightarrow>
          (case ms_oldest_location_ts s of Some oldest_ts \<Rightarrow> file_ts < oldest_ts | None \<Rightarrow> True)
          \<and> now - file_ts \<ge> gc_grace_period gc
          \<and> path \<notin> ms_locations s)"

fun gc_candidates ::
  "(bytes \<Rightarrow> nat option) \<Rightarrow> garbage_collector \<Rightarrow> manifest_snapshot \<Rightarrow> nat \<Rightarrow> (bytes, os_error) result list
    \<Rightarrow> bytes list buffer_result" where
  "gc_candidates ulid_time gc s now [] = Ok []"
| "gc_candidates ulid_time gc s now (r # rs) =
     (case r of
        Err e \<Rightarrow> Err (BufStorage (''Failed to list objects: '' @ os_error_string e) [])
      | Panic \<Rightarrow> Panic
      | Ok path \<Rightarrow>
          result_map (\<lambda>ps. if gc_candidate ulid_time gc s now path then path # ps else ps)
            (gc_candidates ulid_time gc s now rs))"

fun delete_all :: "('o, 'v) object_store_ops \<Rightarrow> bytes list \<Rightarrow> 'o \<Rightarrow> 'o" where
  "delete_all ops [] st = st"
| "delete_all ops (p # ps) st = delete_all ops ps (fst (os_delete ops st p))"

text \<open>
  \<open>collect_once\<close>.  Other clients go on between the snapshot, the listing and the deletions:
  \<open>meanwhile\<close> and \<open>meanwhile'\<close> are what they do.  A deletion that fails is counted and passed over.
\<close>

definition collect_once ::
  "('o, 'v) object_store_ops \<Rightarrow> (bytes \<Rightarrow> nat option) \<Rightarrow> garbage_collector \<Rightarrow> nat \<Rightarrow> 'o \<Rightarrow> ('o \<Rightarrow> 'o) \<Rightarrow> ('o \<Rightarrow> 'o)
    \<Rightarrow> 'o \<times> unit buffer_result" where
  "collect_once ops ulid_time gc now st meanwhile meanwhile' =
     (case read_manifest_snapshot ops ulid_time gc st of
        Err e \<Rightarrow> (st, Err e)
      | Panic \<Rightarrow> (st, Panic)
      | Ok snapshot \<Rightarrow>
          (let st = meanwhile st in
           case gc_candidates ulid_time gc snapshot now
                  (os_list ops st (path_from ops (gc_data_path_prefix gc @ [0x2F]))) of
             Err e \<Rightarrow> (st, Err e)
           | Panic \<Rightarrow> (st, Panic)
           | Ok to_delete \<Rightarrow> (delete_all ops to_delete (meanwhile' st), Ok ())))"

section \<open>What a batch in the making holds\<close>

text \<open>
  The accepted additions, in order: their entries one after the other, and for each its metadata with
  the index of its first entry, and its notifier.
\<close>

type_synonym 'n addition = "bytes list \<times> bytes \<times> i64 \<times> 'n"

fun addition_metadata :: "nat \<Rightarrow> 'n addition list \<Rightarrow> queue_metadata list" where
  "addition_metadata k [] = []"
| "addition_metadata k ((es, md, t, n) # adds) =
     \<lparr>md_start_index = word_of_nat k, md_ingestion_time_ms = t, md_payload = md\<rparr> # addition_metadata (k + length es) adds"

definition collected :: "'n data_and_notifiers \<Rightarrow> 'n addition list \<Rightarrow> bool" where
  "collected d adds \<longleftrightarrow>
     dn_entries d = concat (map fst adds) \<and> dn_metadata d = addition_metadata 0 adds
     \<and> dn_notifiers d = map (\<lambda>(es, md, t, n). n) adds \<and> length (dn_entries d) < 2 ^ 32"

lemma addition_metadata_append:
  "addition_metadata k (adds @ [(es, md, t, n)]) = addition_metadata k adds
     @ [\<lparr>md_start_index = word_of_nat (k + length (concat (map fst adds))), md_ingestion_time_ms = t, md_payload = md\<rparr>]"
  by (induction k adds rule: addition_metadata.induct) (auto simp: add.assoc)

lemma length_addition_metadata [simp]: "length (addition_metadata k adds) = length adds"
  by (induction k adds rule: addition_metadata.induct) auto

lemma addition_metadata_nth:
  assumes "i < length adds" and "adds ! i = (es, md, t, n)"
  shows "addition_metadata k adds ! i = \<lparr>md_start_index = word_of_nat (k + length (concat (map fst (take i adds)))),
    md_ingestion_time_ms = t, md_payload = md\<rparr>"
  using assms
proof (induction k adds arbitrary: i rule: addition_metadata.induct)
  case (2 k es' md' t' n' adds)
  then show ?case by (cases i) (auto simp: add.assoc)
qed simp

lemma dn_default_collected: "collected dn_default []"
  by (simp add: collected_def dn_default_def)

lemma batch_add_collected:
  assumes "collected (ba_data b) adds" and "batch_add b entries metadata time notifier now = (b', Ok ())"
  shows "collected (ba_data b') (adds @ [(entries, metadata, time, notifier)])"
  using assms
  by (auto simp: batch_add_def dn_add_def collected_def Let_def addition_metadata_append length_concat
      split: option.splits if_splits)

lemma batch_add_entries_fit:
  "batch_add b entries metadata time notifier now = (b', Ok ()) \<Longrightarrow> \<forall>e \<in> set entries. length e < 2 ^ 32"
  by (auto simp: batch_add_def find_None_iff split: option.splits)

text \<open>The entries of one addition are where its metadata says.\<close>

lemma collected_slice:
  assumes "collected d adds" and "i < length adds" and "adds ! i = (es, md, t, n)"
  shows "take (length es) (drop (unat (md_start_index (dn_metadata d ! i))) (dn_entries d)) = es"
proof -
  let ?k = "length (concat (map fst (take i adds)))"
  from assms(2,3) have adds: "adds = take i adds @ (es, md, t, n) # drop (Suc i) adds" by (metis id_take_nth_drop)
  have cat: "concat (map fst adds) = concat (map fst (take i adds)) @ es @ concat (map fst (drop (Suc i) adds))"
    by (subst adds) simp
  then have "?k \<le> length (concat (map fst adds))" by simp
  also have "\<dots> < 2 ^ 32" using assms(1) unfolding collected_def by (elim conjE) (simp only:)
  finally have "unat (word_of_nat ?k :: u32) = ?k" by (rule unat_u32_of_nat)
  then show ?thesis
    using assms(1) cat addition_metadata_nth [OF assms(2,3), of 0] by (simp add: collected_def)
qed

section \<open>From the producer to the consumer\<close>

lemma manifest_store_write_frame:
  assumes "cas_store ops cont later" and "manifest_store_write ops st path m v = (st', r)" and "p \<noteq> path_from ops path"
  shows "cont st' p = cont st p"
proof (cases "manifest_to_bytes m")
  case (Ok d)
  let ?mode = "case v of Some w \<Rightarrow> Update w | None \<Rightarrow> Create"
  obtain st1 r1 where put: "os_put_opts ops st (path_from ops path) d ?mode = (st1, r1)" by fastforce
  have "st' = st1" using assms(2) Ok put
    by (auto simp: manifest_store_write_def Let_def split: result.splits os_error.splits)
  moreover have "cont st1 p = cont st p"
    using cas_put [OF assms(1) put] assms(3) by (auto simp: stored_by_put_def split: result.splits)
  ultimately show ?thesis by simp
qed (use assms in \<open>auto simp: manifest_store_write_def Let_def\<close>)

lemma enqueue_loop_frame:
  assumes "cas_store ops cont later" and "p \<noteq> path_from ops (qp_manifest_path pr)"
    and "\<forall>(before, between) \<in> set rounds. \<forall>st. cont (before st) p = cont st p \<and> cont (between st) p = cont st p"
    and "enqueue_loop ops entry pr st rounds = (st', pr', r)"
  shows "cont st' p = cont st p"
  using assms(2-4)
proof (induction rounds arbitrary: pr st)
  case (Cons round rounds)
  obtain before between where round: "round = (before, between)" by fastforce
  let ?st = "before st"
  from Cons.prems(2) round have env: "cont ?st p = cont st p" "cont (between ?st) p = cont ?st p" by auto
  show ?case
  proof (cases "enqueue_begin ops (qp_manifest_path pr) entry ?st")
    case (Ok mv)
    obtain m v where mv: "mv = (m, v)" by fastforce
    obtain st1 r1 where written: "manifest_store_write ops (between ?st) (qp_manifest_path pr) m v = (st1, r1)" by fastforce
    have keep: "cont st1 p = cont st p"
      using manifest_store_write_frame [OF assms(1) written Cons.prems(1)] env by simp
    let ?pr = "pr\<lparr>qp_counter := record_conflict (record_write (qp_counter pr))\<rparr>"
    show ?thesis
    proof (cases "r1 = Err Conflict")
      case True
      then have "enqueue_loop ops entry ?pr st1 rounds = (st', pr', r)"
        using Cons.prems(3) round Ok mv written by (simp add: Let_def)
      with Cons.IH [of ?pr st1] Cons.prems(1,2) keep show ?thesis by simp
    next
      case False
      then have "st' = st1" using Cons.prems(3) round Ok mv written
        by (auto simp: Let_def split: result.splits manifest_write_error.splits)
      with keep show ?thesis by simp
    qed
  qed (use Cons.prems(3) round env in \<open>auto simp: Let_def\<close>)
qed simp

lemma answering_get:
  assumes "answering_store ops cont" and "cont st p = Some (d, v)"
  shows "os_get ops st p = Ok (v, Ok d)"
proof -
  from assms(1) have "case cont st p of
         None \<Rightarrow> (\<exists>msg. os_get ops st p = Err (NotFound msg))
       | Some (d, v) \<Rightarrow> os_get ops st p = Ok (v, Ok d)" by (simp add: answering_store_def)
  with assms(2) show ?thesis by simp
qed

lemma fetch_stored_batch:
  assumes "answering_store ops cont" and "path_from ops (qe_location e) = p" and "cont st p = Some (data, v)"
    and "decode_batch zs data = Ok entries"
  shows "fetch_batch ops zs e st = Ok (Some \<lparr>cb_entries = entries, cb_sequence = qe_sequence e,
    cb_location = qe_location e, cb_metadata = qe_metadata e\<rparr>)"
  using assms answering_get [OF assms(1,3)] by (simp add: fetch_batch_def)

lemma write_and_enqueue_readable:
  assumes cas: "cas_store ops cont later" and ans: "answering_store ops cont" and zs: "zstd_inverse zs"
    and entries: "batch_ok entries"
    and path: "path = path_from ops (batch_path (bw_data_path_prefix task) ulid)" "path_from ops path = path"
      "path \<noteq> path_from ops (qp_manifest_path (bw_producer task))"
    and ok: "\<forall>n. entry_ok \<lparr>qe_sequence = n, qe_location = path, qe_metadata = metadata\<rparr>"
    and obj: "obj = (\<lambda>st. cont st (path_from ops (qp_manifest_path (bw_producer task))))" and valid: "queue_valid obj st"
    and pol: "\<forall>(before, between) \<in> set rounds. polite obj later before \<and> polite obj later between"
    and keep: "\<forall>(before, between) \<in> set rounds. \<forall>st. cont (before st) path = cont st path \<and> cont (between st) path = cont st path"
    and run: "write_and_enqueue ops zs task entries metadata st ulid rounds = (st', task', Some (Ok ()))"
  shows "\<exists>es ns ep. queue_stored (obj st') (es @ [\<lparr>qe_sequence = ns, qe_location = path, qe_metadata = metadata\<rparr>]) (ns + 1) ep
    \<and> fetch_batch ops zs \<lparr>qe_sequence = ns, qe_location = path, qe_metadata = metadata\<rparr> st'
      = Ok (Some \<lparr>cb_entries = entries, cb_sequence = ns, cb_location = path, cb_metadata = metadata\<rparr>)"
proof -
  obtain payload where payload: "encode_batch zs entries (bw_compression task) = Ok payload"
    using run by (cases "encode_batch zs entries (bw_compression task)") (auto simp: write_and_enqueue_def)
  obtain st1 r1 where put: "os_put_opts ops st path payload Overwrite = (st1, r1)" by fastforce
  have r1: "r1 = Ok ()" using run payload put path(1) by (cases r1) (auto simp: write_and_enqueue_def Let_def)
  from cas_put [OF cas put] r1 obtain w where st1: "cont st1 = (cont st)(path \<mapsto> (payload, w))"
    by (auto simp: stored_by_put_def)
  let ?e = "\<lambda>n. \<lparr>qe_sequence = n, qe_location = path, qe_metadata = metadata\<rparr>"
  from ok have sizes: "length path \<le> 65535" "length metadata < 2 ^ 32"
    using entry_ok_metadata(1) [of "?e 0"] by (auto simp: entry_ok_def)
  then have new: "queue_entry_new path metadata = Ok (?e 0)" by (simp add: queue_entry_new_def)
  obtain pr where loop: "enqueue_loop ops (?e 0) (bw_producer task) st1 rounds = (st', pr, Some (Ok ()))"
    using run payload put r1 path(1) new by (auto simp: write_and_enqueue_def enqueue_def Let_def split: prod.splits)
  have valid1: "queue_valid obj st1" using valid st1 path(3) by (simp add: queue_valid_def obj)
  have clone: "clone_with_sequence (?e 0) n = ?e n" for n by (simp add: clone_with_sequence_def)
  have ok': "\<forall>n. entry_ok (clone_with_sequence (?e 0) n)" using ok by (simp add: clone)
  obtain q where q: "stores (obj st') (q\<lparr>aq_entries := aq_entries q @ [?e (aq_next q)], aq_next := aq_next q + 1\<rparr>)"
    using enqueue_loop_result [OF cas ans ok' obj valid1 pol loop] clone by auto
  have "cont st' path = Some (payload, w)"
    using enqueue_loop_frame [OF cas path(3) keep loop] st1 by simp
  moreover have "decode_batch zs payload = Ok entries" by (rule encode_batch_decodes [OF entries zs payload])
  ultimately have "fetch_batch ops zs (?e n) st' = Ok (Some \<lparr>cb_entries = entries, cb_sequence = n, cb_location = path, cb_metadata = metadata\<rparr>)" for n
    using fetch_stored_batch [OF ans, of "?e n" path st'] path(2) by simp
  with q show ?thesis by auto
qed

section \<open>The consumer follows the queue\<close>

lemma find_sequence_Ok:
  "find_sequence n (map Ok es) = Ok (find (\<lambda>e. qe_sequence e = n) es)"
  by (induction es) auto

lemma iter_first:
  assumes "iter_items it = map Ok es"
  shows "map_option fst (manifest_iter_next it) = (case es of [] \<Rightarrow> None | e # _ \<Rightarrow> Some (Ok e))"
  using assms by (cases es) (auto simp: iter_items.simps [of it] split: option.splits)

lemma peek_stored:
  assumes "cas_store ops cont later" and "peek ops k st = (k', Ok r)"
    and "stores (cont st (path_from ops (qc_manifest_path k))) q" and "queue_room q"
  shows "qc_epoch k = aq_epoch q \<and> r = (case aq_entries q of [] \<Rightarrow> None | e # _ \<Rightarrow> Some e)"
proof -
  from assms(2) obtain m v where f: "fenced_manifest ops k st = (k', Ok (m, v))"
    and r: "transpose_result (map_option fst (manifest_iter_next (manifest_iter_of m))) = Ok r"
    by (auto simp: peek_def result_bind_eq_Ok split: prod.splits)
  note m = fenced_manifest_stored [OF assms(1) f assms(3,4)]
  from r iter_first [OF iter_items_rep [OF m(1)]] m(4) show ?thesis
    by (cases "aq_entries q") (auto split: option.splits)
qed

lemma queue_read_stored:
  assumes "cas_store ops cont later" and "queue_read ops k n st = (k', Ok r)"
    and "stores (cont st (path_from ops (qc_manifest_path k))) q" and "queue_room q"
  shows "qc_epoch k = aq_epoch q \<and> r = find (\<lambda>e. qe_sequence e = n) (aq_entries q)"
proof -
  from assms(2) obtain m v where f: "fenced_manifest ops k st = (k', Ok (m, v))"
    and r: "find_sequence n (iter_items (manifest_iter_of m)) = Ok r"
    by (auto simp: queue_read_def result_bind_eq_Ok split: prod.splits)
  note m = fenced_manifest_stored [OF assms(1) f assms(3,4)]
  from r m(4) iter_items_rep [OF m(1)] show ?thesis by (simp add: find_sequence_Ok)
qed

text \<open>The entry that \<open>next_batch\<close> goes for.\<close>

lemma next_batch_entry:
  assumes "cas_store ops cont later" and "next_batch ops zs c st = (c', Ok (Some b))"
    and "stores (cont st (path_from ops (qc_manifest_path (co_consumer c)))) q" and "queue_room q"
  obtains i where "i < length (aq_entries q)" "qc_epoch (co_consumer c) = aq_epoch q"
    "case co_last_fetched c of None \<Rightarrow> i = 0 | Some n \<Rightarrow> qe_sequence (aq_entries q ! i) = n + 1"
    "co_last_fetched c' = Some (qe_sequence (aq_entries q ! i))"
    "fetch_batch ops zs (aq_entries q ! i) st = Ok (Some b)"
proof -
  let ?go = "case co_last_fetched c of None \<Rightarrow> peek ops (co_consumer c) st
    | Some seq \<Rightarrow> queue_read ops (co_consumer c) (seq + 1) st"
  obtain k r where go: "?go = (k, r)" by fastforce
  obtain e where e: "r = Ok (Some e)" "fetch_batch ops zs e st = Ok (Some b)" "co_last_fetched c' = Some (qe_sequence e)"
    using assms(2) go by (auto simp: next_batch_def split: result.splits option.splits)
  show ?thesis
  proof (cases "co_last_fetched c")
    case None
    with go e have "peek ops (co_consumer c) st = (k, Ok (Some e))" by simp
    from peek_stored [OF assms(1) this assms(3,4)] e None that [of 0] show ?thesis
      by (cases "aq_entries q") auto
  next
    case (Some n)
    with go e have "queue_read ops (co_consumer c) (n + 1) st = (k, Ok (Some e))" by simp
    from queue_read_stored [OF assms(1) this assms(3,4)]
    have "find (\<lambda>e. qe_sequence e = n + 1) (aq_entries q) = Some e" "qc_epoch (co_consumer c) = aq_epoch q" by simp_all
    then obtain i where
      "i < length (aq_entries q)" "aq_entries q ! i = e" "qe_sequence e = n + 1" "qc_epoch (co_consumer c) = aq_epoch q"
      by (auto simp: find_Some_iff)
    with e Some that [of i] show ?thesis by simp
  qed
qed

section \<open>The collector\<close>

lemma snapshot_loop_locations:
  "snapshot_loop ulid_time (map Ok es) s = Ok s' \<Longrightarrow> ms_locations s' = ms_locations s \<union> qe_location ` set es"
  by (induction es arbitrary: s) (auto simp: Let_def split: option.splits if_splits)

lemma snapshot_loop_oldest:
  assumes "snapshot_loop ulid_time (map Ok es) s = Ok s'"
  shows "(\<forall>t. ms_oldest_location_ts s = Some t \<longrightarrow> (\<exists>t' \<le> t. ms_oldest_location_ts s' = Some t'))
    \<and> (\<forall>e \<in> set es. \<forall>t. extract_ulid_timestamp ulid_time (qe_location e) = Some t \<longrightarrow>
        (\<exists>t' \<le> t. ms_oldest_location_ts s' = Some t'))"
  using assms
proof (induction es arbitrary: s)
  case (Cons e es)
  let ?s = "s\<lparr>ms_locations := insert (qe_location e) (ms_locations s)\<rparr>"
  let ?s1 = "case extract_ulid_timestamp ulid_time (qe_location e) of
                  Some ts \<Rightarrow>
                    (case ms_oldest_location_ts ?s of
                       None \<Rightarrow> ?s\<lparr>ms_oldest_location_ts := Some ts\<rparr>
                     | Some old \<Rightarrow> if ts < old then ?s\<lparr>ms_oldest_location_ts := Some ts\<rparr> else ?s)
                | None \<Rightarrow> ?s"
  have "snapshot_loop ulid_time (map Ok es) ?s1 = Ok s'" using Cons.prems by (simp add: Let_def)
  note IH = Cons.IH [OF this]
  have s: "\<exists>t' \<le> t. ms_oldest_location_ts ?s1 = Some t'" if "ms_oldest_location_ts s = Some t" for t
    using that by (auto split: option.split)
  have e: "\<exists>t' \<le> t. ms_oldest_location_ts ?s1 = Some t'" if "extract_ulid_timestamp ulid_time (qe_location e) = Some t" for t
    using that by (auto split: option.split)
  have chain: "\<exists>t' \<le> t. ms_oldest_location_ts s' = Some t'" if "\<exists>t' \<le> t. ms_oldest_location_ts ?s1 = Some t'" for t
    using that conjunct1 [OF IH] le_trans by blast
  show ?case
  proof (intro conjI allI impI ballI)
    fix t assume "ms_oldest_location_ts s = Some t"
    then show "\<exists>t' \<le> t. ms_oldest_location_ts s' = Some t'" by (rule chain [OF s])
  next
    fix x t assume x: "x \<in> set (e # es)" "extract_ulid_timestamp ulid_time (qe_location x) = Some t"
    show "\<exists>t' \<le> t. ms_oldest_location_ts s' = Some t'"
    proof (cases "x = e")
      case True
      with x(2) show ?thesis by (intro chain e) simp
    next
      case False
      with x conjunct2 [OF IH] show ?thesis by simp
    qed
  qed
qed simp

lemma gc_candidates_filter:
  "gc_candidates ulid_time gc s now rs = Ok ps \<Longrightarrow> p \<in> set ps \<Longrightarrow> gc_candidate ulid_time gc s now p"
proof (induction rs arbitrary: ps)
  case (Cons r rs)
  then show ?case by (cases r) (auto simp: result_map_eq_Ok split: if_splits)
qed simp

definition delete_law :: "('o, 'v) object_store_ops \<Rightarrow> ('o \<Rightarrow> bytes \<Rightarrow> (bytes \<times> 'v) option) \<Rightarrow> bool" where
  "delete_law ops cont \<longleftrightarrow> (\<forall>st p q. q \<noteq> p \<longrightarrow> cont (fst (os_delete ops st p)) q = cont st q)"

lemma delete_all_frame:
  "delete_law ops cont \<Longrightarrow> q \<notin> set ps \<Longrightarrow> cont (delete_all ops ps st) q = cont st q"
  by (induction ps arbitrary: st) (auto simp: delete_law_def)

text \<open>
  A batch that was enqueued after the snapshot is young, or not older than one that was
  listed in the snapshot.
\<close>

definition recently_enqueued ::
  "(bytes \<Rightarrow> nat option) \<Rightarrow> garbage_collector \<Rightarrow> nat \<Rightarrow> queue_entry list \<Rightarrow> queue_entry \<Rightarrow> bool" where
  "recently_enqueued ulid_time gc now es e \<longleftrightarrow>
     (\<forall>t. extract_ulid_timestamp ulid_time (qe_location e) = Some t \<longrightarrow>
        now - t < gc_grace_period gc
        \<or> (\<exists>e' \<in> set es. \<exists>t' \<le> t. extract_ulid_timestamp ulid_time (qe_location e') = Some t'))"

lemma snapshot_spares:
  assumes "snapshot_loop ulid_time (map Ok es) \<lparr>ms_locations = {}, ms_oldest_location_ts = None\<rparr> = Ok s"
    and "e \<in> set es \<or> recently_enqueued ulid_time gc now es e"
  shows "\<not> gc_candidate ulid_time gc s now (qe_location e)"
proof
  assume c: "gc_candidate ulid_time gc s now (qe_location e)"
  then obtain t where t: "extract_ulid_timestamp ulid_time (qe_location e) = Some t"
    "now - t \<ge> gc_grace_period gc" "qe_location e \<notin> ms_locations s"
    "\<forall>t'. ms_oldest_location_ts s = Some t' \<longrightarrow> t < t'"
    by (auto simp: gc_candidate_def split: option.splits)
  from snapshot_loop_locations [OF assms(1)] t(3) have "e \<notin> set es" by auto
  with assms(2) t(1,2) obtain e' t' where "e' \<in> set es" "t' \<le> t"
    "extract_ulid_timestamp ulid_time (qe_location e') = Some t'"
    by (auto simp: recently_enqueued_def)
  with snapshot_loop_oldest [OF assms(1)] t(4) show False by fastforce
qed

lemma collect_once_spares:
  assumes "cas_store ops cont later" and "delete_law ops cont"
    and "queue_stored (cont st (path_from ops (gc_manifest_path gc))) es ns ep" and "length es < 2 ^ 32"
    and "collect_once ops ulid_time gc now st meanwhile meanwhile' = (st', Ok ())"
    and "e \<in> set es \<or> recently_enqueued ulid_time gc now es e"
  shows "cont st' (qe_location e) = cont (meanwhile' (meanwhile st)) (qe_location e)"
proof -
  obtain s where s: "read_manifest_snapshot ops ulid_time gc st = Ok s"
    using assms(5) by (cases "read_manifest_snapshot ops ulid_time gc st") (auto simp: collect_once_def)
  let ?rs = "os_list ops (meanwhile st) (path_from ops (gc_data_path_prefix gc @ [0x2F]))"
  obtain ps where ps: "gc_candidates ulid_time gc s now ?rs = Ok ps"
    using assms(5) s by (cases "gc_candidates ulid_time gc s now ?rs") (auto simp: collect_once_def)
  have st': "st' = delete_all ops ps (meanwhile' (meanwhile st))" using assms(5) s ps by (simp add: collect_once_def)
  from s obtain m v where m: "manifest_store_read ops st (gc_manifest_path gc) = Ok (m, v)"
    "snapshot_loop ulid_time (iter_items (manifest_iter_of m)) \<lparr>ms_locations = {}, ms_oldest_location_ts = None\<rparr> = Ok s"
    by (auto simp: read_manifest_snapshot_def result_bind_eq_Ok)
  from manifest_store_read_stored [OF assms(1) m(1) assms(3,4)] have "manifest_rep m es" by simp
  with m(2) have "snapshot_loop ulid_time (map Ok es) \<lparr>ms_locations = {}, ms_oldest_location_ts = None\<rparr> = Ok s"
    by (simp add: iter_items_rep)
  from snapshot_spares [OF this assms(6)] gc_candidates_filter [OF ps] have "qe_location e \<notin> set ps" by blast
  with st' delete_all_frame [OF assms(2)] show ?thesis by metis
qed

section \<open>Properties\<close>

text \<open>C6.  What is acknowledged can be consumed.  Take a batch that collected the given additions, over
  a store that answers and clients that keep the queue well formed and leave the new object alone.
  When \<open>write_batch\<close> reports success, every addition's notifier is told \<open>Ok\<close>, the queue stored at that
  moment ends with an entry for the batch, and fetching that entry returns the batch's entries with
  its metadata, in which each addition's entries stand exactly where its metadata says.\<close>

theorem acknowledged_batch_is_readable:
  assumes "cas_store ops cont later" and "answering_store ops cont" and "zstd_inverse zs"
    and "collected (ba_data (bw_batch task)) adds" and "adds \<noteq> []"
    and "batch_ok (dn_entries (ba_data (bw_batch task)))"
    and "path = path_from ops (batch_path (bw_data_path_prefix task) ulid)" and "path_from ops path = path"
    and "path \<noteq> path_from ops (qp_manifest_path (bw_producer task))"
    and "\<forall>n. entry_ok \<lparr>qe_sequence = n, qe_location = path, qe_metadata = dn_metadata (ba_data (bw_batch task))\<rparr>"
    and "obj = (\<lambda>st. cont st (path_from ops (qp_manifest_path (bw_producer task))))" and "queue_valid obj st"
    and "\<forall>(before, between) \<in> set rounds. polite obj later before \<and> polite obj later between"
    and "\<forall>(before, between) \<in> set rounds. \<forall>st. cont (before st) path = cont st path \<and> cont (between st) path = cont st path"
    and "write_batch ops zs task st ulid rounds = (st', task', notes, Some (Ok ()))"
  shows "notes = map (\<lambda>(es, md, t, n). (n, Ok ())) adds
    \<and> (\<exists>es e ns ep b. queue_stored (obj st') (es @ [e]) ns ep \<and> fetch_batch ops zs e st' = Ok (Some b)
        \<and> cb_entries b = concat (map fst adds)
        \<and> (\<forall>i < length adds. case adds ! i of (es, md, t, n) \<Rightarrow>
             md_payload (cb_metadata b ! i) = md \<and> md_ingestion_time_ms (cb_metadata b ! i) = t
             \<and> take (length es) (drop (unat (md_start_index (cb_metadata b ! i))) (cb_entries b)) = es))"
proof -
  let ?d = "ba_data (bw_batch task)"
  have d: "dn_entries ?d = concat (map fst adds)" "dn_metadata ?d = addition_metadata 0 adds"
    "dn_notifiers ?d = map (\<lambda>(es, md, t, n). n) adds" using assms(4) by (simp_all add: collected_def)
  let ?task = "task\<lparr>bw_batch := fst (batch_take (bw_batch task))\<rparr>"
  have "\<not> batch_is_empty (bw_batch task)" using d(3) assms(5) by (simp add: batch_is_empty_def dn_is_empty_def)
  with assms(15) obtain t' where run: "write_and_enqueue ops zs ?task (dn_entries ?d) (dn_metadata ?d) st ulid rounds = (st', t', Some (Ok ()))"
    and sent: "notes = map (\<lambda>n. (n, Ok ())) (dn_notifiers ?d)"
    by (auto simp: write_batch_def batch_take_def split: prod.splits option.splits result.splits)
  from write_and_enqueue_readable [OF assms(1-3,6) _ assms(8) _ assms(10) _ assms(12-14) run] assms(7,9,11)
  obtain es ns ep where q: "queue_stored (obj st') (es @ [\<lparr>qe_sequence = ns, qe_location = path, qe_metadata = dn_metadata ?d\<rparr>]) (ns + 1) ep"
    and f: "fetch_batch ops zs \<lparr>qe_sequence = ns, qe_location = path, qe_metadata = dn_metadata ?d\<rparr> st'
      = Ok (Some \<lparr>cb_entries = dn_entries ?d, cb_sequence = ns, cb_location = path, cb_metadata = dn_metadata ?d\<rparr>)"
    by auto
  have "case adds ! i of (es, md, t, n) \<Rightarrow>
      md_payload (dn_metadata ?d ! i) = md \<and> md_ingestion_time_ms (dn_metadata ?d ! i) = t
      \<and> take (length es) (drop (unat (md_start_index (dn_metadata ?d ! i))) (dn_entries ?d)) = es" if "i < length adds" for i
    using collected_slice [OF assms(4) that] addition_metadata_nth [OF that, of _ _ _ _ 0] d(2)
    by (auto split: prod.split)
  with q f d(1) have "\<exists>es e ns ep b. queue_stored (obj st') (es @ [e]) ns ep \<and> fetch_batch ops zs e st' = Ok (Some b)
        \<and> cb_entries b = concat (map fst adds)
        \<and> (\<forall>i < length adds. case adds ! i of (es, md, t, n) \<Rightarrow>
             md_payload (cb_metadata b ! i) = md \<and> md_ingestion_time_ms (cb_metadata b ! i) = t
             \<and> take (length es) (drop (unat (md_start_index (cb_metadata b ! i))) (cb_entries b)) = es)"
    by (intro exI [of _ es] exI [of _ "\<lparr>qe_sequence = ns, qe_location = path, qe_metadata = dn_metadata ?d\<rparr>"]
        exI [of _ "ns + 1"] exI [of _ ep] exI [of _ "\<lparr>cb_entries = dn_entries ?d, cb_sequence = ns, cb_location = path, cb_metadata = dn_metadata ?d\<rparr>"]) simp
  with sent d(3) show ?thesis by (simp add: case_prod_unfold o_def)
qed

text \<open>C8.  The consumer delivers the batches in the order they were enqueued, without skipping one.
  In every reachable state of the queue, when \<open>next_batch\<close> returns a batch it is that of the \<open>k\<close>-th
  entry ever enqueued, one that no dequeue has removed: the first one that is left when the consumer has
  fetched nothing yet, and otherwise the one right after the last it fetched; and the consumer's epoch is
  the current one.\<close>

theorem consumer_delivers_in_order:
  assumes "queue_reachable ops cont later (qc_manifest_path (co_consumer c)) s" and "cas_store ops cont later"
    and "length (qs_log s) < 2 ^ 32 - 1" and "next_batch ops zs c (qs_store s) = (c', Ok (Some b))"
  shows "\<exists>k. length (dequeued (qs_log s)) \<le> k \<and> k < length (enqueued (qs_log s))
    \<and> fetch_batch ops zs (enqueued (qs_log s) ! k) (qs_store s) = Ok (Some b)
    \<and> qe_sequence (enqueued (qs_log s) ! k) = word_of_nat k
    \<and> (case co_last_fetched c of None \<Rightarrow> k = length (dequeued (qs_log s)) | Some n \<Rightarrow> word_of_nat k = n + 1)
    \<and> co_last_fetched c' = Some (word_of_nat k)
    \<and> qc_epoch (co_consumer c) = current_epoch 0 (qs_log s)"
proof -
  let ?enq = "enqueued (qs_log s)" and ?deq = "dequeued (qs_log s)"
  from queue_reachable_ok [OF assms(1-3)] obtain q where q: "run_changes (qs_log s) empty_queue = Some q"
    "stores (cont (qs_store s) (path_from ops (qc_manifest_path (co_consumer c)))) q"
    by (auto simp: queue_system_ok_def)
  have fifo: "?deq @ aq_entries q = ?enq" using run_changes_fifo [OF q(1)] by (simp add: empty_queue_def)
  have num: "map qe_sequence ?enq = map word_of_nat [0..<length ?enq]"
    using run_changes_numbering [OF q(1)] by (simp add: empty_queue_def)
  obtain i where i: "i < length (aq_entries q)" "qc_epoch (co_consumer c) = aq_epoch q"
    "case co_last_fetched c of None \<Rightarrow> i = 0 | Some n \<Rightarrow> qe_sequence (aq_entries q ! i) = n + 1"
    "co_last_fetched c' = Some (qe_sequence (aq_entries q ! i))"
    "fetch_batch ops zs (aq_entries q ! i) (qs_store s) = Ok (Some b)"
    by (rule next_batch_entry [OF assms(2,4) q(2) log_room [OF q(1) assms(3)]])
  let ?k = "length ?deq + i"
  have k: "?k < length ?enq" "?enq ! ?k = aq_entries q ! i"
    using i(1) arg_cong [OF fifo, of length] by (simp_all flip: fifo)
  have seq: "qe_sequence (?enq ! ?k) = word_of_nat ?k"
    using arg_cong [OF num, of "\<lambda>xs. xs ! ?k"] k(1) by simp
  have "aq_epoch q = current_epoch 0 (qs_log s)" using run_changes_epoch [OF q(1)] by (simp add: empty_queue_def)
  with i(2-5) k seq show ?thesis by (intro exI [of _ ?k]) (auto split: option.splits)
qed

text \<open>C9.  The collector never deletes a batch that is still to be consumed.  Let \<open>es\<close> be the queue when
  \<open>collect_once\<close> takes its snapshot, and let other clients do anything until it deletes.  After a
  successful collection the object of every entry of \<open>es\<close>, and of every entry enqueued in the
  meantime whose batch is younger than the grace period or not older than one in the snapshot, is
  what it was before the deletions.\<close>

theorem collector_spares_queued_batches:
  assumes "cas_store ops cont later" and "delete_law ops cont"
    and "queue_stored (cont st (path_from ops (gc_manifest_path gc))) es ns ep" and "length es < 2 ^ 32"
    and "collect_once ops ulid_time gc now st meanwhile meanwhile' = (st', Ok ())"
  shows "\<forall>e. e \<in> set es \<or> recently_enqueued ulid_time gc now es e \<longrightarrow>
    cont st' (qe_location e) = cont (meanwhile' (meanwhile st)) (qe_location e)"
  using collect_once_spares [OF assms] by blast

section \<open>Witnesses\<close>

definition sample_task :: "nat batch_writer_task" where
  "sample_task = (batch_writer_task_new [0x6D] [0x64] 100 1000 Zstd)
     \<lparr>bw_batch := fst (batch_add batch_new [[1, 2], [3]] [9] 7 (0 :: nat) 5)\<rparr>"

lemma sample_task_parts:
  "ba_data (bw_batch sample_task) = \<lparr>dn_entries = [[1, 2], [3]],
     dn_metadata = [\<lparr>md_start_index = 0, md_ingestion_time_ms = 7, md_payload = [9]\<rparr>], dn_notifiers = [0]\<rparr>"
  "bw_data_path_prefix sample_task = [0x64]" "qp_manifest_path (bw_producer sample_task) = [0x6D]"
  by (simp_all add: sample_task_def batch_writer_task_new_def batch_add_def batch_new_def dn_add_def dn_default_def
      queue_producer_new_def)

lemma copying_zstd_inverse: "zstd_inverse copying_zstd"
  by (simp add: zstd_inverse_def copying_zstd_def)

theorem acknowledged_batch_is_readable_witness:
  "\<exists>st' es e ns ep b. queue_stored (list_cont st' [0x6D]) (es @ [e]) ns ep
     \<and> fetch_batch list_store copying_zstd e st' = Ok (Some b) \<and> cb_entries b = [[1, 2], [3]]"
proof -
  obtain st' task' sent r where run: "write_batch list_store copying_zstd sample_task [] [0x31] [(\<lambda>st. st, \<lambda>st. st)] = (st', task', sent, r)"
    by (cases "write_batch list_store copying_zstd sample_task [] [0x31] [(\<lambda>st. st, \<lambda>st. st)]") auto
  have "snd (snd (snd (write_batch list_store copying_zstd sample_task [] [0x31] [(\<lambda>st. st, \<lambda>st. st)]))) = Some (Ok ())"
    by code_simp
  with run have r: "r = Some (Ok ())" by simp
  let ?path = "batch_path [0x64] [0x31]"
  have coll: "collected (ba_data (bw_batch sample_task)) [([[1, 2], [3]], [9], 7, 0)]"
    by (simp add: sample_task_parts collected_def)
  have ok: "\<forall>n. entry_ok \<lparr>qe_sequence = n, qe_location = ?path, qe_metadata = dn_metadata (ba_data (bw_batch sample_task))\<rparr>"
    by (simp add: sample_task_parts entry_ok_def entry_body_len_def batch_path_def batch_suffix_def)
  have valid: "queue_valid (\<lambda>st. list_cont st [0x6D]) []"
    unfolding queue_valid_def
    by (rule exI [of _ empty_queue]) (simp add: list_cont_def queue_stored_def empty_queue_def sequences_ok_def queue_room_def)
  show ?thesis
    using acknowledged_batch_is_readable [OF list_store_cas list_store_answers copying_zstd_inverse coll _ _ _ _ _ ok _ _ _ _ run [unfolded r]] valid
    by (simp add: sample_task_parts batch_ok_def batch_path_def polite_def) blast
qed

theorem consumer_delivers_in_order_witness:
  "\<exists>(s :: ((bytes \<times> bytes) list, bytes, nat) queue_system) c c' b.
     queue_reachable list_store list_cont (\<lambda>_ _. True) [0x6D] s \<and> qs_log s = [Enqueued (sample_queue_entry 0)]
     \<and> next_batch list_store copying_zstd c (qs_store s) = (c', Ok (Some b)) \<and> co_last_fetched c' = Some 0
     \<and> cb_entries b = [[7]]"
proof -
  let ?st = "[([0x61], [1, 0, 0, 0, 7, 0, 1, 0, 0, 0, 1, 0])] :: (bytes \<times> bytes) list"
  obtain s :: "((bytes \<times> bytes) list, bytes, nat) queue_system"
    where s: "queue_reachable list_store list_cont (\<lambda>_ _. True) [0x6D] s" "qs_log s = [Enqueued (sample_queue_entry 0)]"
      "qs_store s = ([0x6D], manifest_bytes [sample_queue_entry 0] 1 0) # ?st"
    using sample_queue_run [of ?st] by auto
  let ?c = "\<lparr>co_consumer = (queue_consumer_new [0x6D])\<lparr>qc_epoch := 0\<rparr>, co_ack_count = 0, co_last_acked = None, co_last_fetched = None\<rparr>"
  obtain c' r where run: "next_batch list_store copying_zstd ?c (qs_store s) = (c', r)" by fastforce
  have "map_option cb_entries (case snd (next_batch list_store copying_zstd ?c
      (([0x6D], manifest_bytes [sample_queue_entry 0] 1 0) # ?st)) of Ok b \<Rightarrow> b | _ \<Rightarrow> None) = Some [[7]]" by code_simp
  with run s(3) obtain b where r: "r = Ok (Some b)" "cb_entries b = [[7]]" by (auto split: result.splits)
  have path: "qc_manifest_path (co_consumer ?c) = [0x6D]" by (simp add: queue_consumer_new_def)
  have "length (qs_log s) < 2 ^ 32 - 1" using s(2) by simp
  from consumer_delivers_in_order [of list_store list_cont "\<lambda>_ _. True" ?c s, unfolded path, OF s(1) list_store_cas this run [unfolded r(1)]]
  have "co_last_fetched c' = Some 0" using s(2) by auto
  with s run r show ?thesis by blast
qed

definition sample_batch_entry :: queue_entry where
  "sample_batch_entry = \<lparr>qe_sequence = 0, qe_location = batch_path [0x64] [0x31], qe_metadata = []\<rparr>"

lemma map_of_delete: "q \<noteq> p \<Longrightarrow> map_of (filter (\<lambda>(k, d). k \<noteq> p) st) q = map_of st q"
  by (induction st) auto

lemma list_store_delete: "delete_law list_store list_cont"
  by (auto simp: delete_law_def list_cont_def list_store_def map_of_delete)

theorem collector_spares_queued_batches_witness:
  "\<exists>st'. collect_once list_store (\<lambda>ulid. Some (unat (hd ulid)))
       \<lparr>gc_manifest_path = [0x6D], gc_data_path_prefix = [0x64], gc_grace_period = 10\<rparr> 1000
       [(batch_path [0x64] [0x30], [5]), (batch_path [0x64] [0x31], [6]), ([0x6D], manifest_bytes [sample_batch_entry] 1 0)]
       (\<lambda>st. st) (\<lambda>st. st) = (st', Ok ())
     \<and> list_cont st' (batch_path [0x64] [0x30]) = None
     \<and> list_cont st' (batch_path [0x64] [0x31]) = Some ([6], [6])"
proof -
  let ?st = "[(batch_path [0x64] [0x30], [5]), (batch_path [0x64] [0x31], [6]), ([0x6D], manifest_bytes [sample_batch_entry] 1 0)]"
  let ?gc = "\<lparr>gc_manifest_path = [0x6D], gc_data_path_prefix = [0x64], gc_grace_period = 10\<rparr>"
  let ?run = "collect_once list_store (\<lambda>ulid. Some (unat (hd ulid))) ?gc 1000 ?st (\<lambda>st. st) (\<lambda>st. st)"
  obtain st' where run: "?run = (st', Ok ())"
  proof -
    have "snd ?run = Ok ()" by code_simp
    then show ?thesis using that [of "fst ?run"] by (metis prod.collapse)
  qed
  have "list_cont (fst ?run) (batch_path [0x64] [0x30]) = None" by code_simp
  moreover have "entry_ok sample_batch_entry"
    by (simp add: sample_batch_entry_def entry_ok_def entry_body_len_def batch_path_def batch_suffix_def)
  then have "queue_stored (list_cont ?st (path_from list_store (gc_manifest_path ?gc))) [sample_batch_entry] 1 0"
    by (simp add: queue_stored_def list_cont_def batch_path_def sequences_ok_def sample_batch_entry_def)
  from collector_spares_queued_batches [OF list_store_cas list_store_delete this _ run]
  have "list_cont st' (qe_location sample_batch_entry) = list_cont ?st (qe_location sample_batch_entry)" by simp
  ultimately show ?thesis using run by (auto simp: sample_batch_entry_def list_cont_def batch_path_def)
qed

end
