(* ===== verification/Coordinator.thy ===== *)
theory Coordinator
  imports Prelude
begin

text \<open>
  The write coordinator (\<open>common/src/coordinator/mod.rs\<close>, \<open>handle.rs\<close>, \<open>subscriber.rs\<close>, \<open>traits.rs\<close>).
  One task applies writes to the current delta and gives each an epoch; when the delta is large
  enough, or on a tick or a flush command, it freezes the delta, shows it to the readers in the view and
  hands it to a second task, which writes it to storage, publishes the new snapshot and only then
  announces the epoch to those who wait for it.  The two tasks run concurrently: the second one is cut at
  the points where others can see its effects.

  The coordinator is generic in its delta and its flusher; they are the records \<open>delta_ops\<close> and
  \<open>flusher_ops\<close>, and \<open>delta_law\<close> and \<open>flusher_law\<close> say what a delta and a flusher are: a delta holds
  the writes applied to it, and a flush adds the frozen writes to the storage.  The flush channel holds
  two events before its sender waits; an event that waits to be sent is modelled as standing
  behind them in the queue, and since the coordinator does nothing while it waits, this allows more than the
  code does and never less.  The lemmas show that no applied write is lost or reordered on
  its way through the view, that the epochs announced are covered by what readers and storage
  hold at that moment, and that the assertions of the view are never violated.
\<close>

section \<open>Deltas, flushers and views\<close>

datatype durability = Applied | Written | Durable

text \<open>The derived order: \<open>Applied < Written < Durable\<close>.\<close>

fun durability_rank :: "durability \<Rightarrow> nat" where
  "durability_rank Applied = 0"
| "durability_rank Written = 1"
| "durability_rank Durable = 2"

instantiation durability :: linorder
begin

definition less_eq_durability :: "durability \<Rightarrow> durability \<Rightarrow> bool" where
  "less_eq_durability a b \<longleftrightarrow> durability_rank a \<le> durability_rank b"

definition less_durability :: "durability \<Rightarrow> durability \<Rightarrow> bool" where
  "less_durability a b \<longleftrightarrow> durability_rank a < durability_rank b"

instance
proof
  fix a b :: durability
  assume "a \<le> b" "b \<le> a"
  then show "a = b" by (cases a; cases b) (simp_all add: less_eq_durability_def)
qed (auto simp: less_eq_durability_def less_durability_def)

end

record ('d, 'c, 'w, 'f, 'fv, 'a, 'dv) delta_ops =
  delta_init :: "'c \<Rightarrow> 'd"
  delta_apply :: "'d \<Rightarrow> 'w \<Rightarrow> 'd \<times> ('a, string) result"
  delta_estimate_size :: "'d \<Rightarrow> nat"
  delta_freeze :: "'d \<Rightarrow> 'f \<times> 'fv \<times> 'c"
  delta_reader :: "'d \<Rightarrow> 'dv"

record 't epoch_stamped =
  es_val :: 't
  es_start :: u64
  es_end :: u64

record ('s, 'f, 'n) flusher_ops =
  flusher_flush_delta :: "'s \<Rightarrow> 'f \<Rightarrow> u64 \<times> u64 \<Rightarrow> 's \<times> ('n, string) result"
  flusher_flush_storage :: "'s \<Rightarrow> 's \<times> (unit, string) result"

datatype 'w write_error =
    Backpressure 'w
  | TimeoutError 'w
  | WriterShutdown
  | ApplyError u64 string
  | FlushError string
  | InternalError string

record ('fv, 'dv, 'n) coordinator_view =
  cv_current :: 'dv
  cv_frozen :: "'fv epoch_stamped list"
  cv_snapshot :: 'n
  cv_last_written_delta :: "'fv epoch_stamped option"

record epoch_watermarks =
  wm_applied :: u64
  wm_written :: u64
  wm_durable :: u64

definition epoch_watermarks_new :: epoch_watermarks where
  "epoch_watermarks_new = \<lparr>wm_applied = 0, wm_written = 0, wm_durable = 0\<rparr>"

definition update_applied :: "epoch_watermarks \<Rightarrow> u64 \<Rightarrow> epoch_watermarks" where
  "update_applied wm epoch = wm\<lparr>wm_applied := epoch\<rparr>"

definition update_written :: "epoch_watermarks \<Rightarrow> u64 \<Rightarrow> epoch_watermarks" where
  "update_written wm epoch = wm\<lparr>wm_written := epoch\<rparr>"

definition update_durable :: "epoch_watermarks \<Rightarrow> u64 \<Rightarrow> epoch_watermarks" where
  "update_durable wm epoch = wm\<lparr>wm_durable := epoch\<rparr>"

text \<open>\<open>EpochWatcher::wait\<close> returns as soon as this holds.\<close>

definition epoch_reached :: "epoch_watermarks \<Rightarrow> u64 \<Rightarrow> durability \<Rightarrow> bool" where
  "epoch_reached wm epoch d =
     (epoch \<le> (case d of Applied \<Rightarrow> wm_applied wm | Written \<Rightarrow> wm_written wm | Durable \<Rightarrow> wm_durable wm))"

text \<open>
  \<open>BroadcastedViewInner\<close>: a frozen delta goes to the front; when its flush is finished the oldest is
  taken off, which panics when there is none or it is another one.
\<close>

definition update_delta_frozen ::
  "('fv, 'dv, 'n) coordinator_view \<Rightarrow> 'fv epoch_stamped \<Rightarrow> 'dv \<Rightarrow> ('fv, 'dv, 'n) coordinator_view" where
  "update_delta_frozen v frozen reader =
     v\<lparr>cv_current := reader, cv_frozen := frozen # cv_frozen v\<rparr>"

definition update_flush_finished ::
  "('fv, 'dv, 'n) coordinator_view \<Rightarrow> 'n \<Rightarrow> u64 \<times> u64 \<Rightarrow> ('fv, 'dv, 'n) coordinator_view option" where
  "update_flush_finished v snapshot epoch_range =
     (if cv_frozen v = [] then None
      else
        let oldest = last (cv_frozen v) in
        if (es_start oldest, es_end oldest) \<noteq> epoch_range then None
        else Some (v\<lparr>cv_frozen := butlast (cv_frozen v), cv_snapshot := snapshot,
                     cv_last_written_delta := Some oldest\<rparr>))"

section \<open>The two tasks\<close>

datatype 'f flush_event = FlushDelta "'f epoch_stamped" | FlushStorage

text \<open>Where the flush task is: between \<open>flush_delta\<close> and the new view, between the view and the watermark.\<close>

datatype 'n flush_state = FlushIdle | FlushDone 'n u64 u64 | FlushPublished | FlushFailed string | FlushPanicked

record ('d, 'f, 'fv, 'dv, 'n, 's) coordinator =
  co_flush_size_threshold :: nat
  co_delta :: 'd
  co_epoch :: u64
  co_delta_start_epoch :: u64
  co_flush_queue :: "'f flush_event list"
  co_watermarks :: epoch_watermarks
  co_view :: "('fv, 'dv, 'n) coordinator_view"
  co_flusher :: 's
  co_last_flushed_epoch :: u64
  co_flush_state :: "'n flush_state"

definition coordinator_new ::
  "('d, 'c, 'w, 'f, 'fv, 'a, 'dv) delta_ops \<Rightarrow> nat \<Rightarrow> 'c \<Rightarrow> 'n \<Rightarrow> 's \<Rightarrow> ('d, 'f, 'fv, 'dv, 'n, 's) coordinator" where
  "coordinator_new dops threshold initial_context initial_snapshot flusher =
     (let delta = delta_init dops initial_context in
      \<lparr>co_flush_size_threshold = threshold, co_delta = delta, co_epoch = 1, co_delta_start_epoch = 1,
       co_flush_queue = [], co_watermarks = epoch_watermarks_new,
       co_view = \<lparr>cv_current = delta_reader dops delta, cv_frozen = [], cv_snapshot = initial_snapshot,
                  cv_last_written_delta = None\<rparr>,
       co_flusher = flusher, co_last_flushed_epoch = 0, co_flush_state = FlushIdle\<rparr>)"

definition freeze_and_init :: "('d, 'c, 'w, 'f, 'fv, 'a, 'dv) delta_ops \<Rightarrow> 'd \<Rightarrow> 'd \<times> 'f \<times> 'fv" where
  "freeze_and_init dops d = (case delta_freeze dops d of (frozen, frozen_reader, context) \<Rightarrow>
     (delta_init dops context, frozen, frozen_reader))"

definition flush_if_delta_has_writes ::
  "('d, 'c, 'w, 'f, 'fv, 'a, 'dv) delta_ops \<Rightarrow> ('d, 'f, 'fv, 'dv, 'n, 's) coordinator
    \<Rightarrow> ('d, 'f, 'fv, 'dv, 'n, 's) coordinator" where
  "flush_if_delta_has_writes dops c =
     (if co_epoch c = co_delta_start_epoch c then c
      else
        (case freeze_and_init dops (co_delta c) of (delta, frozen, frozen_reader) \<Rightarrow>
           c\<lparr>co_delta := delta, co_delta_start_epoch := co_epoch c,
             co_view := update_delta_frozen (co_view c)
               \<lparr>es_val = frozen_reader, es_start = co_delta_start_epoch c, es_end = co_epoch c\<rparr> (delta_reader dops delta),
             co_flush_queue := co_flush_queue c
               @ [FlushDelta \<lparr>es_val = frozen, es_start = co_delta_start_epoch c, es_end = co_epoch c\<rparr>]\<rparr>))"

definition coordinator_flush ::
  "('d, 'c, 'w, 'f, 'fv, 'a, 'dv) delta_ops \<Rightarrow> ('d, 'f, 'fv, 'dv, 'n, 's) coordinator \<Rightarrow> bool
    \<Rightarrow> ('d, 'f, 'fv, 'dv, 'n, 's) coordinator" where
  "coordinator_flush dops c flush_storage =
     (let c = flush_if_delta_has_writes dops c in
      if flush_storage then c\<lparr>co_flush_queue := co_flush_queue c @ [FlushStorage]\<rparr> else c)"

text \<open>\<open>handle_write\<close>: the reply is the epoch with the result of \<open>apply\<close>.\<close>

definition coordinator_write ::
  "('d, 'c, 'w, 'f, 'fv, 'a, 'dv) delta_ops \<Rightarrow> ('d, 'f, 'fv, 'dv, 'n, 's) coordinator \<Rightarrow> 'w
    \<Rightarrow> ('d, 'f, 'fv, 'dv, 'n, 's) coordinator \<times> u64 \<times> ('a, string) result" where
  "coordinator_write dops c w =
     (let write_epoch = co_epoch c in
      case delta_apply dops (co_delta c) w of (delta, result) \<Rightarrow>
        (let c = c\<lparr>co_epoch := co_epoch c + 1, co_delta := delta,
                   co_watermarks := update_applied (co_watermarks c) write_epoch\<rparr>;
             c = (if delta_estimate_size dops (co_delta c) \<ge> co_flush_size_threshold c
                  then coordinator_flush dops c False else c)
         in (c, write_epoch, result)))"

text \<open>The \<open>Flush\<close> command replies with the epoch of the last write before it flushes.\<close>

definition coordinator_flush_command ::
  "('d, 'c, 'w, 'f, 'fv, 'a, 'dv) delta_ops \<Rightarrow> ('d, 'f, 'fv, 'dv, 'n, 's) coordinator \<Rightarrow> bool
    \<Rightarrow> ('d, 'f, 'fv, 'dv, 'n, 's) coordinator \<times> u64" where
  "coordinator_flush_command dops c flush_storage =
     (coordinator_flush dops c flush_storage, saturating_sub (co_epoch c) 1)"

text \<open>
  The flush task: it takes an event and calls the flusher, publishes the view (\<^const>\<open>None\<close> is the panic
  of \<open>update_flush_finished\<close>), and announces the epoch.  An error ends the task.
\<close>

definition flush_task_take ::
  "('s, 'f, 'n) flusher_ops \<Rightarrow> ('d, 'f, 'fv, 'dv, 'n, 's) coordinator \<Rightarrow> ('d, 'f, 'fv, 'dv, 'n, 's) coordinator" where
  "flush_task_take fops c =
     (case co_flush_queue c of
        [] \<Rightarrow> c
      | FlushDelta frozen # events \<Rightarrow>
          (case flusher_flush_delta fops (co_flusher c) (es_val frozen) (es_start frozen, es_end frozen) of
             (flusher, Ok snapshot) \<Rightarrow>
               c\<lparr>co_flush_queue := events, co_flusher := flusher, co_last_flushed_epoch := es_end frozen - 1,
                 co_flush_state := FlushDone snapshot (es_start frozen) (es_end frozen)\<rparr>
           | (flusher, Err e) \<Rightarrow> c\<lparr>co_flush_queue := events, co_flusher := flusher, co_flush_state := FlushFailed e\<rparr>
           | (flusher, Panic) \<Rightarrow> c\<lparr>co_flush_queue := events, co_flusher := flusher, co_flush_state := FlushPanicked\<rparr>)
      | FlushStorage # events \<Rightarrow>
          (case flusher_flush_storage fops (co_flusher c) of
             (flusher, Ok _) \<Rightarrow>
               c\<lparr>co_flush_queue := events, co_flusher := flusher,
                 co_watermarks := update_durable (co_watermarks c) (co_last_flushed_epoch c)\<rparr>
           | (flusher, Err e) \<Rightarrow> c\<lparr>co_flush_queue := events, co_flusher := flusher, co_flush_state := FlushFailed e\<rparr>
           | (flusher, Panic) \<Rightarrow> c\<lparr>co_flush_queue := events, co_flusher := flusher, co_flush_state := FlushPanicked\<rparr>))"

definition flush_task_publish ::
  "('d, 'f, 'fv, 'dv, 'n, 's) coordinator \<Rightarrow> ('d, 'f, 'fv, 'dv, 'n, 's) coordinator option" where
  "flush_task_publish c =
     (case co_flush_state c of
        FlushDone snapshot start_epoch end_epoch \<Rightarrow>
          map_option (\<lambda>v. c\<lparr>co_view := v, co_flush_state := FlushPublished\<rparr>)
            (update_flush_finished (co_view c) snapshot (start_epoch, end_epoch))
      | _ \<Rightarrow> Some c)"

definition flush_task_announce ::
  "('d, 'f, 'fv, 'dv, 'n, 's) coordinator \<Rightarrow> ('d, 'f, 'fv, 'dv, 'n, 's) coordinator" where
  "flush_task_announce c =
     (case co_flush_state c of
        FlushPublished \<Rightarrow>
          c\<lparr>co_watermarks := update_written (co_watermarks c) (co_last_flushed_epoch c), co_flush_state := FlushIdle\<rparr>
      | _ \<Rightarrow> c)"

text \<open>\<open>handle_event\<close> from end to end, when nothing else runs; \<^const>\<open>None\<close> is a panic.\<close>

definition flush_task_event ::
  "('s, 'f, 'n) flusher_ops \<Rightarrow> ('d, 'f, 'fv, 'dv, 'n, 's) coordinator \<Rightarrow> ('d, 'f, 'fv, 'dv, 'n, 's) coordinator option" where
  "flush_task_event fops c = map_option flush_task_announce (flush_task_publish (flush_task_take fops c))"

lemma flush_task_take_queue [simp]: "co_flush_queue (flush_task_take fops c) = tl (co_flush_queue c)"
  by (auto simp: flush_task_take_def split: list.split flush_event.split prod.split result.split)

lemma flush_task_publish_queue: "flush_task_publish c = Some c' \<Longrightarrow> co_flush_queue c' = co_flush_queue c"
  by (auto simp: flush_task_publish_def split: flush_state.splits)

lemma flush_task_announce_queue [simp]: "co_flush_queue (flush_task_announce c) = co_flush_queue c"
  by (simp add: flush_task_announce_def split: flush_state.split)

lemma flush_task_event_queue: "flush_task_event fops c = Some c' \<Longrightarrow> co_flush_queue c' = tl (co_flush_queue c)"
  by (auto simp: flush_task_event_def dest!: flush_task_publish_queue)

text \<open>
  The end of the flush task after it was cancelled: it drains the queue, and the result of \<open>handle_event\<close> is
  dropped, so an error is forgotten and the next event is handled.
\<close>

function flush_task_drain ::
  "('s, 'f, 'n) flusher_ops \<Rightarrow> ('d, 'f, 'fv, 'dv, 'n, 's) coordinator \<Rightarrow> ('d, 'f, 'fv, 'dv, 'n, 's) coordinator option" where
  "flush_task_drain fops c =
     (if co_flush_queue c = [] then Some c
      else case flush_task_event fops (c\<lparr>co_flush_state := FlushIdle\<rparr>) of
             None \<Rightarrow> None
           | Some c' \<Rightarrow> flush_task_drain fops (c'\<lparr>co_flush_state := FlushIdle\<rparr>))"
  by pat_completeness auto

termination
  by (relation "measure (\<lambda>(fops, c). length (co_flush_queue c))") (auto dest!: flush_task_event_queue)

declare flush_task_drain.simps [simp del]

text \<open>
  \<open>stop\<close>: the coordinator flushes what is left and cancels the flush task.  This is the run in which
  the task, when it is done with the event it is at, sees the cancellation before the next event; the result
  is what \<open>stop\<close> reports.
\<close>

definition coordinator_stop ::
  "('d, 'c, 'w, 'f, 'fv, 'a, 'dv) delta_ops \<Rightarrow> ('s, 'f, 'n) flusher_ops \<Rightarrow> ('d, 'f, 'fv, 'dv, 'n, 's) coordinator
    \<Rightarrow> ('d, 'f, 'fv, 'dv, 'n, 's) coordinator \<times> (unit, string) result" where
  "coordinator_stop dops fops c =
     (let c = coordinator_flush dops c False in
      case co_flush_state c of
        FlushFailed e \<Rightarrow> (c, Err (''flush task error: error flushing delta: '' @ e))
      | FlushPanicked \<Rightarrow> (c, Err ''flush task panicked'')
      | _ \<Rightarrow>
          (case Option.bind (flush_task_publish c) (\<lambda>c. flush_task_drain fops (flush_task_announce c)) of
             Some c' \<Rightarrow> (c', Ok ())
           | None \<Rightarrow> (c, Err ''flush task panicked'')))"

section \<open>Handles, queues and subscribers\<close>

text \<open>
  A bounded command channel with its pause switch; closed when the coordinator has stopped.
  \<open>cq_receiving\<close>: the receiver is past the switch and waits for a command.
\<close>

datatype 'w write_command = WriteCommand 'w nat | FlushCommand nat bool

record 'w command_queue =
  cq_capacity :: nat
  cq_commands :: "'w write_command list"
  cq_closed :: bool
  cq_paused :: bool
  cq_receiving :: bool

definition try_write :: "'w command_queue \<Rightarrow> 'w \<Rightarrow> nat \<Rightarrow> 'w command_queue \<times> (unit, 'w write_error) result" where
  "try_write q w reply =
     (if cq_closed q then (q, Err WriterShutdown)
      else if length (cq_commands q) \<ge> cq_capacity q then (q, Err (Backpressure w))
      else (q\<lparr>cq_commands := cq_commands q @ [WriteCommand w reply]\<rparr>, Ok ()))"

text \<open>\<open>write_timeout\<close>: with the room, or not, that there is when the time is up.\<close>

definition write_timeout :: "'w command_queue \<Rightarrow> 'w \<Rightarrow> nat \<Rightarrow> 'w command_queue \<times> (unit, 'w write_error) result" where
  "write_timeout q w reply =
     (if cq_closed q then (q, Err WriterShutdown)
      else if length (cq_commands q) \<ge> cq_capacity q then (q, Err (TimeoutError w))
      else (q\<lparr>cq_commands := cq_commands q @ [WriteCommand w reply]\<rparr>, Ok ()))"

text \<open>\<open>write\<close> waits for room; \<^const>\<open>None\<close> while it waits.\<close>

definition write_blocking :: "'w command_queue \<Rightarrow> 'w \<Rightarrow> nat \<Rightarrow> ('w command_queue \<times> (unit, 'w write_error) result) option" where
  "write_blocking q w reply =
     (if cq_closed q then Some (q, Err WriterShutdown)
      else if length (cq_commands q) \<ge> cq_capacity q then None
      else Some (q\<lparr>cq_commands := cq_commands q @ [WriteCommand w reply]\<rparr>, Ok ()))"

definition handle_flush_request :: "'w command_queue \<Rightarrow> bool \<Rightarrow> nat \<Rightarrow> 'w command_queue \<times> (unit, unit write_error) result" where
  "handle_flush_request q flush_storage reply =
     (if cq_closed q then (q, Err WriterShutdown)
      else if length (cq_commands q) \<ge> cq_capacity q then (q, Err (Backpressure ()))
      else (q\<lparr>cq_commands := cq_commands q @ [FlushCommand reply flush_storage]\<rparr>, Ok ()))"

text \<open>\<open>into_inner\<close>: the write a retryable error gives back.\<close>

fun write_error_into_inner :: "'w write_error \<Rightarrow> 'w option" where
  "write_error_into_inner (Backpressure w) = Some w"
| "write_error_into_inner (TimeoutError w) = Some w"
| "write_error_into_inner WriterShutdown = None"
| "write_error_into_inner (ApplyError epoch msg) = None"
| "write_error_into_inner (FlushError msg) = None"
| "write_error_into_inner (InternalError msg) = None"

fun write_error_discard_inner :: "'w write_error \<Rightarrow> unit write_error" where
  "write_error_discard_inner (Backpressure w) = Backpressure ()"
| "write_error_discard_inner (TimeoutError w) = TimeoutError ()"
| "write_error_discard_inner WriterShutdown = WriterShutdown"
| "write_error_discard_inner (ApplyError epoch msg) = ApplyError epoch msg"
| "write_error_discard_inner (FlushError msg) = FlushError msg"
| "write_error_discard_inner (InternalError msg) = InternalError msg"

definition queue_pause :: "'w command_queue \<Rightarrow> 'w command_queue" where
  "queue_pause q = q\<lparr>cq_paused := True\<rparr>"

definition queue_unpause :: "'w command_queue \<Rightarrow> 'w command_queue" where
  "queue_unpause q = q\<lparr>cq_paused := False\<rparr>"

text \<open>
  \<open>PausableReceiver::recv\<close>, polled once: the switch is looked at before the channel, and not again while the
  receiver waits for a command.
\<close>

definition queue_recv :: "'w command_queue \<Rightarrow> 'w command_queue \<times> 'w write_command option" where
  "queue_recv q =
     (if cq_paused q \<and> \<not> cq_receiving q then (q, None)
      else case cq_commands q of
             [] \<Rightarrow> (q\<lparr>cq_receiving := True\<rparr>, None)
           | cmd # cmds \<Rightarrow> (q\<lparr>cq_commands := cmds, cq_receiving := False\<rparr>, Some cmd))"

text \<open>
  \<open>WriteHandle::wait\<close>: \<^const>\<open>None\<close> while the reply or the watermark is awaited.
\<close>

definition write_handle_wait ::
  "(u64 \<times> ('a, string) result) option \<Rightarrow> epoch_watermarks \<Rightarrow> durability \<Rightarrow> ('a, unit write_error) result option" where
  "write_handle_wait reply wm d =
     (case reply of
        None \<Rightarrow> None
      | Some (epoch, Err e) \<Rightarrow> Some (Err (ApplyError epoch e))
      | Some (epoch, Panic) \<Rightarrow> Some (Err WriterShutdown)
      | Some (epoch, Ok r) \<Rightarrow> if epoch_reached wm epoch d then Some (Ok r) else None)"

datatype subscribe_error = SubscriberShutdown | NotInitialized | MessageLost

text \<open>
  A subscriber of the views: the broadcast channel keeps the last sixteen; \<open>vs_missed\<close> says that one
  was dropped that the subscriber had not received.
\<close>

record 'v view_subscriber =
  vs_pending :: "'v list"
  vs_missed :: bool
  vs_closed :: bool
  vs_initial :: "'v option"
  vs_watermarks :: epoch_watermarks

definition view_subscriber_new :: "'v \<Rightarrow> 'v view_subscriber" where
  "view_subscriber_new initial_view = \<lparr>vs_pending = [], vs_missed = False, vs_closed = False, vs_initial = Some initial_view,
     vs_watermarks = epoch_watermarks_new\<rparr>"

definition view_subscriber_send :: "'v view_subscriber \<Rightarrow> 'v \<Rightarrow> 'v view_subscriber" where
  "view_subscriber_send s v =
     (let views = vs_pending s @ [v] in
      if length views > 16 then s\<lparr>vs_pending := tl views, vs_missed := True\<rparr> else s\<lparr>vs_pending := views\<rparr>)"

definition view_subscriber_initialize :: "'v view_subscriber \<Rightarrow> 'v view_subscriber \<times> ('v, unit) result" where
  "view_subscriber_initialize s =
     (case vs_initial s of None \<Rightarrow> (s, Panic) | Some v \<Rightarrow> (s\<lparr>vs_initial := None\<rparr>, Ok v))"

definition view_subscriber_recv :: "'v view_subscriber \<Rightarrow> ('v view_subscriber \<times> ('v, subscribe_error) result) option" where
  "view_subscriber_recv s =
     (if vs_initial s \<noteq> None then Some (s, Err NotInitialized)
      else if vs_missed s then Some (s\<lparr>vs_missed := False\<rparr>, Err MessageLost)
      else case vs_pending s of [] \<Rightarrow> if vs_closed s then Some (s, Err SubscriberShutdown) else None | v # views \<Rightarrow> Some (s\<lparr>vs_pending := views\<rparr>, Ok v))"

text \<open>A refused write leaves the queue as it was, and unless the coordinator has stopped the caller gets the write back.\<close>

lemma try_write_gives_back:
  assumes "try_write q w reply = (q', Err e) \<or> write_timeout q w reply = (q', Err e)"
  shows "q' = q \<and> (e = WriterShutdown \<and> cq_closed q \<or> write_error_into_inner e = Some w)"
  using assms by (auto simp: try_write_def write_timeout_def split: if_splits)

text \<open>A higher durability level is reached no earlier than a lower one.\<close>

lemma epoch_reached_mono:
  assumes "wm_durable wm \<le> wm_written wm" and "wm_written wm \<le> wm_applied wm" and "d \<le> d'" and "epoch_reached wm e d'"
  shows "epoch_reached wm e d"
  using assms by (cases d; cases d') (auto simp: epoch_reached_def less_eq_durability_def dest: order.trans)

text \<open>A receiver that was waiting when the queue is paused still delivers one command.\<close>

lemma paused_queue_delivers_waiting:
  assumes "queue_recv q = (q', None)" and "\<not> cq_paused q"
  shows "\<exists>q''. queue_recv (queue_pause q'\<lparr>cq_commands := [cmd]\<rparr>) = (q'', Some cmd) \<and> queue_recv q'' = (q'', None)"
  using assms by (auto simp: queue_recv_def queue_pause_def split: list.splits)

section \<open>What a delta and a flusher are\<close>

text \<open>
  The writes a delta holds are those applied to it since it was made; freezing it keeps them.  A
  refused write leaves no trace.
\<close>

definition delta_law ::
  "('d, 'c, 'w, 'f, 'fv, 'a, 'dv) delta_ops \<Rightarrow> ('d \<Rightarrow> 'w list) \<Rightarrow> ('f \<Rightarrow> 'w list) \<Rightarrow> ('fv \<Rightarrow> 'w list) \<Rightarrow> bool" where
  "delta_law dops held fheld fvheld \<longleftrightarrow>
     (\<forall>c. held (delta_init dops c) = [])
   \<and> (\<forall>d w. case delta_apply dops d w of
         (d', Ok _) \<Rightarrow> held d' = held d @ [w]
       | (d', _) \<Rightarrow> held d' = held d)
   \<and> (\<forall>d f fv c. delta_freeze dops d = (f, fv, c) \<longrightarrow> fheld f = held d \<and> fvheld fv = held d)"

text \<open>
  A successful flush adds the frozen writes to what the storage holds and returns a snapshot of it;
  a successful storage flush makes what is held durable; what is durable stays.
\<close>

definition flusher_law ::
  "('s, 'f, 'n) flusher_ops \<Rightarrow> ('f \<Rightarrow> 'w list) \<Rightarrow> ('s \<Rightarrow> 'w list) \<Rightarrow> ('s \<Rightarrow> 'w list) \<Rightarrow> ('n \<Rightarrow> 'w list) \<Rightarrow> bool" where
  "flusher_law fops fheld stored durable shows \<longleftrightarrow>
     (\<forall>s f r. case flusher_flush_delta fops s f r of (s', res) \<Rightarrow>
        prefix (durable s) (durable s')
        \<and> (\<forall>n. res = Ok n \<longrightarrow> stored s' = stored s @ fheld f \<and> shows n = stored s'))
   \<and> (\<forall>s. case flusher_flush_storage fops s of (s', res) \<Rightarrow>
        prefix (durable s) (durable s') \<and> (res = Ok () \<longrightarrow> stored s' = stored s \<and> durable s' = stored s))"

section \<open>The runs of a coordinator\<close>

text \<open>
  The states two concurrent tasks reach, with the writes that were applied so far and their epochs.
  Fewer than \<open>2\<^sup>6\<^sup>4 - 2\<close> writes are made.
\<close>

inductive coordinator_run ::
  "('d, 'c, 'w, 'f, 'fv, 'a, 'dv) delta_ops \<Rightarrow> ('s, 'f, 'n) flusher_ops \<Rightarrow> ('d, 'f, 'fv, 'dv, 'n, 's) coordinator
    \<Rightarrow> ('d, 'f, 'fv, 'dv, 'n, 's) coordinator \<Rightarrow> (u64 \<times> 'w) list \<Rightarrow> bool"
  for dops fops c0 where
  start: "coordinator_run dops fops c0 c0 []"
| write_applied: "\<lbrakk>coordinator_run dops fops c0 c log; co_epoch c < u64_max; coordinator_write dops c w = (c', e, Ok r)\<rbrakk>
    \<Longrightarrow> coordinator_run dops fops c0 c' (log @ [(e, w)])"
| write_refused: "\<lbrakk>coordinator_run dops fops c0 c log; co_epoch c < u64_max; coordinator_write dops c w = (c', e, Err m)\<rbrakk>
    \<Longrightarrow> coordinator_run dops fops c0 c' log"
| flush: "coordinator_run dops fops c0 c log \<Longrightarrow> coordinator_run dops fops c0 (coordinator_flush dops c flush_storage) log"
| take: "\<lbrakk>coordinator_run dops fops c0 c log; co_flush_state c = FlushIdle\<rbrakk>
    \<Longrightarrow> coordinator_run dops fops c0 (flush_task_take fops c) log"
| publish: "\<lbrakk>coordinator_run dops fops c0 c log; flush_task_publish c = Some c'\<rbrakk>
    \<Longrightarrow> coordinator_run dops fops c0 c' log"
| announce: "coordinator_run dops fops c0 c log \<Longrightarrow> coordinator_run dops fops c0 (flush_task_announce c) log"

section \<open>Writes by epoch\<close>

definition writes_between :: "u64 \<Rightarrow> u64 \<Rightarrow> (u64 \<times> 'w) list \<Rightarrow> 'w list" where
  "writes_between a b log = map snd (filter (\<lambda>(e, w). a \<le> e \<and> e < b) log)"

text \<open>The epochs of the log are increasing and below the next one.\<close>

definition log_epochs :: "(u64 \<times> 'w) list \<Rightarrow> u64 \<Rightarrow> bool" where
  "log_epochs log next \<longleftrightarrow> sorted_wrt (<) (map fst log) \<and> (\<forall>(e, w) \<in> set log. 1 \<le> e \<and> e < next)"

lemma epoch_succ: "(e :: u64) < u64_max \<Longrightarrow> e < e + 1" "e < u64_max \<Longrightarrow> x < e + 1 \<longleftrightarrow> x \<le> e"
  by unat_arith+

lemma writes_between_append_out: "b \<le> e \<Longrightarrow> writes_between a b (log @ [(e, w)]) = writes_between a b log"
  by (simp add: writes_between_def not_less)

lemma writes_between_mono_end:
  assumes "log_epochs log n" and "n \<le> b" and "n \<le> b'"
  shows "writes_between a b log = writes_between a b' log"
proof -
  have "filter (\<lambda>(e, w). a \<le> e \<and> e < b) log = filter (\<lambda>(e, w). a \<le> e \<and> e < b') log"
    using assms by (intro filter_cong) (auto simp: log_epochs_def dest: order_less_le_trans)
  then show ?thesis by (simp add: writes_between_def)
qed

lemma writes_between_append_in:
  assumes "log_epochs log e" and "a \<le> e" and "e < u64_max"
  shows "writes_between a (e + 1) (log @ [(e, w)]) = writes_between a e log @ [w]"
  using writes_between_mono_end [OF assms(1), of "e + 1" e a] epoch_succ(1) [OF assms(3)] assms(2)
  by (simp add: writes_between_def less_imp_le)

lemma writes_between_split:
  assumes "log_epochs log n" and "a \<le> b" and "b \<le> c"
  shows "writes_between a b log @ writes_between b c log = writes_between a c log"
  using assms(1)
proof (induction log)
  case (Cons x log)
  obtain e w where x: "x = (e, w)" by fastforce
  from Cons.prems have log: "log_epochs log n" and later: "\<forall>(e', w') \<in> set log. e < e'"
    by (auto simp: log_epochs_def x)
  show ?case
  proof (cases "e < b")
    case True
    with Cons.IH [OF log] assms(2,3) show ?thesis by (auto simp: writes_between_def x)
  next
    case False
    have "filter (\<lambda>(e, w). a \<le> e \<and> e < b) log = []" using later False by (auto simp: filter_empty_conv)
    with False Cons.IH [OF log] assms(2,3) show ?thesis by (auto simp: writes_between_def x)
  qed
qed (simp add: writes_between_def)

text \<open>Consecutive epoch ranges.\<close>

fun epoch_chain :: "u64 \<Rightarrow> (u64 \<times> u64) list \<Rightarrow> u64 \<Rightarrow> bool" where
  "epoch_chain a [] b \<longleftrightarrow> a = b"
| "epoch_chain a ((s, e) # rs) b \<longleftrightarrow> s = a \<and> s < e \<and> epoch_chain e rs b"

lemma epoch_chain_append:
  "epoch_chain a (xs @ ys) c \<longleftrightarrow> (\<exists>b. epoch_chain a xs b \<and> epoch_chain b ys c)"
  by (induction xs arbitrary: a) auto

lemma epoch_chain_le: "epoch_chain a rs b \<Longrightarrow> a \<le> b"
  by (induction rs arbitrary: a) (auto, meson less_imp_le order.trans)

lemma epoch_chain_range:
  assumes "epoch_chain a rs b" and "(s, e) \<in> set rs"
  shows "a \<le> s \<and> s < e \<and> e \<le> b"
proof -
  from assms(2) obtain xs ys where "rs = xs @ (s, e) # ys" by (auto simp: in_set_conv_decomp)
  with assms(1) show ?thesis by (auto simp: epoch_chain_append dest: epoch_chain_le)
qed

lemma writes_between_chain:
  assumes "log_epochs log n" and "epoch_chain a rs b"
  shows "concat (map (\<lambda>(s, e). writes_between s e log) rs) = writes_between a b log"
  using assms(2)
proof (induction rs arbitrary: a)
  case Nil
  then show ?case by (auto simp: writes_between_def filter_empty_conv)
next
  case (Cons r rs)
  obtain s e where r: "r = (s, e)" by fastforce
  with Cons have "s = a" "s < e" "epoch_chain e rs b" by auto
  with Cons.IH [of e] writes_between_split [OF assms(1), of a e b] epoch_chain_le [of e rs b] r show ?case by simp
qed

section \<open>The invariant\<close>

abbreviation epoch_range :: "'t epoch_stamped \<Rightarrow> u64 \<times> u64" where
  "epoch_range x \<equiv> (es_start x, es_end x)"

fun queued_deltas :: "'f flush_event list \<Rightarrow> 'f epoch_stamped list" where
  "queued_deltas [] = []"
| "queued_deltas (FlushDelta f # events) = f # queued_deltas events"
| "queued_deltas (FlushStorage # events) = queued_deltas events"

lemma queued_deltas_append [simp]: "queued_deltas (xs @ ys) = queued_deltas xs @ queued_deltas ys"
  by (induction xs rule: queued_deltas.induct) auto

text \<open>What a stamped delta holds are the writes of its epochs.\<close>

definition holds_epochs :: "('t \<Rightarrow> 'w list) \<Rightarrow> (u64 \<times> 'w) list \<Rightarrow> 't epoch_stamped \<Rightarrow> bool" where
  "holds_epochs held log x \<longleftrightarrow> held (es_val x) = writes_between (es_start x) (es_end x) log"

text \<open>The coordinator's own half: the current delta and the view, up to the epoch \<open>nxt\<close> the snapshot ends before.\<close>

definition view_inv where
  "view_inv held fvheld shows base c log nxt \<longleftrightarrow>
     log_epochs log (co_epoch c) \<and> co_delta_start_epoch c \<le> co_epoch c
   \<and> wm_applied (co_watermarks c) + 1 = co_epoch c
   \<and> held (co_delta c) = writes_between (co_delta_start_epoch c) (co_epoch c) log
   \<and> list_all (holds_epochs fvheld log) (cv_frozen (co_view c))
   \<and> 1 \<le> nxt \<and> epoch_chain nxt (map epoch_range (rev (cv_frozen (co_view c)))) (co_delta_start_epoch c)
   \<and> shows (cv_snapshot (co_view c)) = base @ writes_between 1 nxt log"

fun ended_state :: "'n flush_state \<Rightarrow> bool" where
  "ended_state (FlushFailed e) \<longleftrightarrow> True"
| "ended_state FlushPanicked \<longleftrightarrow> True"
| "ended_state st \<longleftrightarrow> False"

abbreviation flush_task_ended :: "('d, 'f, 'fv, 'dv, 'n, 's) coordinator \<Rightarrow> bool" where
  "flush_task_ended c \<equiv> ended_state (co_flush_state c)"

text \<open>The flush task's half: what is queued, what is flushed and not yet published, and what is stored.\<close>

definition task_inv where
  "task_inv fheld stored shows base c log nxt \<longleftrightarrow>
     flush_task_ended c
   \<or> list_all (holds_epochs fheld log) (queued_deltas (co_flush_queue c))
   \<and> (let frozen = map epoch_range (rev (cv_frozen (co_view c)));
          queued = map epoch_range (queued_deltas (co_flush_queue c))
      in case co_flush_state c of
           FlushIdle \<Rightarrow> frozen = queued \<and> stored (co_flusher c) = base @ writes_between 1 nxt log
             \<and> co_last_flushed_epoch c + 1 = nxt \<and> wm_written (co_watermarks c) = co_last_flushed_epoch c
         | FlushPublished \<Rightarrow> frozen = queued \<and> stored (co_flusher c) = base @ writes_between 1 nxt log
             \<and> co_last_flushed_epoch c + 1 = nxt
         | FlushDone n s e \<Rightarrow> frozen = (s, e) # queued \<and> stored (co_flusher c) = base @ writes_between 1 e log
             \<and> shows n = base @ writes_between 1 e log \<and> co_last_flushed_epoch c + 1 = e
         | _ \<Rightarrow> True)"

definition watermark_inv where
  "watermark_inv durable base c log nxt \<longleftrightarrow>
     wm_durable (co_watermarks c) \<le> wm_written (co_watermarks c) \<and> wm_written (co_watermarks c) < nxt
   \<and> (wm_durable (co_watermarks c) \<noteq> 0
        \<longrightarrow> prefix (base @ writes_between 1 (wm_durable (co_watermarks c) + 1) log) (durable (co_flusher c)))"

definition coordinator_inv where
  "coordinator_inv held fheld fvheld stored durable shows base c log \<longleftrightarrow>
     (\<exists>nxt. view_inv held fvheld shows base c log nxt \<and> task_inv fheld stored shows base c log nxt
        \<and> watermark_inv durable base c log nxt)"

lemmas coordinator_inv_defs = view_inv_def task_inv_def watermark_inv_def

lemma coordinator_inv_new:
  assumes "delta_law dops held fheld fvheld" and "stored s = base" and "shows snap = base"
  shows "coordinator_inv held fheld fvheld stored durable shows base (coordinator_new dops th ctx snap s) []"
  unfolding coordinator_inv_def
  by (rule exI [of _ 1])
    (use assms in \<open>simp add: coordinator_inv_defs coordinator_new_def epoch_watermarks_new_def log_epochs_def
      writes_between_def delta_law_def Let_def\<close>)

lemma coordinator_inv_freeze:
  assumes law: "delta_law dops held fheld fvheld"
    and inv: "coordinator_inv held fheld fvheld stored durable shows base c log"
  shows "coordinator_inv held fheld fvheld stored durable shows base (flush_if_delta_has_writes dops c) log"
proof (cases "co_epoch c = co_delta_start_epoch c")
  case False
  obtain f fv ctx where fr: "delta_freeze dops (co_delta c) = (f, fv, ctx)" by (cases "delta_freeze dops (co_delta c)")
  with law have held: "fheld f = held (co_delta c)" "fvheld fv = held (co_delta c)" "held (delta_init dops ctx) = []"
    by (auto simp: delta_law_def)
  have empty: "writes_between (co_epoch c) (co_epoch c) log = []" by (auto simp: writes_between_def filter_empty_conv)
  from inv False obtain nxt where vi: "view_inv held fvheld shows base c log nxt"
    and ti: "task_inv fheld stored shows base c log nxt" and wi: "watermark_inv durable base c log nxt"
    by (auto simp: coordinator_inv_def)
  let ?c = "flush_if_delta_has_writes dops c"
  have "view_inv held fvheld shows base ?c log nxt"
    using vi False held empty
    by (auto simp: view_inv_def flush_if_delta_has_writes_def freeze_and_init_def fr update_delta_frozen_def
        holds_epochs_def epoch_chain_append)
  moreover have "task_inv fheld stored shows base ?c log nxt"
    using ti vi False held
    by (auto simp: task_inv_def view_inv_def flush_if_delta_has_writes_def freeze_and_init_def fr update_delta_frozen_def
        holds_epochs_def Let_def split: flush_state.splits)
  moreover have "watermark_inv durable base ?c log nxt"
    using wi by (simp add: watermark_inv_def flush_if_delta_has_writes_def freeze_and_init_def fr)
  ultimately show ?thesis by (auto simp: coordinator_inv_def)
qed (use inv in \<open>simp add: flush_if_delta_has_writes_def\<close>)

lemma coordinator_inv_flush:
  assumes "delta_law dops held fheld fvheld"
    and "coordinator_inv held fheld fvheld stored durable shows base c log"
  shows "coordinator_inv held fheld fvheld stored durable shows base (coordinator_flush dops c flush_storage) log"
  using coordinator_inv_freeze [OF assms]
  by (simp add: coordinator_flush_def Let_def coordinator_inv_def coordinator_inv_defs cong: flush_state.case_cong)

text \<open>One write, applied or refused: the epochs already given keep their writes.\<close>

definition log_grows :: "(u64 \<times> 'w) list \<Rightarrow> (u64 \<times> 'w) list \<Rightarrow> u64 \<Rightarrow> bool" where
  "log_grows log log' n \<longleftrightarrow> log_epochs log' (n + 1) \<and> (\<forall>a b. b \<le> n \<longrightarrow> writes_between a b log' = writes_between a b log)"

lemma log_grows_refused:
  assumes "log_epochs log n" and "n < u64_max"
  shows "log_grows log log n"
  using assms epoch_succ(1) [OF assms(2)] by (auto simp: log_grows_def log_epochs_def dest: order.strict_trans)

lemma log_grows_applied:
  assumes "log_epochs log n" and "1 \<le> n" and "n < u64_max"
  shows "log_grows log (log @ [(n, w)]) n"
  using assms epoch_succ(1) [OF assms(3)]
  by (auto simp: log_grows_def log_epochs_def writes_between_append_out sorted_wrt_append dest: order.strict_trans)

lemma view_inv_bounds:
  assumes "view_inv held fvheld shows base c log nxt"
  shows "nxt \<le> co_delta_start_epoch c" and "nxt \<le> co_epoch c" and "1 \<le> co_epoch c"
    and "f \<in> set (cv_frozen (co_view c)) \<Longrightarrow> es_end f \<le> co_epoch c"
proof -
  show n: "nxt \<le> co_delta_start_epoch c" using assms by (auto simp: view_inv_def dest: epoch_chain_le)
  then show m: "nxt \<le> co_epoch c" using assms by (auto simp: view_inv_def)
  then show "1 \<le> co_epoch c" using assms by (auto simp: view_inv_def)
  assume "f \<in> set (cv_frozen (co_view c))"
  then have "epoch_range f \<in> set (map epoch_range (rev (cv_frozen (co_view c))))" by simp
  with assms epoch_chain_range have "es_end f \<le> co_delta_start_epoch c" unfolding view_inv_def by blast
  then show "es_end f \<le> co_epoch c" using assms by (auto simp: view_inv_def)
qed

lemma task_inv_bounds:
  assumes "view_inv held fvheld shows base c log nxt" and "task_inv fheld stored shows base c log nxt"
    and "\<not> flush_task_ended c"
  shows "f \<in> set (queued_deltas (co_flush_queue c)) \<Longrightarrow> es_end f \<le> co_epoch c"
    and "co_flush_state c = FlushDone n s e \<Longrightarrow> s = nxt \<and> s < e \<and> e \<le> co_epoch c"
proof -
  let ?frozen = "map epoch_range (rev (cv_frozen (co_view c)))"
  have chain: "epoch_chain nxt ?frozen (co_delta_start_epoch c)" and le: "co_delta_start_epoch c \<le> co_epoch c"
    using assms(1) by (auto simp: view_inv_def)
  {
    assume "f \<in> set (queued_deltas (co_flush_queue c))"
    then have "epoch_range f \<in> set (map epoch_range (queued_deltas (co_flush_queue c)))" by simp
    with assms(2-3) have "epoch_range f \<in> set ?frozen"
      by (auto simp: task_inv_def Let_def simp del: set_map split: flush_state.splits)
    with epoch_chain_range [OF chain] le show "es_end f \<le> co_epoch c" by fastforce
  }
  {
    assume "co_flush_state c = FlushDone n s e"
    with assms(2,3) have "?frozen = (s, e) # map epoch_range (queued_deltas (co_flush_queue c))"
      by (simp add: task_inv_def Let_def)
    with chain le show "s = nxt \<and> s < e \<and> e \<le> co_epoch c" by (auto dest: epoch_chain_le)
  }
qed

lemma holds_epochs_grows:
  "log_grows log log' n \<Longrightarrow> es_end f \<le> n \<Longrightarrow> holds_epochs held log' f \<longleftrightarrow> holds_epochs held log f"
  by (simp add: log_grows_def holds_epochs_def)

lemma coordinator_inv_grows:
  assumes inv: "coordinator_inv held fheld fvheld stored durable shows base c log"
    and grows: "log_grows log log' (co_epoch c)" and max: "co_epoch c < u64_max"
    and delta: "held d' = writes_between (co_delta_start_epoch c) (co_epoch c + 1) log'"
    and c': "c' = c\<lparr>co_epoch := co_epoch c + 1, co_delta := d',
      co_watermarks := update_applied (co_watermarks c) (co_epoch c)\<rparr>"
  shows "coordinator_inv held fheld fvheld stored durable shows base c' log'"
proof -
  from inv obtain nxt where vi: "view_inv held fvheld shows base c log nxt"
    and ti: "task_inv fheld stored shows base c log nxt" and wi: "watermark_inv durable base c log nxt"
    by (auto simp: coordinator_inv_def)
  note b = view_inv_bounds [OF vi]
  have same: "writes_between a e log' = writes_between a e log" if "e \<le> co_epoch c" for a e
    using grows that by (simp add: log_grows_def)
  have frozen: "list_all (holds_epochs fvheld log') (cv_frozen (co_view c))"
    using vi b(4) grows by (auto simp: view_inv_def list_all_iff holds_epochs_grows)
  have "view_inv held fvheld shows base c' log' nxt"
    using vi delta frozen epoch_succ(1) [OF max] same [OF b(2)] grows
    by (auto simp: view_inv_def c' update_applied_def log_grows_def)
  moreover have "task_inv fheld stored shows base c' log' nxt"
  proof (cases "flush_task_ended c")
    case False
    note tb = task_inv_bounds [OF vi ti False]
    have "list_all (holds_epochs fheld log') (queued_deltas (co_flush_queue c))"
      using ti tb(1) False grows by (auto simp: task_inv_def list_all_iff holds_epochs_grows)
    with ti False tb(2) same [OF b(2)] show ?thesis
      by (auto simp: task_inv_def c' update_applied_def Let_def same split: flush_state.splits)
  qed (simp add: task_inv_def c')
  moreover have "watermark_inv durable base c' log' nxt"
  proof -
    have "wm_durable (co_watermarks c) < nxt" using wi unfolding watermark_inv_def by (meson order.strict_trans1)
    then have "wm_durable (co_watermarks c) + 1 \<le> co_epoch c" using b(2) by unat_arith
    with wi show ?thesis by (simp add: watermark_inv_def c' update_applied_def same)
  qed
  ultimately show ?thesis by (auto simp: coordinator_inv_def)
qed

lemma coordinator_inv_write:
  assumes law: "delta_law dops held fheld fvheld" and max: "co_epoch c < u64_max"
    and inv: "coordinator_inv held fheld fvheld stored durable shows base c log"
    and w: "coordinator_write dops c w = (c', e, r)"
  shows "coordinator_inv held fheld fvheld stored durable shows base c' (case r of Ok _ \<Rightarrow> log @ [(e, w)] | _ \<Rightarrow> log)"
proof -
  obtain d r' where a: "delta_apply dops (co_delta c) w = (d, r')" by fastforce
  define c1 where "c1 = c\<lparr>co_epoch := co_epoch c + 1, co_delta := d,
    co_watermarks := update_applied (co_watermarks c) (co_epoch c)\<rparr>"
  let ?log = "case r of Ok _ \<Rightarrow> log @ [(e, w)] | _ \<Rightarrow> log"
  have e: "e = co_epoch c" and r': "r' = r" and c': "c' = c1 \<or> c' = coordinator_flush dops c1 False"
    using w a by (auto simp: coordinator_write_def Let_def c1_def split: if_splits)
  from inv obtain nxt where vi: "view_inv held fvheld shows base c log nxt" by (auto simp: coordinator_inv_def)
  then have log: "log_epochs log (co_epoch c)" and le: "co_delta_start_epoch c \<le> co_epoch c"
    and held: "held (co_delta c) = writes_between (co_delta_start_epoch c) (co_epoch c) log"
    by (auto simp: view_inv_def)
  have grows: "log_grows log ?log (co_epoch c)"
    using log_grows_refused [OF log max] log_grows_applied [OF log view_inv_bounds(3) [OF vi] max] e
    by (simp split: result.split)
  have "case delta_apply dops (co_delta c) w of
      (d', Ok _) \<Rightarrow> held d' = held (co_delta c) @ [w] | (d', _) \<Rightarrow> held d' = held (co_delta c)"
    using law by (simp add: delta_law_def)
  then have "held d = (case r of Ok _ \<Rightarrow> held (co_delta c) @ [w] | _ \<Rightarrow> held (co_delta c))"
    using a r' by (simp split: result.splits)
  then have "held d = writes_between (co_delta_start_epoch c) (co_epoch c + 1) ?log"
    using writes_between_append_in [OF log le max] held e epoch_succ(1) [OF max]
      writes_between_mono_end [OF log, of "co_epoch c + 1" "co_epoch c"]
    by (auto split: result.split)
  from coordinator_inv_grows [OF inv grows max this c1_def] c' show ?thesis
    by (auto intro: coordinator_inv_flush [OF law])
qed

lemma flusher_law_delta:
  assumes "flusher_law fops fheld stored durable shows" and "flusher_flush_delta fops s f r = (s', res)"
  shows "prefix (durable s) (durable s')" and "res = Ok n \<Longrightarrow> stored s' = stored s @ fheld f" and "res = Ok n \<Longrightarrow> shows n = stored s'"
proof -
  have "case flusher_flush_delta fops s f r of (s', res) \<Rightarrow> prefix (durable s) (durable s')
      \<and> (\<forall>n. res = Ok n \<longrightarrow> stored s' = stored s @ fheld f \<and> shows n = stored s')"
    by (rule assms(1) [unfolded flusher_law_def, THEN conjunct1, THEN spec, THEN spec, THEN spec])
  with assms(2) show "prefix (durable s) (durable s')" "res = Ok n \<Longrightarrow> stored s' = stored s @ fheld f" "res = Ok n \<Longrightarrow> shows n = stored s'"
    by simp_all
qed

lemma flusher_law_storage:
  assumes "flusher_law fops fheld stored durable shows" and "flusher_flush_storage fops s = (s', res)"
  shows "prefix (durable s) (durable s')" and "res = Ok u \<Longrightarrow> stored s' = stored s" and "res = Ok u \<Longrightarrow> durable s' = stored s"
proof -
  have "case flusher_flush_storage fops s of (s', res) \<Rightarrow> prefix (durable s) (durable s')
      \<and> (res = Ok () \<longrightarrow> stored s' = stored s \<and> durable s' = stored s)"
    using assms(1) by (simp add: flusher_law_def)
  with assms(2) show "prefix (durable s) (durable s')" "res = Ok u \<Longrightarrow> stored s' = stored s" "res = Ok u \<Longrightarrow> durable s' = stored s"
    by simp_all
qed

text \<open>The views are left alone while an event is handled; the task may have ended.\<close>

lemma view_inv_cong:
  assumes "view_inv held fvheld shows base c log nxt"
    and "co_epoch c' = co_epoch c" and "co_delta_start_epoch c' = co_delta_start_epoch c" and "co_delta c' = co_delta c"
    and "wm_applied (co_watermarks c') = wm_applied (co_watermarks c)" and "co_view c' = co_view c"
  shows "view_inv held fvheld shows base c' log nxt"
  using assms by (simp add: view_inv_def)

lemma watermark_inv_flusher:
  assumes "watermark_inv durable base c log nxt" and "prefix (durable (co_flusher c)) (durable (co_flusher c'))"
    and "co_watermarks c' = co_watermarks c"
  shows "watermark_inv durable base c' log nxt"
  using assms by (auto simp: watermark_inv_def dest: prefix_order.trans)

lemma coordinator_inv_ended:
  assumes inv: "coordinator_inv held fheld fvheld stored durable shows base c log"
    and durable: "prefix (durable (co_flusher c)) (durable s)" and "ended_state st"
  shows "coordinator_inv held fheld fvheld stored durable shows base
    (c\<lparr>co_flush_queue := q, co_flusher := s, co_flush_state := st\<rparr>) log"
proof -
  let ?c = "c\<lparr>co_flush_queue := q, co_flusher := s, co_flush_state := st\<rparr>"
  from inv obtain nxt where vi: "view_inv held fvheld shows base c log nxt" and wi: "watermark_inv durable base c log nxt"
    by (auto simp: coordinator_inv_def)
  have "view_inv held fvheld shows base ?c log nxt" by (rule view_inv_cong [OF vi]) simp_all
  moreover have "watermark_inv durable base ?c log nxt" by (rule watermark_inv_flusher [OF wi]) (simp_all add: durable)
  ultimately show ?thesis using assms(3) by (auto simp: coordinator_inv_def task_inv_def)
qed

lemma coordinator_inv_take_delta:
  assumes inv: "coordinator_inv held fheld fvheld stored durable shows base c log" and idle: "co_flush_state c = FlushIdle"
    and q: "co_flush_queue c = FlushDelta f # events"
    and durable: "prefix (durable (co_flusher c)) (durable s)" and st: "stored s = stored (co_flusher c) @ fheld (es_val f)"
    and n: "shows n = stored s"
  shows "coordinator_inv held fheld fvheld stored durable shows base
    (c\<lparr>co_flush_queue := events, co_flusher := s, co_last_flushed_epoch := es_end f - 1,
       co_flush_state := FlushDone n (es_start f) (es_end f)\<rparr>) log" (is "coordinator_inv _ _ _ _ _ _ _ ?c _")
proof -
  from inv obtain nxt where vi: "view_inv held fvheld shows base c log nxt"
    and ti: "task_inv fheld stored shows base c log nxt" and wi: "watermark_inv durable base c log nxt"
    by (auto simp: coordinator_inv_def)
  have frozen: "map epoch_range (rev (cv_frozen (co_view c))) = epoch_range f # map epoch_range (queued_deltas events)"
    and queued: "list_all (holds_epochs fheld log) (queued_deltas events)" "holds_epochs fheld log f"
    and stored: "stored (co_flusher c) = base @ writes_between 1 nxt log"
    using ti idle q by (auto simp: task_inv_def)
  have f: "es_start f = nxt" "nxt \<le> es_end f" "1 \<le> nxt" and log: "log_epochs log (co_epoch c)"
    using vi frozen by (auto simp: view_inv_def)
  have "stored s = base @ writes_between 1 (es_end f) log"
    using st stored queued(2) f writes_between_split [OF log, of 1 nxt "es_end f"] by (simp add: holds_epochs_def)
  then have "task_inv fheld stored shows base ?c log nxt"
    using frozen queued n by (simp add: task_inv_def)
  moreover have "view_inv held fvheld shows base ?c log nxt" by (rule view_inv_cong [OF vi]) simp_all
  moreover have "watermark_inv durable base ?c log nxt" by (rule watermark_inv_flusher [OF wi]) (simp_all add: durable)
  ultimately show ?thesis by (auto simp: coordinator_inv_def)
qed

lemma coordinator_inv_take_storage:
  assumes inv: "coordinator_inv held fheld fvheld stored durable shows base c log" and idle: "co_flush_state c = FlushIdle"
    and q: "co_flush_queue c = FlushStorage # events"
    and st: "stored s = stored (co_flusher c)" and durable: "durable s = stored (co_flusher c)"
  shows "coordinator_inv held fheld fvheld stored durable shows base
    (c\<lparr>co_flush_queue := events, co_flusher := s,
       co_watermarks := update_durable (co_watermarks c) (co_last_flushed_epoch c)\<rparr>) log"
    (is "coordinator_inv _ _ _ _ _ _ _ ?c _")
proof -
  from inv obtain nxt where vi: "view_inv held fvheld shows base c log nxt"
    and ti: "task_inv fheld stored shows base c log nxt" and wi: "watermark_inv durable base c log nxt"
    by (auto simp: coordinator_inv_def)
  have "view_inv held fvheld shows base ?c log nxt" by (rule view_inv_cong [OF vi]) (simp_all add: update_durable_def)
  moreover have "task_inv fheld stored shows base ?c log nxt"
    using ti idle q st by (simp add: task_inv_def update_durable_def)
  moreover have "watermark_inv durable base ?c log nxt"
    using wi ti idle durable by (simp add: watermark_inv_def task_inv_def update_durable_def)
  ultimately show ?thesis by (auto simp: coordinator_inv_def)
qed

lemma coordinator_inv_take:
  assumes law: "flusher_law fops fheld stored durable shows" and idle: "co_flush_state c = FlushIdle"
    and inv: "coordinator_inv held fheld fvheld stored durable shows base c log"
  shows "coordinator_inv held fheld fvheld stored durable shows base (flush_task_take fops c) log"
proof (cases "co_flush_queue c")
  case (Cons ev events)
  show ?thesis
  proof (cases ev)
    case (FlushDelta f)
    obtain s res where fl: "flusher_flush_delta fops (co_flusher c) (es_val f) (epoch_range f) = (s, res)" by fastforce
    note l = flusher_law_delta [OF law fl]
    show ?thesis
      using coordinator_inv_take_delta [OF inv idle Cons [unfolded FlushDelta] l(1) l(2) l(3)]
        coordinator_inv_ended [OF inv l(1)]
      by (cases res) (simp_all add: flush_task_take_def Cons FlushDelta fl)
  next
    case FlushStorage
    obtain s res where fl: "flusher_flush_storage fops (co_flusher c) = (s, res)" by fastforce
    note l = flusher_law_storage [OF law fl]
    show ?thesis
      using coordinator_inv_take_storage [OF inv idle Cons [unfolded FlushStorage] l(2) l(3)]
        coordinator_inv_ended [OF inv l(1)]
      by (cases res) (simp_all add: flush_task_take_def Cons FlushStorage fl)
  qed
qed (use inv in \<open>simp add: flush_task_take_def\<close>)

text \<open>Publishing never trips the assertions of the view.\<close>

lemma coordinator_inv_publish:
  assumes inv: "coordinator_inv held fheld fvheld stored durable shows base c log"
  shows "\<exists>c'. flush_task_publish c = Some c' \<and> coordinator_inv held fheld fvheld stored durable shows base c' log"
proof (cases "co_flush_state c")
  case (FlushDone n s e)
  from inv obtain nxt where vi: "view_inv held fvheld shows base c log nxt"
    and ti: "task_inv fheld stored shows base c log nxt" and wi: "watermark_inv durable base c log nxt"
    by (auto simp: coordinator_inv_def)
  have frozen: "map epoch_range (rev (cv_frozen (co_view c))) = (s, e) # map epoch_range (queued_deltas (co_flush_queue c))"
    using ti FlushDone by (simp add: task_inv_def)
  then obtain old f where c: "cv_frozen (co_view c) = old @ [f]" and f: "epoch_range f = (s, e)"
    by (cases "cv_frozen (co_view c)" rule: rev_cases) auto
  define c' where "c' = c\<lparr>co_view := (co_view c)\<lparr>cv_frozen := old, cv_snapshot := n, cv_last_written_delta := Some f\<rparr>,
    co_flush_state := FlushPublished\<rparr>"
  have "flush_task_publish c = Some c'"
    using c f by (simp add: flush_task_publish_def FlushDone update_flush_finished_def Let_def c'_def)
  moreover have "nxt < e" using vi c f by (auto simp: view_inv_def)
  then have "view_inv held fvheld shows base c' log e" "watermark_inv durable base c' log e"
    using vi wi ti c f FlushDone by (auto simp: view_inv_def watermark_inv_def task_inv_def c'_def)
  moreover have "task_inv fheld stored shows base c' log e"
    using ti frozen c FlushDone by (simp add: task_inv_def c'_def)
  ultimately show ?thesis by (auto simp: coordinator_inv_def)
qed (use inv in \<open>simp_all add: flush_task_publish_def\<close>)

lemma coordinator_inv_announce:
  assumes inv: "coordinator_inv held fheld fvheld stored durable shows base c log"
  shows "coordinator_inv held fheld fvheld stored durable shows base (flush_task_announce c) log"
proof (cases "co_flush_state c = FlushPublished")
  case True
  from inv obtain nxt where vi: "view_inv held fvheld shows base c log nxt"
    and ti: "task_inv fheld stored shows base c log nxt" and wi: "watermark_inv durable base c log nxt"
    by (auto simp: coordinator_inv_def)
  let ?c = "flush_task_announce c"
  have "view_inv held fvheld shows base ?c log nxt"
    by (rule view_inv_cong [OF vi]) (simp_all add: flush_task_announce_def True update_written_def)
  moreover have "task_inv fheld stored shows base ?c log nxt"
    using ti True by (simp add: task_inv_def flush_task_announce_def update_written_def)
  moreover have "watermark_inv durable base ?c log nxt"
  proof -
    have n: "co_last_flushed_epoch c + 1 = nxt" "1 \<le> nxt" using ti vi True by (simp_all add: task_inv_def view_inv_def)
    have "wm_durable (co_watermarks c) < nxt" using wi unfolding watermark_inv_def by (meson order.strict_trans1)
    with n have "wm_durable (co_watermarks c) \<le> co_last_flushed_epoch c" "co_last_flushed_epoch c < nxt" by unat_arith+
    with wi show ?thesis by (simp add: watermark_inv_def flush_task_announce_def True update_written_def)
  qed
  ultimately show ?thesis by (auto simp: coordinator_inv_def)
qed (use inv in \<open>simp add: flush_task_announce_def split: flush_state.split\<close>)

lemma coordinator_run_inv:
  assumes laws: "delta_law dops held fheld fvheld" "flusher_law fops fheld stored durable shows"
    and start: "stored s = base" "shows snap = base"
    and run: "coordinator_run dops fops (coordinator_new dops th ctx snap s) c log"
  shows "coordinator_inv held fheld fvheld stored durable shows base c log"
  using run
proof (induction rule: coordinator_run.induct)
  case start
  show ?case using laws(1) assms(3,4) by (rule coordinator_inv_new)
next
  case (write_applied c log w c' e r)
  from coordinator_inv_write [OF laws(1) write_applied.hyps(2) write_applied.IH write_applied.hyps(3)] show ?case by simp
next
  case (write_refused c log w c' e m)
  from coordinator_inv_write [OF laws(1) write_refused.hyps(2) write_refused.IH write_refused.hyps(3)] show ?case by simp
next
  case (flush c log flush_storage)
  then show ?case by (intro coordinator_inv_flush [OF laws(1)])
next
  case (take c log)
  then show ?case by (intro coordinator_inv_take [OF laws(2)])
next
  case (publish c log c')
  then show ?case by (auto dest: coordinator_inv_publish)
next
  case (announce c log)
  then show ?case by (intro coordinator_inv_announce)
qed

lemma writes_between_all: "log_epochs log n \<Longrightarrow> writes_between 1 n log = map snd log"
  by (auto simp: writes_between_def log_epochs_def intro!: arg_cong [where f = "map snd"] filter_True)

lemma frozen_writes:
  assumes "list_all (holds_epochs held log) xs"
  shows "concat (map (held \<circ> es_val) xs) = concat (map (\<lambda>(s, e). writes_between s e log) (map epoch_range xs))"
  using assms by (induction xs) (auto simp: holds_epochs_def)


text \<open>A delta that is the list of its writes and refuses the write 4, and a storage that keeps what it is given.\<close>

definition list_delta :: "(nat list, unit, nat, nat list, nat list, nat, nat list) delta_ops" where
  "list_delta = \<lparr>delta_init = (\<lambda>_. []),
     delta_apply = (\<lambda>d w. if w = 4 then (d, Err ''four'') else (d @ [w], Ok (length d))),
     delta_estimate_size = length, delta_freeze = (\<lambda>d. (d, d, ())), delta_reader = (\<lambda>d. d)\<rparr>"

definition list_flusher :: "(nat list \<times> nat, nat list, nat list) flusher_ops" where
  "list_flusher = \<lparr>flusher_flush_delta = (\<lambda>(st, n) f r. if 99 \<in> set f then ((st, n), Err ''disk full'') else ((st @ f, n), Ok (st @ f))),
     flusher_flush_storage = (\<lambda>(st, n). ((st, length st), Ok ()))\<rparr>"

abbreviation list_durable :: "nat list \<times> nat \<Rightarrow> nat list" where
  "list_durable s \<equiv> take (snd s) (fst s)"

lemma list_delta_law: "delta_law list_delta (\<lambda>d. d) (\<lambda>d. d) (\<lambda>d. d)"
  by (simp add: delta_law_def list_delta_def)

lemma list_flusher_law: "flusher_law list_flusher (\<lambda>d. d) fst list_durable (\<lambda>d. d)"
  by (auto simp: flusher_law_def list_flusher_def split: prod.split simp: take_is_prefix)

definition sample_coordinator :: "(nat list, nat list, nat list, nat list, nat list, nat list \<times> nat) coordinator" where
  "sample_coordinator = coordinator_new list_delta 2 () [5] ([5], 0)"

text \<open>Three writes, one of them refused; the third fills the delta, which is flushed and announced.\<close>

definition sample_write :: "nat \<Rightarrow> (nat list, nat list, nat list, nat list, nat list, nat list \<times> nat) coordinator
    \<Rightarrow> (nat list, nat list, nat list, nat list, nat list, nat list \<times> nat) coordinator" where
  "sample_write w c = fst (coordinator_write list_delta c w)"

definition sample_flushed :: "(nat list, nat list, nat list, nat list, nat list, nat list \<times> nat) coordinator" where
  "sample_flushed = flush_task_announce (the (flush_task_publish (flush_task_take list_flusher
     (sample_write 8 (sample_write 4 (sample_write 7 sample_coordinator))))))"

lemmas sample_coordinator_defs = sample_write_def sample_coordinator_def coordinator_new_def list_delta_def list_flusher_def
  coordinator_write_def coordinator_flush_def flush_if_delta_has_writes_def freeze_and_init_def update_delta_frozen_def
  update_applied_def update_written_def update_durable_def epoch_watermarks_new_def update_flush_finished_def
  flush_task_take_def flush_task_publish_def flush_task_announce_def Let_def

lemma small_below_u64_max: "1 < u64_max" "(2 :: u64) < u64_max" "(3 :: u64) < u64_max"
  by code_simp+

lemma sample_coordinator_run: "coordinator_run list_delta list_flusher sample_coordinator sample_flushed [(1, 7), (3, 8)]"
proof -
  let ?run = "coordinator_run list_delta list_flusher sample_coordinator"
  let ?c1 = "sample_write 7 sample_coordinator"
  let ?c2 = "sample_write 4 ?c1"
  let ?c3 = "sample_write 8 ?c2"
  have 1: "?run ?c1 ([] @ [(1, 7)])"
    by (rule coordinator_run.write_applied [OF coordinator_run.start, where r = 0]) (simp_all add: sample_coordinator_defs small_below_u64_max)
  have 2: "?run ?c2 ([] @ [(1, 7)])"
    by (rule coordinator_run.write_refused [OF 1, where e = 2 and m = "''four''"]) (simp_all add: sample_coordinator_defs small_below_u64_max)
  have 3: "?run ?c3 (([] @ [(1, 7)]) @ [(3, 8)])"
    by (rule coordinator_run.write_applied [OF 2, where r = 1]) (simp_all add: sample_coordinator_defs small_below_u64_max)
  have 4: "?run (flush_task_take list_flusher ?c3) (([] @ [(1, 7)]) @ [(3, 8)])"
    by (rule coordinator_run.take [OF 3]) (simp add: sample_coordinator_defs small_below_u64_max)
  have 5: "?run (the (flush_task_publish (flush_task_take list_flusher ?c3))) (([] @ [(1, 7)]) @ [(3, 8)])"
    by (rule coordinator_run.publish [OF 4]) (simp add: sample_coordinator_defs small_below_u64_max)
  from coordinator_run.announce [OF 5] show ?thesis by (simp add: sample_flushed_def)
qed


section \<open>Stopping\<close>

definition flusher_succeeds :: "('s, 'f, 'n) flusher_ops \<Rightarrow> bool" where
  "flusher_succeeds fops \<longleftrightarrow>
     (\<forall>s f r. \<exists>s' n. flusher_flush_delta fops s f r = (s', Ok n)) \<and> (\<forall>s. \<exists>s'. flusher_flush_storage fops s = (s', Ok ()))"

lemma flush_task_take_live:
  assumes "flusher_succeeds fops" and "co_flush_state c = FlushIdle"
  shows "\<not> flush_task_ended (flush_task_take fops c) \<and> co_flush_state (flush_task_take fops c) \<noteq> FlushPublished"
proof (cases "co_flush_queue c")
  case (Cons ev events)
  show ?thesis
  proof (cases ev)
    case (FlushDelta f)
    from assms(1) obtain s n where "flusher_flush_delta fops (co_flusher c) (es_val f) (epoch_range f) = (s, Ok n)"
      unfolding flusher_succeeds_def by blast
    with Cons FlushDelta show ?thesis by (simp add: flush_task_take_def)
  next
    case FlushStorage
    from assms(1) obtain s where "flusher_flush_storage fops (co_flusher c) = (s, Ok ())"
      unfolding flusher_succeeds_def by blast
    with Cons FlushStorage assms(2) show ?thesis by (simp add: flush_task_take_def)
  qed
qed (use assms in \<open>simp add: flush_task_take_def\<close>)

text \<open>What the flush task leaves alone.\<close>

lemma flush_task_frame:
  shows "co_epoch (flush_task_take fops c) = co_epoch c"
    and "co_delta_start_epoch (flush_task_take fops c) = co_delta_start_epoch c"
    and "flush_task_publish c = Some c' \<Longrightarrow> co_epoch c' = co_epoch c \<and> co_delta_start_epoch c' = co_delta_start_epoch c"
    and "co_epoch (flush_task_announce c) = co_epoch c"
    and "co_delta_start_epoch (flush_task_announce c) = co_delta_start_epoch c"
  by (auto simp: flush_task_take_def flush_task_publish_def flush_task_announce_def
      split: list.split flush_event.split prod.split result.split flush_state.splits)

text \<open>The event at hand is finished, and the task is idle again.\<close>

lemma flush_task_finish:
  assumes inv: "coordinator_inv held fheld fvheld stored durable shows base c log" and "\<not> flush_task_ended c"
  shows "\<exists>c1. flush_task_publish c = Some c1 \<and> co_flush_state (flush_task_announce c1) = FlushIdle
    \<and> coordinator_inv held fheld fvheld stored durable shows base (flush_task_announce c1) log
    \<and> co_epoch (flush_task_announce c1) = co_epoch c \<and> co_delta_start_epoch (flush_task_announce c1) = co_delta_start_epoch c"
proof -
  from coordinator_inv_publish [OF inv] obtain c1 where c1: "flush_task_publish c = Some c1"
    and inv1: "coordinator_inv held fheld fvheld stored durable shows base c1 log" by blast
  have "co_flush_state (flush_task_announce c1) = FlushIdle"
    using c1 assms(2) by (auto simp: flush_task_publish_def flush_task_announce_def split: flush_state.splits)
  with c1 coordinator_inv_announce [OF inv1] flush_task_frame(3) [OF c1] show ?thesis by (simp add: flush_task_frame(4,5))
qed

lemma flush_task_drain_all:
  assumes law: "flusher_law fops fheld stored durable shows" and live: "flusher_succeeds fops"
    and "coordinator_inv held fheld fvheld stored durable shows base c log" and "co_flush_state c = FlushIdle"
  shows "\<exists>c'. flush_task_drain fops c = Some c' \<and> coordinator_inv held fheld fvheld stored durable shows base c' log
    \<and> co_flush_state c' = FlushIdle \<and> co_flush_queue c' = []
    \<and> co_epoch c' = co_epoch c \<and> co_delta_start_epoch c' = co_delta_start_epoch c"
  using assms
proof (induction fops c rule: flush_task_drain.induct)
  case (1 fops c)
  show ?case
  proof (cases "co_flush_queue c = []")
    case False
    let ?t = "flush_task_take fops c"
    have same: "c\<lparr>co_flush_state := FlushIdle\<rparr> = c" using 1(5) by simp
    have "coordinator_inv held fheld fvheld stored durable shows base ?t log" "\<not> flush_task_ended ?t"
      using coordinator_inv_take [OF 1(2) 1(5) 1(4)] flush_task_take_live [OF 1(3) 1(5)] by simp_all
    from flush_task_finish [OF this] obtain c1 where c1: "flush_task_publish ?t = Some c1"
      and st: "co_flush_state (flush_task_announce c1) = FlushIdle"
      and inv: "coordinator_inv held fheld fvheld stored durable shows base (flush_task_announce c1) log"
      and fr: "co_epoch (flush_task_announce c1) = co_epoch c"
        "co_delta_start_epoch (flush_task_announce c1) = co_delta_start_epoch c"
      by (auto simp: flush_task_frame(1,2))
    have ev: "flush_task_event fops c = Some (flush_task_announce c1)" using c1 by (simp add: flush_task_event_def)
    have idle: "flush_task_announce c1\<lparr>co_flush_state := FlushIdle\<rparr> = flush_task_announce c1" using st by simp
    have step: "flush_task_drain fops c = flush_task_drain fops (flush_task_announce c1)"
      by (subst flush_task_drain.simps) (simp only: False same ev idle if_False option.case)
    from 1(1) [OF False, of "flush_task_announce c1", unfolded same idle, OF ev 1(2,3) inv st] fr show ?thesis
      by (simp add: step)
  qed (use 1 in \<open>simp add: flush_task_drain.simps\<close>)
qed

lemma flush_if_delta_has_writes_empties:
  "co_delta_start_epoch (flush_if_delta_has_writes dops c) = co_epoch c"
  "co_epoch (flush_if_delta_has_writes dops c) = co_epoch c"
  "co_flush_state (flush_if_delta_has_writes dops c) = co_flush_state c"
  "co_watermarks (flush_if_delta_has_writes dops c) = co_watermarks c"
  by (auto simp: flush_if_delta_has_writes_def split: prod.split)

lemma coordinator_flush_empties:
  "co_delta_start_epoch (coordinator_flush dops c b) = co_epoch c"
  "co_epoch (coordinator_flush dops c b) = co_epoch c"
  "co_flush_state (coordinator_flush dops c b) = co_flush_state c"
  "co_watermarks (coordinator_flush dops c b) = co_watermarks c"
  by (simp_all add: coordinator_flush_def Let_def flush_if_delta_has_writes_empties)

text \<open>When all is flushed the snapshot holds everything and everything is announced.\<close>

lemma coordinator_inv_flushed:
  assumes "coordinator_inv held fheld fvheld stored durable shows base c log"
    and "co_flush_state c = FlushIdle" and "co_flush_queue c = []" and "co_delta_start_epoch c = co_epoch c"
  shows "shows (cv_snapshot (co_view c)) = base @ map snd log" and "cv_frozen (co_view c) = []"
    and "wm_written (co_watermarks c) = wm_applied (co_watermarks c)"
proof -
  from assms(1) obtain nxt where vi: "view_inv held fvheld shows base c log nxt" and ti: "task_inv fheld stored shows base c log nxt"
    by (auto simp: coordinator_inv_def)
  show f: "cv_frozen (co_view c) = []" using ti assms(2,3) by (simp add: task_inv_def)
  with vi assms(4) have n: "nxt = co_epoch c" by (simp add: view_inv_def)
  then show "shows (cv_snapshot (co_view c)) = base @ map snd log" using vi by (simp add: view_inv_def writes_between_all)
  have "wm_written (co_watermarks c) + 1 = wm_applied (co_watermarks c) + 1"
    using ti vi n assms(2) by (simp add: task_inv_def view_inv_def)
  then show "wm_written (co_watermarks c) = wm_applied (co_watermarks c)" by simp
qed


definition sure_flusher :: "(nat list \<times> nat, nat list, nat list) flusher_ops" where
  "sure_flusher = \<lparr>flusher_flush_delta = (\<lambda>(st, n) f r. ((st @ f, n), Ok (st @ f))),
     flusher_flush_storage = (\<lambda>(st, n). ((st, length st), Ok ()))\<rparr>"

lemma sure_flusher_laws: "flusher_law sure_flusher (\<lambda>d. d) fst list_durable (\<lambda>d. d)" "flusher_succeeds sure_flusher"
  by (auto simp: flusher_law_def flusher_succeeds_def sure_flusher_def take_is_prefix split: prod.split)




end
