(* ===== verification/Ts_Model.thy ===== *)
theory Ts_Model
  imports Encoding "HOL-Library.Multiset"
begin

text \<open>
  The data types of the time series database (\<open>timeseries/src/model.rs\<close>, \<open>error.rs\<close>) and the arithmetic of
  time buckets (\<open>model.rs\<close>, \<open>util.rs\<close>).  A \<open>String\<close> is its UTF-8 bytes, which is also how Rust compares it; an \<open>f64\<close> is
  its bit pattern.  A \<open>SystemTime\<close> is a number of nanoseconds from the Unix epoch within the range of a 64-bit number of
  seconds.  Integer arithmetic wraps, as in a release build.

  The lemmas show that a sample lies in the hour bucket its timestamp is rounded to, that a label set made from a map does not
  depend on the order of the map, and where the size of a bucket is not what its documentation says.
\<close>

section \<open>Labels, samples, series\<close>

definition lit :: "string \<Rightarrow> bytes" where
  "lit s = map (\<lambda>c. word_of_nat (of_char c)) s"

type_synonym series_id = u32
type_synonym series_fingerprint = "128 word"
type_synonym bucket_start = u32
type_synonym bucket_size = u8

datatype ts_error =
    TsStorage string
  | TsEncoding string "int list"
  | TsInvalidInput string "int list"
  | TsInternal string
  | TsBackpressure

datatype query_error = InvalidQuery string | QueryTimeout | QueryExecution ts_error | QueryFailure string

primrec ts_error_of_encoding :: "encoding_error \<Rightarrow> ts_error" where
  "ts_error_of_encoding (EncodingError m args) = TsEncoding m args"

definition NORMAL_NAN :: u64 where "NORMAL_NAN = 0x7ff8000000000001"

definition STALE_NAN :: u64 where "STALE_NAN = 0x7ff0000000000002"

definition is_stale_nan :: "u64 \<Rightarrow> bool" where
  "is_stale_nan v = (v = STALE_NAN)"

datatype label = Label (label_name: bytes) (label_value: bytes)

text \<open>\<open>Ord for Label\<close>: by name, then by value.\<close>

instantiation label :: linorder
begin

definition less_eq_label :: "label \<Rightarrow> label \<Rightarrow> bool" where
  "less_eq_label a b \<longleftrightarrow> label_name a < label_name b \<or> label_name a = label_name b \<and> label_value a \<le> label_value b"

definition less_label :: "label \<Rightarrow> label \<Rightarrow> bool" where
  "less_label a b \<longleftrightarrow> label_name a < label_name b \<or> label_name a = label_name b \<and> label_value a < label_value b"

instance
  by standard (auto simp: less_eq_label_def less_label_def label.expand)

end

definition NAME_LABEL :: bytes where "NAME_LABEL = lit ''__name__''"

definition metric_name_label :: "bytes \<Rightarrow> label" where
  "metric_name_label name = Label NAME_LABEL name"

record ts_sample =
  timestamp_ms :: i64
  sample_value :: u64

definition sample_new :: "i64 \<Rightarrow> u64 \<Rightarrow> ts_sample" where
  "sample_new t v = \<lparr>timestamp_ms = t, sample_value = v\<rparr>"

datatype temporality = Cumulative | DeltaTemporality | Unspecified

datatype metric_type =
    Gauge
  | Sum bool temporality
  | Histogram temporality
  | ExponentialHistogram temporality
  | Summary

fun metric_type_as_str :: "metric_type \<Rightarrow> string" where
  "metric_type_as_str Gauge = ''gauge''"
| "metric_type_as_str (Sum monotonic t) = (if monotonic then ''counter'' else ''gauge'')"
| "metric_type_as_str (Histogram t) = ''histogram''"
| "metric_type_as_str (ExponentialHistogram t) = ''histogram''"
| "metric_type_as_str Summary = ''summary''"

record ts_series =
  series_labels :: "label list"
  series_metric_type :: "metric_type option"
  series_unit :: "bytes option"
  series_description :: "bytes option"
  series_samples :: "ts_sample list"

text \<open>\<open>Series::new\<close>, the builder and the name; \<^const>\<open>None\<close> is the panic of the assertion or the \<open>expect\<close>.\<close>

definition series_new :: "bytes \<Rightarrow> label list \<Rightarrow> ts_sample list \<Rightarrow> ts_series option" where
  "series_new name labels samples =
     (if list_ex (\<lambda>l. label_name l = NAME_LABEL) labels then None
      else Some \<lparr>series_labels = metric_name_label name # labels, series_metric_type = None, series_unit = None,
                 series_description = None, series_samples = samples\<rparr>)"

definition series_name :: "ts_series \<Rightarrow> bytes option" where
  "series_name s = map_option label_value (find (\<lambda>l. label_name l = NAME_LABEL) (series_labels s))"

record series_builder =
  sb_labels :: "label list"
  sb_metric_type :: "metric_type option"
  sb_unit :: "bytes option"
  sb_description :: "bytes option"
  sb_samples :: "ts_sample list"

definition series_builder_new :: "bytes \<Rightarrow> series_builder" where
  "series_builder_new name = \<lparr>sb_labels = [metric_name_label name], sb_metric_type = None, sb_unit = None,
     sb_description = None, sb_samples = []\<rparr>"

definition builder_label :: "series_builder \<Rightarrow> bytes \<Rightarrow> bytes \<Rightarrow> series_builder option" where
  "builder_label b name value =
     (if name = NAME_LABEL then None else Some (b\<lparr>sb_labels := sb_labels b @ [Label name value]\<rparr>))"

definition builder_metric_type :: "series_builder \<Rightarrow> metric_type \<Rightarrow> series_builder" where
  "builder_metric_type b t = b\<lparr>sb_metric_type := Some t\<rparr>"

definition builder_unit :: "series_builder \<Rightarrow> bytes \<Rightarrow> series_builder" where
  "builder_unit b u = b\<lparr>sb_unit := Some u\<rparr>"

definition builder_description :: "series_builder \<Rightarrow> bytes \<Rightarrow> series_builder" where
  "builder_description b d = b\<lparr>sb_description := Some d\<rparr>"

definition builder_sample :: "series_builder \<Rightarrow> i64 \<Rightarrow> u64 \<Rightarrow> series_builder" where
  "builder_sample b t v = b\<lparr>sb_samples := sb_samples b @ [sample_new t v]\<rparr>"

definition builder_build :: "series_builder \<Rightarrow> ts_series" where
  "builder_build b = \<lparr>series_labels = sb_labels b, series_metric_type = sb_metric_type b, series_unit = sb_unit b,
     series_description = sb_description b, series_samples = sb_samples b\<rparr>"

section \<open>Label sets and query results\<close>

type_synonym label_set = "label list"

definition labels_get :: "label_set \<Rightarrow> bytes \<Rightarrow> bytes option" where
  "labels_get ls name = map_option label_value (find (\<lambda>l. label_name l = name) ls)"

definition labels_metric_name :: "label_set \<Rightarrow> bytes" where
  "labels_metric_name ls = (case labels_get ls NAME_LABEL of Some v \<Rightarrow> v | None \<Rightarrow> [])"

text \<open>To and from a \<open>HashMap\<close>, given as its entries in the order of an iteration.\<close>

definition labels_from_map :: "(bytes \<times> bytes) list \<Rightarrow> label_set" where
  "labels_from_map kvs = sort (map (\<lambda>(name, value). Label name value) kvs)"

definition labels_to_map :: "label_set \<Rightarrow> (bytes \<rightharpoonup> bytes)" where
  "labels_to_map ls = foldl (\<lambda>m l. m(label_name l \<mapsto> label_value l)) Map.empty ls"

record instant_sample =
  is_labels :: label_set
  is_timestamp_ms :: i64
  is_value :: u64

record range_sample =
  rs_labels :: label_set
  rs_samples :: "(i64 \<times> u64) list"

datatype query_value = ScalarValue i64 u64 | VectorValue "instant_sample list" | MatrixValue "range_sample list"

fun into_matrix :: "query_value \<Rightarrow> range_sample list" where
  "into_matrix (ScalarValue t v) = [\<lparr>rs_labels = [], rs_samples = [(t, v)]\<rparr>]"
| "into_matrix (VectorValue samples) =
     map (\<lambda>s. \<lparr>rs_labels = is_labels s, rs_samples = [(is_timestamp_ms s, is_value s)]\<rparr>) samples"
| "into_matrix (MatrixValue range_samples) = range_samples"

text \<open>\<open>query_value_to_range_samples\<close> of \<open>tsdb.rs\<close>.\<close>

fun query_value_to_range_samples :: "query_value \<Rightarrow> (range_sample list, query_error) result" where
  "query_value_to_range_samples (MatrixValue series) = Ok series"
| "query_value_to_range_samples (ScalarValue t v) = Ok [\<lparr>rs_labels = [], rs_samples = [(t, v)]\<rparr>]"
| "query_value_to_range_samples (VectorValue samples) =
     Ok (map (\<lambda>s. \<lparr>rs_labels = is_labels s, rs_samples = [(is_timestamp_ms s, is_value s)]\<rparr>) samples)"

record metric_metadata =
  md_metric_name :: bytes
  md_metric_type :: "metric_type option"
  md_description :: "bytes option"
  md_unit :: "bytes option"

section \<open>Time\<close>

type_synonym system_time = int

abbreviation ns_per_s :: int where "ns_per_s \<equiv> 1000000000"
abbreviation ns_per_ms :: int where "ns_per_ms \<equiv> 1000000"

definition max_system_time :: system_time where
  "max_system_time = 9223372036854775807 * ns_per_s + 999999999"

definition min_system_time :: system_time where
  "min_system_time = - 9223372036854775808 * ns_per_s"

text \<open>\<open>hour_bucket_in_epoch_minutes\<close>.\<close>

definition hour_bucket_in_epoch_minutes :: "system_time \<Rightarrow> (u32, ts_error) result" where
  "hour_bucket_in_epoch_minutes time =
     (if time < 0 then Err (TsInvalidInput ''Invalid timestamp: {}'' [])
      else
        let mins = time div ns_per_s div 60; bucket = mins - mins mod 60 in
        if bucket > 4294967295 then Err (TsInvalidInput ''Integer conversion error: {}'' [])
        else Ok (word_of_int bucket))"

definition hour_bucket_unix_secs :: "system_time \<Rightarrow> u64 option" where
  "hour_bucket_unix_secs time =
     (if time < 0 then None
      else let secs = time div ns_per_s in Some (word_of_int (secs - secs mod 3600)))"

definition normalize_str :: "bytes \<Rightarrow> bytes option" where
  "normalize_str s = (if s = [] then None else Some s)"

definition time_bucket_size_hours :: "bucket_size \<Rightarrow> u32" where
  "time_bucket_size_hours sz = (if sz = 0 \<or> sz > 15 then 0 else 2 ^ unat (sz - 1))"

record time_bucket =
  tb_start :: bucket_start
  tb_size :: bucket_size

definition time_bucket_hour :: "bucket_start \<Rightarrow> time_bucket" where
  "time_bucket_hour start = \<lparr>tb_start = start, tb_size = 1\<rparr>"

definition round_to_hour :: "system_time \<Rightarrow> (time_bucket, ts_error) result" where
  "round_to_hour time = result_map time_bucket_hour (hour_bucket_in_epoch_minutes time)"

text \<open>\<open>size.pow(2) * 60\<close> is computed in eight bits and widened afterwards.\<close>

definition size_in_mins :: "time_bucket \<Rightarrow> u32" where
  "size_in_mins b = ucast (tb_size b ^ 2 * 60)"

text \<open>
  \<open>range_bounds_to_system_time\<close>: exclusive bounds move by one millisecond; the addition panics past the
  last representable time and the subtraction falls back to the epoch.
\<close>

datatype 'a time_bound = TimeIncluded 'a | TimeExcluded 'a | TimeUnbounded

definition range_bounds_to_system_time ::
    "system_time time_bound \<Rightarrow> system_time time_bound \<Rightarrow> (system_time \<times> system_time, unit) result" where
  "range_bounds_to_system_time start_bound end_bound =
     result_bind
       (case start_bound of
          TimeIncluded t \<Rightarrow> Ok t
        | TimeExcluded t \<Rightarrow> if t + ns_per_ms > max_system_time then Panic else Ok (t + ns_per_ms)
        | TimeUnbounded \<Rightarrow> Ok 0)
       (\<lambda>start.
          let end_time = (case end_bound of
               TimeIncluded t \<Rightarrow> t
             | TimeExcluded t \<Rightarrow> if t - ns_per_ms < min_system_time then 0 else t - ns_per_ms
             | TimeUnbounded \<Rightarrow> 9223372036854775807 * ns_per_s)
          in Ok (start, end_time))"

definition range_bounds_to_secs ::
    "system_time time_bound \<Rightarrow> system_time time_bound \<Rightarrow> (i64 \<times> i64, query_error) result" where
  "range_bounds_to_secs start_bound end_bound =
     (case range_bounds_to_system_time start_bound end_bound of
        Ok (start, end_time) \<Rightarrow>
          if start < 0 then Err (InvalidQuery ''start time is before Unix epoch'')
          else if end_time < 0 then Err (InvalidQuery ''end time is before Unix epoch'')
          else Ok (word_of_int (start div ns_per_s), word_of_int (end_time div ns_per_s))
      | _ \<Rightarrow> Panic)"

text \<open>\<open>system_time_to_ms\<close> and \<open>duration_to_ms\<close> of \<open>tsdb.rs\<close>; a duration is a number of nanoseconds.\<close>

definition system_time_to_ms :: "system_time \<Rightarrow> i64" where
  "system_time_to_ms t = (if t < 0 then 0 else word_of_int (t div ns_per_ms))"

definition duration_to_ms :: "nat \<Rightarrow> i64" where
  "duration_to_ms d = word_of_int (min (int d div ns_per_ms) 9223372036854775807)"

section \<open>Buckets and samples\<close>

text \<open>
  The range of a bucket in milliseconds, as \<open>delta.rs\<close> computes it with 64-bit signed integers.
\<close>

definition bucket_start_ms :: "time_bucket \<Rightarrow> i64" where
  "bucket_start_ms b = ucast (tb_start b) * 60 * 1000"

definition bucket_end_ms :: "time_bucket \<Rightarrow> i64" where
  "bucket_end_ms b = (ucast (tb_start b) + ucast (size_in_mins b)) * 60 * 1000"

definition in_bucket :: "time_bucket \<Rightarrow> i64 \<Rightarrow> bool" where
  "in_bucket b t \<longleftrightarrow> \<not> (t <s bucket_start_ms b \<or> bucket_end_ms b \<le>s t)"

lemma size_in_mins_hour [simp]: "size_in_mins (time_bucket_hour s) = 60"
  by (simp add: size_in_mins_def time_bucket_hour_def)

lemma sint_small:
  assumes "0 \<le> k" and "k < 9223372036854775808"
  shows "sint (word_of_int k :: i64) = k"
  using assms by (simp add: sint_sbintrunc' signed_take_bit_int_eq_self)

lemma size_in_mins_less: "uint (size_in_mins b) < 256"
  using uint_bounded [of "tb_size b ^ 2 * 60"] by (simp add: size_in_mins_def unsigned_ucast_eq take_bit_int_eq_self)

lemma bucket_bounds:
  "sint (bucket_start_ms b) = uint (tb_start b) * 60000"
  "sint (bucket_end_ms b) = (uint (tb_start b) + uint (size_in_mins b)) * 60000"
proof -
  have u: "0 \<le> uint (tb_start b)" "uint (tb_start b) < 4294967296" using uint_bounded [of "tb_start b"] by simp_all
  have "bucket_start_ms b = word_of_int (uint (tb_start b) * 60000)"
    by (simp only: bucket_start_ms_def ucast_eq of_int_mult of_int_numeral mult.assoc) simp
  then show "sint (bucket_start_ms b) = uint (tb_start b) * 60000"
    using u by (simp only:) (rule sint_small; linarith)
  have "bucket_end_ms b = word_of_int ((uint (tb_start b) + uint (size_in_mins b)) * 60000)"
    by (simp only: bucket_end_ms_def ucast_eq of_int_mult of_int_add of_int_numeral mult.assoc) simp
  then show "sint (bucket_end_ms b) = (uint (tb_start b) + uint (size_in_mins b)) * 60000"
    using u size_in_mins_less [of b] by (simp only:) (rule sint_small; simp)
qed

lemma in_bucket_iff:
  "in_bucket b t \<longleftrightarrow> uint (tb_start b) * 60000 \<le> sint t \<and> sint t < (uint (tb_start b) + uint (size_in_mins b)) * 60000"
  by (auto simp: in_bucket_def word_sless_alt word_sle_eq bucket_bounds)

text \<open>A sample lies in the hour its timestamp is rounded to.\<close>

lemma uint_u32_of_int: "0 \<le> k \<Longrightarrow> k \<le> 4294967295 \<Longrightarrow> uint (word_of_int k :: u32) = k"
  by (simp add: uint_word_of_int_eq take_bit_int_eq_self)

lemma round_to_hour_in_bucket:
  assumes "round_to_hour (sint t * ns_per_ms) = Ok b"
  shows "in_bucket b t"
proof -
  define m where "m = sint t * ns_per_ms div ns_per_s div 60"
  define k where "k = m - m mod 60"
  have pos: "0 \<le> sint t" and le: "k \<le> 4294967295" and b: "b = time_bucket_hour (word_of_int k)"
    using assms
    by (auto simp: round_to_hour_def hour_bucket_in_epoch_minutes_def Let_def k_def m_def split: if_splits)
  have m: "m = sint t div 60000"
    using zdiv_zmult2_eq [of 60 "sint t * 1000000" 1000000000] div_mult_mult2 [of 1000000 "sint t" 60000] by (simp add: m_def)
  have k: "k = 60 * (m div 60)" by (simp add: k_def minus_mod_eq_mult_div)
  then have "0 \<le> k" using pos m by (simp add: pos_imp_zdiv_nonneg_iff)
  then have start: "uint (tb_start b) = k"
    using uint_u32_of_int le by (simp add: b time_bucket_hour_def)
  have "60000 * m \<le> sint t" "sint t < 60000 * m + 60000"
    using mult_div_mod_eq [of 60000 "sint t"] pos_mod_bound [of 60000 "sint t"] pos_mod_sign [of 60000 "sint t"]
    by (simp_all add: m del: mult_div_mod_eq pos_mod_bound pos_mod_sign)
  moreover have "k \<le> m" "m \<le> k + 59" using pos_mod_bound [of 60 m] by (simp_all add: k_def)
  ultimately have "k * 60000 \<le> sint t" "sint t < (k + 60) * 60000" by (simp_all add: algebra_simps)
  with start show ?thesis by (simp add: in_bucket_iff) (simp add: b)
qed

lemma into_matrix_total: "query_value_to_range_samples q = Ok (into_matrix q)"
  by (cases q) simp_all

text \<open>A label set does not depend on the order in which the map is iterated.\<close>

lemma labels_from_map_order:
  assumes "mset kvs = mset kvs'"
  shows "labels_from_map kvs = labels_from_map kvs'"
  unfolding labels_from_map_def
  by (rule properties_for_sort) (use assms in \<open>simp_all add: mset_map\<close>)

lemma labels_get_found: "labels_get ls n = Some v \<Longrightarrow> Label n v \<in> set ls"
  by (auto simp: labels_get_def find_Some_iff)

lemma labels_get_none: "labels_get ls n = None \<longleftrightarrow> n \<notin> label_name ` set ls"
  by (auto simp: labels_get_def find_None_iff)

text \<open>
  C38. The length in minutes that range checks and bucket lookups use is the documented length of a bucket
  of size \<open>n\<close>, \<open>2\<^bsup>n - 1\<^esup>\<close> hours, only for size 1: the code squares the size, in eight bits, so size 2 is twice as long as
  documented and a bucket of size 3, four hours by the documentation, is 28 minutes long.
\<close>

theorem bucket_length_only_hour:
  assumes "1 \<le> tb_size b" and "tb_size b \<le> 15"
  shows "(size_in_mins b = time_bucket_size_hours (tb_size b) * 60 \<longleftrightarrow> tb_size b = 1)
    \<and> (tb_size b = 2 \<longrightarrow> size_in_mins b = 240) \<and> (tb_size b = 3 \<longrightarrow> size_in_mins b = 28)"
proof -
  have n: "unat (tb_size b) \<in> set [1..<16]" using assms by (simp add: word_le_nat_alt)
  have all: "\<forall>n \<in> set [1..<16]. \<forall>b. tb_size b = word_of_nat n \<longrightarrow>
      size_in_mins b = time_bucket_size_hours (tb_size b) * 60 \<longleftrightarrow> tb_size b = 1"
    by (simp add: upt_conv_Cons size_in_mins_def time_bucket_size_hours_def)
  have "size_in_mins b = time_bucket_size_hours (tb_size b) * 60 \<longleftrightarrow> tb_size b = 1"
    using spec [OF bspec [OF all n], of b] by simp
  then show ?thesis by (simp add: size_in_mins_def)
qed

theorem bucket_length_only_hour_witness:
  "size_in_mins \<lparr>tb_start = 0, tb_size = 3\<rparr> = 28 \<and> size_in_mins \<lparr>tb_start = 0, tb_size = 3\<rparr> \<noteq> time_bucket_size_hours 3 * 60"
  using bucket_length_only_hour [of "\<lparr>tb_start = 0, tb_size = 3\<rparr>"] by auto

end
