(* ===== verification/Ts_Serde.thy ===== *)
theory Ts_Serde
  imports Ts_Model Terminated_Bytes
begin

unbundle bit_operations_syntax

text \<open>
  Keys and values of the time series database (\<open>timeseries/src/serde\<close>): the record types with the bucket size
  in the low half of the tag byte, the five keys, and the values but for the compressed samples.  Encoders that may panic (a
  bucket size above 15, a string longer than 65535 bytes) return an option.  A roaring bitmap is the set of its numbers; its
  serialised form is that of the \<open>roaring\<close> crate, which is a parameter.

  The lemmas show that keys and values decode back, that the keys of one bucket and of one label name are exactly what their
  range selects, and that sample keys sort by bucket, metric name and series.
\<close>

section \<open>Record types and prefixes\<close>

definition TS_KEY_VERSION :: u8 where "TS_KEY_VERSION = 0x01"

definition TS_SUBSYSTEM :: u8 where "TS_SUBSYSTEM = 0x01"

datatype ts_record_type = BucketListType | SeriesDictionaryType | ForwardIndexType | InvertedIndexType | TimeSeriesType

primrec ts_record_type_id :: "ts_record_type \<Rightarrow> u8" where
  "ts_record_type_id BucketListType = 0x01"
| "ts_record_type_id SeriesDictionaryType = 0x02"
| "ts_record_type_id ForwardIndexType = 0x03"
| "ts_record_type_id InvertedIndexType = 0x04"
| "ts_record_type_id TimeSeriesType = 0x05"

definition ts_record_type_from_id :: "u8 \<Rightarrow> (ts_record_type, encoding_error) result" where
  "ts_record_type_from_id i =
     (if i = 0x01 then Ok BucketListType
      else if i = 0x02 then Ok SeriesDictionaryType
      else if i = 0x03 then Ok ForwardIndexType
      else if i = 0x04 then Ok InvertedIndexType
      else if i = 0x05 then Ok TimeSeriesType
      else Err (EncodingError ''invalid record type: 0x{:02x}'' [uint i]))"

definition ts_record_type_from_prefix :: "key_prefix \<Rightarrow> (ts_record_type, encoding_error) result" where
  "ts_record_type_from_prefix p =
     (if kp_subsystem p \<noteq> TS_SUBSYSTEM
      then Err (EncodingError ''invalid subsystem: expected 0x{:02x}, got 0x{:02x}''
                  [uint TS_SUBSYSTEM, uint (kp_subsystem p)])
      else ts_record_type_from_id (drop_bit 4 (kp_tag p AND 0xF0)))"

definition prefix_with_bucket_size :: "ts_record_type \<Rightarrow> bucket_size \<Rightarrow> key_prefix option" where
  "prefix_with_bucket_size rt bs =
     Option.bind (record_tag_new (ts_record_type_id rt) bs) (\<lambda>tag. key_prefix_new TS_SUBSYSTEM TS_KEY_VERSION (as_byte tag))"

definition bucket_size_from_prefix :: "key_prefix \<Rightarrow> bucket_size option" where
  "bucket_size_from_prefix p = (let sz = kp_tag p AND 0x0F in if sz = 0 then None else Some sz)"

text \<open>\<open>write_bucket_scoped_prefix\<close>, with which every bucket-scoped key begins.\<close>

definition write_bucket_scoped_prefix :: "ts_record_type \<Rightarrow> time_bucket \<Rightarrow> bytes option" where
  "write_bucket_scoped_prefix rt b =
     map_option (\<lambda>p. key_prefix_to_bytes p @ put_u32 (tb_start b)) (prefix_with_bucket_size rt (tb_size b))"

definition bucket_range :: "ts_record_type \<Rightarrow> time_bucket \<Rightarrow> bytes_range option" where
  "bucket_range rt b = map_option bytes_range_prefix (write_bucket_scoped_prefix rt b)"

text \<open>The checks every decoder of a bucket-scoped key makes; the messages are those of the caller.\<close>

definition decode_scope :: "ts_record_type \<Rightarrow> string \<Rightarrow> string \<Rightarrow> bytes \<Rightarrow> (bucket_size, encoding_error) result" where
  "decode_scope rt wrong_type unscoped buf =
     result_bind (result_map_err encoding_error_from (from_bytes_with_validation buf TS_SUBSYSTEM TS_KEY_VERSION)) (\<lambda>p.
     result_bind (ts_record_type_from_prefix p) (\<lambda>record_type.
       if record_type \<noteq> rt then Err (EncodingError wrong_type [uint (ts_record_type_id record_type)])
       else case bucket_size_from_prefix p of
              None \<Rightarrow> Err (EncodingError unscoped [])
            | Some bs \<Rightarrow> Ok bs))"

definition decode_bucket_prefix :: "ts_record_type \<Rightarrow> bytes \<Rightarrow> (time_bucket, encoding_error) result" where
  "decode_bucket_prefix rt buf =
     result_bind (decode_scope rt ''invalid record type: expected {:?}, got {:?}'' ''record should be bucket-scoped'' buf) (\<lambda>bs.
       if length buf < 7 then Err (EncodingError ''buffer too short for bucket prefix'' [])
       else Ok \<lparr>tb_start = get_u32 (take 4 (drop 3 buf)), tb_size = bs\<rparr>)"

section \<open>Keys\<close>

definition bucket_list_key_encode :: bytes where
  "bucket_list_key_encode = [TS_SUBSYSTEM, TS_KEY_VERSION, push_bit 4 (ts_record_type_id BucketListType) OR 0]"

definition bucket_list_key_decode :: "bytes \<Rightarrow> (unit, encoding_error) result" where
  "bucket_list_key_decode buf =
     result_bind (result_map_err encoding_error_from (from_bytes_with_validation buf TS_SUBSYSTEM TS_KEY_VERSION)) (\<lambda>p.
     result_bind (ts_record_type_from_prefix p) (\<lambda>record_type.
       if record_type \<noteq> BucketListType
       then Err (EncodingError ''invalid record type: expected BucketList, got {:?}'' [uint (ts_record_type_id record_type)])
       else if bucket_size_from_prefix p \<noteq> None
       then Err (EncodingError ''BucketListKey should be global-scoped (bucket_size should be None)'' [])
       else Ok ()))"

record series_dictionary_key =
  sdk_bucket :: time_bucket
  sdk_fingerprint :: series_fingerprint

definition series_dictionary_key_encode :: "series_dictionary_key \<Rightarrow> bytes option" where
  "series_dictionary_key_encode k =
     map_option (\<lambda>p. p @ be_enc 16 (unat (sdk_fingerprint k))) (write_bucket_scoped_prefix SeriesDictionaryType (sdk_bucket k))"

definition series_dictionary_key_decode :: "bytes \<Rightarrow> (series_dictionary_key, encoding_error) result" where
  "series_dictionary_key_decode buf =
     (if length buf < 3 + 4 + 16 then Err (EncodingError ''Buffer too short for SeriesDictionaryKey'' [])
      else result_map
        (\<lambda>bs. \<lparr>sdk_bucket = \<lparr>tb_start = get_u32 (take 4 (drop 3 buf)), tb_size = bs\<rparr>,
               sdk_fingerprint = word_of_nat (be_val (take 16 (drop 7 buf)))\<rparr>)
        (decode_scope SeriesDictionaryType ''invalid record type: expected SeriesDictionary, got {:?}''
           ''SeriesDictionaryKey should be bucket-scoped'' buf))"

record forward_index_key =
  fik_bucket :: time_bucket
  fik_series_id :: series_id

definition forward_index_key_encode :: "forward_index_key \<Rightarrow> bytes option" where
  "forward_index_key_encode k =
     map_option (\<lambda>p. p @ put_u32 (fik_series_id k)) (write_bucket_scoped_prefix ForwardIndexType (fik_bucket k))"

definition forward_index_key_decode :: "bytes \<Rightarrow> (forward_index_key, encoding_error) result" where
  "forward_index_key_decode buf =
     (if length buf < 3 + 4 + 4 then Err (EncodingError ''Buffer too short for ForwardIndexKey'' [])
      else result_map
        (\<lambda>bs. \<lparr>fik_bucket = \<lparr>tb_start = get_u32 (take 4 (drop 3 buf)), tb_size = bs\<rparr>,
               fik_series_id = get_u32 (take 4 (drop 7 buf))\<rparr>)
        (decode_scope ForwardIndexType ''invalid record type: expected ForwardIndex, got {:?}''
           ''ForwardIndexKey should be bucket-scoped'' buf))"

record inverted_index_key =
  iik_bucket :: time_bucket
  iik_attribute :: bytes
  iik_value :: bytes

definition attribute_prefix :: "time_bucket \<Rightarrow> bytes \<Rightarrow> bytes option" where
  "attribute_prefix b attribute =
     map_option (\<lambda>p. p @ terminated_serialize attribute) (write_bucket_scoped_prefix InvertedIndexType b)"

definition inverted_index_key_encode :: "inverted_index_key \<Rightarrow> bytes option" where
  "inverted_index_key_encode k =
     map_option (\<lambda>p. p @ iik_value k) (attribute_prefix (iik_bucket k) (iik_attribute k))"

definition attribute_range :: "time_bucket \<Rightarrow> bytes \<Rightarrow> bytes_range option" where
  "attribute_range b attribute = map_option bytes_range_prefix (attribute_prefix b attribute)"

definition inverted_index_key_decode :: "bytes \<Rightarrow> (inverted_index_key, encoding_error) result" where
  "inverted_index_key_decode buf =
     (if length buf < 3 + 4 then Err (EncodingError ''Buffer too short for InvertedIndexKey'' [])
      else
        result_bind (decode_scope InvertedIndexType ''invalid record type: expected InvertedIndex, got {:?}''
           ''InvertedIndexKey should be bucket-scoped'' buf) (\<lambda>bs.
        result_bind (result_map_err encoding_error_from (terminated_deserialize (drop 4 (drop 3 buf)))) (\<lambda>(attribute, slice).
          if \<not> utf8_valid attribute then Err (EncodingError ''Invalid UTF-8 in attribute: {}'' [])
          else if \<not> utf8_valid slice then Err (EncodingError ''Invalid UTF-8 in value: {}'' [])
          else Ok \<lparr>iik_bucket = \<lparr>tb_start = get_u32 (take 4 (drop 3 buf)), tb_size = bs\<rparr>,
                   iik_attribute = attribute, iik_value = slice\<rparr>)))"

record time_series_key =
  tsk_bucket :: time_bucket
  tsk_metric_name :: bytes
  tsk_series_id :: series_id

definition time_series_key_encode :: "time_series_key \<Rightarrow> bytes option" where
  "time_series_key_encode k =
     map_option (\<lambda>p. p @ terminated_serialize (tsk_metric_name k) @ put_u32 (tsk_series_id k))
       (write_bucket_scoped_prefix TimeSeriesType (tsk_bucket k))"

definition time_series_key_decode :: "bytes \<Rightarrow> (time_series_key, encoding_error) result" where
  "time_series_key_decode buf =
     (if length buf < 3 + 4 + 1 + 4 then Err (EncodingError ''Buffer too short for TimeSeriesKey'' [])
      else
        result_bind (decode_scope TimeSeriesType ''invalid record type: expected TimeSeries, got {:?}''
           ''TimeSeriesKey should be bucket-scoped'' buf) (\<lambda>bs.
        result_bind (result_map_err encoding_error_from (terminated_deserialize (drop 7 buf))) (\<lambda>(metric_name, slice).
          if \<not> utf8_valid metric_name then Err (EncodingError ''Invalid UTF-8 in metric_name: {}'' [])
          else if length slice < 4 then Err (EncodingError ''Buffer too short for series_id in TimeSeriesKey'' [])
          else Ok \<lparr>tsk_bucket = \<lparr>tb_start = get_u32 (take 4 (drop 3 buf)), tb_size = bs\<rparr>,
                   tsk_metric_name = metric_name, tsk_series_id = get_u32 (take 4 slice)\<rparr>)))"

section \<open>Arrays\<close>

fun encode_items :: "('a \<Rightarrow> bytes option) \<Rightarrow> 'a list \<Rightarrow> bytes option" where
  "encode_items enc [] = Some []"
| "encode_items enc (x # xs) = Option.bind (enc x) (\<lambda>b. map_option (\<lambda>bs. b @ bs) (encode_items enc xs))"

definition encode_array :: "('a \<Rightarrow> bytes option) \<Rightarrow> 'a list \<Rightarrow> bytes option" where
  "encode_array enc items =
     (if length items > 65535 then None
      else map_option (\<lambda>bs. put_u16_le (word_of_nat (length items)) @ bs) (encode_items enc items))"

fun decode_items :: "(bytes \<Rightarrow> ('a \<times> bytes, encoding_error) result) \<Rightarrow> nat \<Rightarrow> bytes \<Rightarrow> ('a list \<times> bytes, encoding_error) result" where
  "decode_items dec 0 buf = Ok ([], buf)"
| "decode_items dec (Suc n) buf =
     result_bind (dec buf) (\<lambda>(x, buf). result_map (\<lambda>(xs, buf). (x # xs, buf)) (decode_items dec n buf))"

definition decode_array :: "(bytes \<Rightarrow> ('a \<times> bytes, encoding_error) result) \<Rightarrow> bytes \<Rightarrow> ('a list \<times> bytes, encoding_error) result" where
  "decode_array dec buf =
     (if length buf < 2 then Err (EncodingError ''Buffer too short for array count'' [])
      else decode_items dec (unat (get_u16_le (take 2 buf))) (drop 2 buf))"

definition decode_fixed_element_array ::
    "(bytes \<Rightarrow> ('a \<times> bytes, encoding_error) result) \<Rightarrow> nat \<Rightarrow> bytes \<Rightarrow> ('a list, encoding_error) result" where
  "decode_fixed_element_array dec element_size buf =
     result_bind (validate_fixed_element_array_len (length buf) element_size) (\<lambda>count.
       result_map fst (decode_items dec count buf))"

section \<open>Values\<close>

type_synonym bucket_list_value = "(bucket_size \<times> bucket_start) list"

definition bucket_entry_encode :: "bucket_size \<times> bucket_start \<Rightarrow> bytes" where
  "bucket_entry_encode e = [fst e] @ put_u32_le (snd e)"

definition bucket_entry_decode :: "bytes \<Rightarrow> ((bucket_size \<times> bucket_start) \<times> bytes, encoding_error) result" where
  "bucket_entry_decode buf =
     (if length buf < 1 + 4 then Err (EncodingError ''Buffer too short for (TimeBucketSize, TimeBucket)'' [])
      else let bs = buf ! 0; buf = drop 1 buf in Ok ((bs, get_u32_le (take 4 buf)), drop 4 buf))"

definition bucket_list_value_encode :: "bucket_list_value \<Rightarrow> bytes" where
  "bucket_list_value_encode buckets = concat (map bucket_entry_encode buckets)"

definition bucket_list_value_decode :: "bytes \<Rightarrow> (bucket_list_value, encoding_error) result" where
  "bucket_list_value_decode buf = decode_fixed_element_array bucket_entry_decode (1 + 4) buf"

definition series_dictionary_value_encode :: "series_id \<Rightarrow> bytes" where
  "series_dictionary_value_encode i = put_u32_le i"

definition series_dictionary_value_decode :: "bytes \<Rightarrow> (series_id, encoding_error) result" where
  "series_dictionary_value_decode buf =
     (if length buf < 4 then Err (EncodingError ''Buffer too short for SeriesId'' []) else Ok (get_u32_le (take 4 buf)))"

record metric_meta =
  mm_metric_type :: u8
  mm_flags :: u8

fun temporality_bits :: "temporality \<Rightarrow> u8" where
  "temporality_bits Unspecified = 0"
| "temporality_bits Cumulative = 1"
| "temporality_bits DeltaTemporality = 2"

text \<open>\<open>From<MetricType>\<close> and \<open>From<Option<MetricType>>\<close> for \<open>MetricMeta\<close>.\<close>

definition metric_meta_of_type :: "metric_type \<Rightarrow> metric_meta" where
  "metric_meta_of_type t =
     (case (case t of
              Gauge \<Rightarrow> (1, Unspecified, False)
            | Sum monotonic temporality \<Rightarrow> (2, temporality, monotonic)
            | Histogram temporality \<Rightarrow> (3, temporality, False)
            | ExponentialHistogram temporality \<Rightarrow> (4, temporality, False)
            | Summary \<Rightarrow> (5, Unspecified, False)) of
        (val, temporality, monotonic) \<Rightarrow>
          \<lparr>mm_metric_type = val, mm_flags = temporality_bits temporality OR (if monotonic then 0x04 else 0x00)\<rparr>)"

definition metric_meta_of :: "metric_type option \<Rightarrow> metric_meta" where
  "metric_meta_of t = (case t of Some mt \<Rightarrow> metric_meta_of_type mt | None \<Rightarrow> \<lparr>mm_metric_type = 0, mm_flags = 0\<rparr>)"

definition metric_meta_decode :: "bytes \<Rightarrow> (metric_meta \<times> bytes, encoding_error) result" where
  "metric_meta_decode buf =
     (if length buf < 2 then Err (EncodingError ''Buffer too short for MetricMeta'' [])
      else Ok (\<lparr>mm_metric_type = buf ! 0, mm_flags = buf ! 1\<rparr>, drop 2 buf))"

definition label_encode :: "label \<Rightarrow> bytes option" where
  "label_encode l =
     Option.bind (encode_utf8 (label_name l)) (\<lambda>n. map_option (\<lambda>v. n @ v) (encode_utf8 (label_value l)))"

definition label_decode :: "bytes \<Rightarrow> (label \<times> bytes, encoding_error) result" where
  "label_decode buf =
     result_bind (decode_utf8 buf) (\<lambda>(name, buf). result_map (\<lambda>(value, buf). (Label name value, buf)) (decode_utf8 buf))"

record forward_index_value =
  fiv_metric_unit :: "bytes option"
  fiv_metric_meta :: metric_meta
  fiv_label_count :: u16
  fiv_labels :: "label list"

definition forward_index_value_encode :: "forward_index_value \<Rightarrow> bytes option" where
  "forward_index_value_encode v =
     Option.bind (encode_optional_utf8 (fiv_metric_unit v)) (\<lambda>unit.
       map_option (\<lambda>labels. unit @ [mm_metric_type (fiv_metric_meta v), mm_flags (fiv_metric_meta v)]
          @ put_u16_le (fiv_label_count v) @ labels)
         (encode_array label_encode (fiv_labels v)))"

definition forward_index_value_decode :: "bytes \<Rightarrow> (forward_index_value, encoding_error) result" where
  "forward_index_value_decode buf =
     result_bind (decode_optional_utf8 buf) (\<lambda>(unit, slice).
     result_bind (metric_meta_decode slice) (\<lambda>(meta, slice).
       if length slice < 2 then Err (EncodingError ''Buffer too short for label_count'' [])
       else
         let label_count = get_u16_le (take 2 slice); slice = drop 2 slice in
         result_bind (decode_array label_decode slice) (\<lambda>(labels, _).
           if length labels \<noteq> unat label_count
           then Err (EncodingError ''Label count mismatch: expected {}, got {}'' [uint label_count, int (length labels)])
           else Ok \<lparr>fiv_metric_unit = unit, fiv_metric_meta = meta, fiv_label_count = label_count, fiv_labels = labels\<rparr>)))"

text \<open>\<open>SeriesSpec\<close> of \<open>index.rs\<close>, the value it is stored as, and back.\<close>

record series_spec =
  spec_unit :: "bytes option"
  spec_metric_type :: "metric_type option"
  spec_labels :: "label list"

definition forward_index_value_of :: "series_spec \<Rightarrow> forward_index_value" where
  "forward_index_value_of s = \<lparr>fiv_metric_unit = spec_unit s, fiv_metric_meta = metric_meta_of (spec_metric_type s),
     fiv_label_count = word_of_nat (length (spec_labels s)), fiv_labels = spec_labels s\<rparr>"

definition meta_temporality :: "metric_meta \<Rightarrow> temporality" where
  "meta_temporality m =
     (let t = mm_flags m AND 0x03 in
      if t = 0 then Unspecified else if t = 1 then Cumulative else if t = 2 then DeltaTemporality else Unspecified)"

definition meta_monotonic :: "metric_meta \<Rightarrow> bool" where
  "meta_monotonic m = (mm_flags m AND 0x04 \<noteq> 0)"

definition series_spec_of :: "forward_index_value \<Rightarrow> series_spec" where
  "series_spec_of v =
     (let m = fiv_metric_meta v; temporality = meta_temporality m; t = mm_metric_type m;
          metric_type = (if t = 0 then None
            else if t = 1 then Some Gauge
            else if t = 2 then Some (Sum (meta_monotonic m) temporality)
            else if t = 3 then Some (Histogram temporality)
            else if t = 4 then Some (ExponentialHistogram temporality)
            else if t = 5 then Some Summary
            else None)
      in \<lparr>spec_unit = fiv_metric_unit v, spec_metric_type = metric_type, spec_labels = fiv_labels v\<rparr>)"

text \<open>The serialised form of a bitmap, of the \<open>roaring\<close> crate.\<close>

record roaring_ops =
  roaring_serialize :: "u32 set \<Rightarrow> (bytes, string) result"
  roaring_deserialize :: "bytes \<Rightarrow> (u32 set, string) result"

definition inverted_index_value_encode :: "roaring_ops \<Rightarrow> u32 set \<Rightarrow> (bytes, encoding_error) result" where
  "inverted_index_value_encode ro postings =
     result_map_err (\<lambda>_. EncodingError ''Failed to serialize RoaringBitmap: {}'' []) (roaring_serialize ro postings)"

definition inverted_index_value_decode :: "roaring_ops \<Rightarrow> bytes \<Rightarrow> (u32 set, encoding_error) result" where
  "inverted_index_value_decode ro buf =
     result_map_err (\<lambda>_. EncodingError ''Failed to deserialize RoaringBitmap: {}'' []) (roaring_deserialize ro buf)"

section \<open>Keys decode back\<close>

definition bucket_ok :: "time_bucket \<Rightarrow> bool" where
  "bucket_ok b \<longleftrightarrow> 1 \<le> tb_size b \<and> tb_size b \<le> 15"

definition scope_tag :: "ts_record_type \<Rightarrow> time_bucket \<Rightarrow> u8" where
  "scope_tag rt b = push_bit 4 (ts_record_type_id rt) OR tb_size b"

lemma record_type_id_bounds: "0 < ts_record_type_id rt" "ts_record_type_id rt \<le> 0x0F"
  by (cases rt; simp)+

lemma record_type_from_id_id: "ts_record_type_from_id (ts_record_type_id rt) = Ok rt"
  by (cases rt) (simp_all add: ts_record_type_from_id_def)

lemma record_type_id_inj: "ts_record_type_id a = ts_record_type_id b \<longleftrightarrow> a = b"
  by (cases a; cases b) simp_all

lemma scope_tag_halves:
  assumes "bucket_ok b"
  shows "drop_bit 4 (scope_tag rt b AND 0xF0) = ts_record_type_id rt" and "scope_tag rt b AND 0x0F = tb_size b"
    and "0 < scope_tag rt b"
proof -
  note n = nibbles [OF record_type_id_bounds(2) [of rt], of "tb_size b"]
  show h: "drop_bit 4 (scope_tag rt b AND 0xF0) = ts_record_type_id rt" and l: "scope_tag rt b AND 0x0F = tb_size b"
    using n assms by (simp_all add: scope_tag_def bucket_ok_def)
  show "0 < scope_tag rt b"
    using l assms by (cases "scope_tag rt b = 0") (auto simp: bucket_ok_def word_gt_0)
qed

lemma write_bucket_scoped_prefix_ok:
  assumes "bucket_ok b"
  shows "write_bucket_scoped_prefix rt b = Some ([TS_SUBSYSTEM, TS_KEY_VERSION, scope_tag rt b] @ put_u32 (tb_start b))"
  using assms record_type_id_bounds [of rt] scope_tag_halves(3) [OF assms, of rt]
  by (simp add: write_bucket_scoped_prefix_def prefix_with_bucket_size_def record_tag_new_def key_prefix_new_def
      scope_tag_def bucket_ok_def TS_SUBSYSTEM_def TS_KEY_VERSION_def key_prefix_to_bytes_def)

lemma decode_scope_ok:
  assumes "bucket_ok b"
  shows "decode_scope rt m1 m2 (TS_SUBSYSTEM # TS_KEY_VERSION # scope_tag rt b # rest) = Ok (tb_size b)"
proof -
  have "tb_size b \<noteq> 0" using assms by (auto simp: bucket_ok_def)
  moreover have "from_bytes_with_validation (TS_SUBSYSTEM # TS_KEY_VERSION # scope_tag rt b # rest) TS_SUBSYSTEM TS_KEY_VERSION
      = Ok \<lparr>kp_subsystem = TS_SUBSYSTEM, kp_version = TS_KEY_VERSION, kp_tag = scope_tag rt b\<rparr>"
    using scope_tag_halves(3) [OF assms, of rt]
    by (auto simp: from_bytes_with_validation_eq_Ok TS_SUBSYSTEM_def TS_KEY_VERSION_def)
  ultimately show ?thesis
    using scope_tag_halves(1,2) [OF assms, of rt]
    by (simp add: decode_scope_def ts_record_type_from_prefix_def record_type_from_id_id bucket_size_from_prefix_def Let_def)
qed

lemmas scope_simps = write_bucket_scoped_prefix_ok decode_scope_ok

lemma take_append_exact: "length xs = n \<Longrightarrow> take n (xs @ ys) = xs" "length xs = n \<Longrightarrow> drop n (xs @ ys) = ys"
  by simp_all

lemma be_val_u128: "word_of_nat (be_val (be_enc 16 (unat f))) = (f :: 128 word)"
proof -
  have "unat f < 256 ^ 16" using unsigned_less [of f, where ?'a = nat] by simp
  then show ?thesis by (simp add: be_val_be_enc)
qed

lemma series_dictionary_key_round_trip:
  "bucket_ok (sdk_bucket k) \<Longrightarrow> \<exists>bs. series_dictionary_key_encode k = Some bs \<and> series_dictionary_key_decode bs = Ok k"
  by (simp add: series_dictionary_key_encode_def series_dictionary_key_decode_def scope_simps take_append_exact be_val_u128)

lemma forward_index_key_round_trip:
  "bucket_ok (fik_bucket k) \<Longrightarrow> \<exists>bs. forward_index_key_encode k = Some bs \<and> forward_index_key_decode bs = Ok k"
  by (simp add: forward_index_key_encode_def forward_index_key_decode_def scope_simps take_append_exact)

lemma inverted_index_key_round_trip:
  "bucket_ok (iik_bucket k) \<Longrightarrow> utf8_valid (iik_attribute k) \<Longrightarrow> utf8_valid (iik_value k)
    \<Longrightarrow> \<exists>bs. inverted_index_key_encode k = Some bs \<and> inverted_index_key_decode bs = Ok k"
  by (simp add: inverted_index_key_encode_def attribute_prefix_def inverted_index_key_decode_def scope_simps
      take_append_exact terminated_round_trip)

lemma terminated_serialize_not_Nil [simp]: "terminated_serialize s \<noteq> []"
  by (cases s) (simp_all add: escape_defs)

lemma time_series_key_round_trip:
  "bucket_ok (tsk_bucket k) \<Longrightarrow> utf8_valid (tsk_metric_name k)
    \<Longrightarrow> \<exists>bs. time_series_key_encode k = Some bs \<and> time_series_key_decode bs = Ok k"
  by (simp add: time_series_key_encode_def time_series_key_decode_def scope_simps take_append_exact terminated_round_trip)

section \<open>Scans\<close>

text \<open>Two scoped keys begin alike exactly when they are of one type and one bucket.\<close>

lemma scope_tag_inj:
  assumes "bucket_ok a" and "bucket_ok b"
  shows "scope_tag s a = scope_tag t b \<longleftrightarrow> s = t \<and> tb_size a = tb_size b"
proof
  assume eq: "scope_tag s a = scope_tag t b"
  have "ts_record_type_id s = ts_record_type_id t"
    using scope_tag_halves(1) [OF assms(1), of s] scope_tag_halves(1) [OF assms(2), of t] by (simp only: eq)
  moreover have "tb_size a = tb_size b"
    using scope_tag_halves(2) [OF assms(1), of s] scope_tag_halves(2) [OF assms(2), of t] by (simp only: eq)
  ultimately show "s = t \<and> tb_size a = tb_size b" by (simp add: record_type_id_inj)
next
  assume "s = t \<and> tb_size a = tb_size b"
  then show "scope_tag s a = scope_tag t b" by (simp add: scope_tag_def)
qed

lemma prefix_same_length: "length xs = length ys \<Longrightarrow> prefix (xs @ us) (ys @ vs) \<longleftrightarrow> xs = ys \<and> prefix us vs"
  by (auto simp: prefix_def append_eq_append_conv)

lemma put_u32_inj [simp]: "put_u32 a = put_u32 b \<longleftrightarrow> a = b"
  by (rule u32_field.fld_inj)

lemma bucket_range_contains:
  assumes "bucket_ok a" and "bucket_ok b" and "bucket_range s a = Some rg" and "write_bucket_scoped_prefix t b = Some p"
  shows "range_contains rg (p @ rest) \<longleftrightarrow> s = t \<and> a = b"
  using assms prefix_same_length [of "put_u32 (tb_start a)" "put_u32 (tb_start b)" "[]" rest]
  by (auto simp: bucket_range_def range_contains_prefix scope_simps scope_tag_inj)

lemma terminated_prefix_iff: "prefix (terminated_serialize a) (terminated_serialize b @ rest) \<longleftrightarrow> a = b"
  by (metis append.right_neutral prefix_def terminated.enc_append_inject terminated_key.fld_eq_iff)

lemma attribute_range_contains:
  assumes "bucket_ok b" and "bucket_ok (iik_bucket k)"
    and "attribute_range b attribute = Some rg" and "inverted_index_key_encode k = Some bs"
  shows "range_contains rg bs \<longleftrightarrow> iik_bucket k = b \<and> iik_attribute k = attribute"
  using assms prefix_same_length [of "put_u32 (tb_start b)" "put_u32 (tb_start (iik_bucket k))"]
  by (auto simp: attribute_range_def attribute_prefix_def inverted_index_key_encode_def range_contains_prefix scope_simps
      scope_tag_inj terminated_prefix_iff)

text \<open>Sample keys sort by bucket, then metric name, then series.\<close>

lemma time_series_key_less:
  assumes "bucket_ok (tsk_bucket a)" and "tb_size (tsk_bucket b) = tb_size (tsk_bucket a)"
    and "time_series_key_encode a = Some x" and "time_series_key_encode b = Some y"
  shows "x < y \<longleftrightarrow>
    tb_start (tsk_bucket a) < tb_start (tsk_bucket b)
    \<or> tb_start (tsk_bucket a) = tb_start (tsk_bucket b)
      \<and> (tsk_metric_name a < tsk_metric_name b
         \<or> tsk_metric_name a = tsk_metric_name b \<and> tsk_series_id a < tsk_series_id b)"
proof -
  have "bucket_ok (tsk_bucket b)" and "scope_tag TimeSeriesType (tsk_bucket b) = scope_tag TimeSeriesType (tsk_bucket a)"
    using assms(1,2) by (simp_all add: bucket_ok_def scope_tag_def)
  with assms show ?thesis
    by (auto simp: time_series_key_encode_def scope_simps u32_field.fld_less_iff terminated_key.fld_less_iff u32_field.fld_mono_iff)
qed

section \<open>Values decode back\<close>

lemma bucket_entry_round_trip: "bucket_entry_decode (bucket_entry_encode e @ rest) = Ok (e, rest)"
  by (simp add: bucket_entry_decode_def bucket_entry_encode_def take_append_exact)

interpretation bucket_entry: front_codec bucket_entry_encode bucket_entry_decode "\<lambda>_. True"
  by unfold_locales (rule bucket_entry_round_trip)

lemma decode_items_concat:
  assumes "\<And>x rest. x \<in> set xs \<Longrightarrow> dec (enc x @ rest) = Ok (x, rest)"
  shows "decode_items dec (length xs) (concat (map enc xs) @ rest) = Ok (xs, rest)"
  using assms by (induction xs) simp_all

lemma bucket_list_value_round_trip: "bucket_list_value_decode (bucket_list_value_encode bl) = Ok bl"
proof -
  have len: "length (concat (map bucket_entry_encode bl)) = 5 * length bl"
    by (induction bl) (simp_all add: bucket_entry_encode_def)
  show ?thesis
    using decode_items_concat [of bl bucket_entry_decode bucket_entry_encode "[]"] len
    by (simp add: bucket_list_value_decode_def bucket_list_value_encode_def decode_fixed_element_array_def
        validate_fixed_element_array_len_def bucket_entry_round_trip)
qed

lemma series_dictionary_value_round_trip: "series_dictionary_value_decode (series_dictionary_value_encode i) = Ok i"
  by (simp add: series_dictionary_value_decode_def series_dictionary_value_encode_def)

definition text_ok :: "bytes \<Rightarrow> bool" where
  "text_ok s \<longleftrightarrow> utf8_valid s \<and> length s \<le> 65535"

definition label_ok :: "label \<Rightarrow> bool" where
  "label_ok l \<longleftrightarrow> text_ok (label_name l) \<and> text_ok (label_value l)"

lemma label_round_trip:
  assumes "label_ok l"
  shows "\<exists>b. label_encode l = Some b" and "label_decode (the (label_encode l) @ rest) = Ok (l, rest)"
proof -
  obtain n v where "encode_utf8 (label_name l) = Some n" and "encode_utf8 (label_value l) = Some v"
    using assms by (auto simp: label_ok_def text_ok_def encode_utf8_def)
  moreover from this have "\<And>r. decode_utf8 (n @ r) = Ok (label_name l, r)" and "\<And>r. decode_utf8 (v @ r) = Ok (label_value l, r)"
    using assms decode_utf8_encode [of "label_name l"] decode_utf8_encode [of "label_value l"]
    by (simp_all add: label_ok_def text_ok_def)
  ultimately show "\<exists>b. label_encode l = Some b" and "label_decode (the (label_encode l) @ rest) = Ok (l, rest)"
    by (simp_all add: label_encode_def label_decode_def)
qed

interpretation label_codec: front_codec "\<lambda>l. the (label_encode l)" label_decode label_ok
  by unfold_locales (rule label_round_trip(2))

lemma encode_items_ok:
  assumes "list_all label_ok ls"
  shows "encode_items label_encode ls = Some (concat (map (\<lambda>l. the (label_encode l)) ls))"
  using assms
proof (induction ls)
  case (Cons l ls)
  then obtain b where "label_encode l = Some b" using label_round_trip(1) [of l] by auto
  with Cons show ?case by simp
qed simp

lemma label_array_round_trip:
  assumes "list_all label_ok ls" and "length ls \<le> 65535"
  shows "\<exists>bs. encode_array label_encode ls = Some bs \<and> decode_array label_decode (bs @ rest) = Ok (ls, rest)"
proof -
  have "decode_items label_decode (length ls) (concat (map (\<lambda>l. the (label_encode l)) ls) @ rest) = Ok (ls, rest)"
    using assms(1) by (intro decode_items_concat) (auto simp: list_all_iff label_round_trip(2))
  then show ?thesis
    using assms by (simp add: encode_array_def decode_array_def encode_items_ok unat_word16_of_nat)
qed

lemma encode_optional_utf8_round_trip:
  assumes "pred_option text_ok u"
  shows "\<exists>bs. encode_optional_utf8 u = Some bs \<and> decode_optional_utf8 (bs @ rest) = Ok (if u = Some [] then None else u, rest)"
proof (cases u)
  case (Some s)
  with assms have "utf8_valid s" and "length s \<le> 65535" by (simp_all add: text_ok_def)
  moreover from this have "word_of_nat (length s) = (0 :: u16) \<longleftrightarrow> s = []"
    using unat_word16_of_nat [of "length s"] by (auto simp: unat_eq_zero)
  ultimately show ?thesis
    using Some decode_utf8_encode [of s rest]
    by (auto simp: encode_optional_utf8_def decode_optional_utf8_def encode_utf8_def)
qed (simp add: encode_optional_utf8_def decode_optional_utf8_def)

lemma metric_meta_round_trip:
  "series_spec_of \<lparr>fiv_metric_unit = u, fiv_metric_meta = metric_meta_of t, fiv_label_count = c, fiv_labels = ls\<rparr>
    = \<lparr>spec_unit = u, spec_metric_type = t, spec_labels = ls\<rparr>"
proof (cases t)
  case (Some mt)
  show ?thesis
  proof (cases mt)
    case (Sum monotonic tm)
    then show ?thesis
      by (cases tm; cases monotonic) (simp_all add: Some series_spec_of_def metric_meta_of_def metric_meta_of_type_def
          meta_temporality_def meta_monotonic_def)
  next
    case (Histogram tm)
    then show ?thesis
      by (cases tm) (simp_all add: Some series_spec_of_def metric_meta_of_def metric_meta_of_type_def meta_temporality_def)
  next
    case (ExponentialHistogram tm)
    then show ?thesis
      by (cases tm) (simp_all add: Some series_spec_of_def metric_meta_of_def metric_meta_of_type_def meta_temporality_def)
  qed (simp_all add: Some series_spec_of_def metric_meta_of_def metric_meta_of_type_def meta_temporality_def)
qed (simp add: series_spec_of_def metric_meta_of_def)

lemma forward_index_value_round_trip:
  assumes "pred_option text_ok (fiv_metric_unit v)" and "list_all label_ok (fiv_labels v)"
    and "length (fiv_labels v) \<le> 65535" and "fiv_label_count v = word_of_nat (length (fiv_labels v))"
  shows "\<exists>bs. forward_index_value_encode v = Some bs
    \<and> forward_index_value_decode bs = Ok (v\<lparr>fiv_metric_unit := if fiv_metric_unit v = Some [] then None else fiv_metric_unit v\<rparr>)"
proof -
  let ?m = "[mm_metric_type (fiv_metric_meta v), mm_flags (fiv_metric_meta v)]"
  obtain ls where ls: "encode_array label_encode (fiv_labels v) = Some ls"
      "decode_array label_decode ls = Ok (fiv_labels v, [])"
    using label_array_round_trip [OF assms(2,3), of "[]"] by auto
  obtain u where u: "encode_optional_utf8 (fiv_metric_unit v) = Some u"
      "decode_optional_utf8 (u @ ?m @ put_u16_le (fiv_label_count v) @ ls)
        = Ok (if fiv_metric_unit v = Some [] then None else fiv_metric_unit v, ?m @ put_u16_le (fiv_label_count v) @ ls)"
    using encode_optional_utf8_round_trip [OF assms(1)] by blast
  show ?thesis
    using ls u assms(3,4)
    by (simp add: forward_index_value_encode_def forward_index_value_decode_def metric_meta_decode_def Let_def
        take_append_exact unat_word16_of_nat)
qed

text \<open>
  C39. The description of a series survives storage: encoding the forward index value of a series
  (within the length limits of the format) succeeds, and what is decoded is the description that was stored, with
  every label and the metric type with its temporality and monotonicity; only an empty unit becomes no unit.
\<close>

theorem series_spec_round_trip:
  assumes "pred_option text_ok (spec_unit s)" and "list_all label_ok (spec_labels s)" and "length (spec_labels s) \<le> 65535"
  shows "\<exists>bs. forward_index_value_encode (forward_index_value_of s) = Some bs
    \<and> result_map series_spec_of (forward_index_value_decode bs)
        = Ok (s\<lparr>spec_unit := if spec_unit s = Some [] then None else spec_unit s\<rparr>)"
proof -
  obtain bs where bs: "forward_index_value_encode (forward_index_value_of s) = Some bs"
      "forward_index_value_decode bs = Ok (forward_index_value_of s
         \<lparr>fiv_metric_unit := if spec_unit s = Some [] then None else spec_unit s\<rparr>)"
    using forward_index_value_round_trip [of "forward_index_value_of s"] assms by (auto simp: forward_index_value_of_def)
  then show ?thesis by (simp add: forward_index_value_of_def metric_meta_round_trip)
qed

theorem series_spec_round_trip_witness:
  "\<exists>bs. forward_index_value_encode (forward_index_value_of
        \<lparr>spec_unit = Some [], spec_metric_type = Some (Sum True DeltaTemporality), spec_labels = [Label [0x61] [0x62]]\<rparr>) = Some bs
    \<and> result_map series_spec_of (forward_index_value_decode bs)
        = Ok \<lparr>spec_unit = None, spec_metric_type = Some (Sum True DeltaTemporality), spec_labels = [Label [0x61] [0x62]]\<rparr>"
  using series_spec_round_trip [of "\<lparr>spec_unit = Some [], spec_metric_type = Some (Sum True DeltaTemporality),
      spec_labels = [Label [0x61] [0x62]]\<rparr>"]
  by (simp add: text_ok_def label_ok_def)

text \<open>
  C40. A scan of the inverted index is exact: every entry's key decodes back, the range of a label name within a bucket
  contains the key exactly when the entry is of that bucket and that label name (never one whose name only begins alike), and the
  range of a bucket contains it exactly when it is of that bucket.
\<close>

theorem inverted_index_scans_exact:
  assumes "bucket_ok b" and "bucket_ok (iik_bucket k)" and "utf8_valid (iik_attribute k)" and "utf8_valid (iik_value k)"
  shows "\<exists>bs names all. inverted_index_key_encode k = Some bs \<and> inverted_index_key_decode bs = Ok k
    \<and> attribute_range b attribute = Some names \<and> bucket_range InvertedIndexType b = Some all
    \<and> (range_contains names bs \<longleftrightarrow> iik_bucket k = b \<and> iik_attribute k = attribute)
    \<and> (range_contains all bs \<longleftrightarrow> iik_bucket k = b)"
proof -
  obtain bs where bs: "inverted_index_key_encode k = Some bs" "inverted_index_key_decode bs = Ok k"
    using inverted_index_key_round_trip [OF assms(2-4)] by blast
  obtain names all p where rg: "attribute_range b attribute = Some names" "bucket_range InvertedIndexType b = Some all"
      "write_bucket_scoped_prefix InvertedIndexType (iik_bucket k) = Some p"
    using assms(1,2) by (simp add: attribute_range_def attribute_prefix_def bucket_range_def scope_simps)
  have "bs = p @ (terminated_serialize (iik_attribute k) @ iik_value k)"
    using bs(1) rg(3) by (auto simp: inverted_index_key_encode_def attribute_prefix_def)
  then have "range_contains all bs \<longleftrightarrow> iik_bucket k = b"
    using bucket_range_contains [OF assms(1,2) rg(2,3)] by auto
  with bs rg(1,2) attribute_range_contains [OF assms(1,2) rg(1) bs(1)] show ?thesis by blast
qed

theorem inverted_index_scans_exact_witness:
  "\<exists>bs names all. inverted_index_key_encode \<lparr>iik_bucket = time_bucket_hour 60, iik_attribute = [0x61, 0x62], iik_value = [0x63]\<rparr> = Some bs
    \<and> attribute_range (time_bucket_hour 60) [0x61] = Some names \<and> bucket_range InvertedIndexType (time_bucket_hour 60) = Some all
    \<and> \<not> range_contains names bs \<and> range_contains all bs"
proof -
  have "bucket_ok (time_bucket_hour 60)" by (simp add: bucket_ok_def time_bucket_hour_def)
  then show ?thesis
    using inverted_index_scans_exact [of "time_bucket_hour 60"
        "\<lparr>iik_bucket = time_bucket_hour 60, iik_attribute = [0x61, 0x62], iik_value = [0x63]\<rparr>" "[0x61]"]
    by auto
qed

end
