(* ===== verification/Ts_Series.thy ===== *)
theory Ts_Series
  imports Ts_Serde "HOL-Library.Product_Lexorder"
begin

unbundle bit_operations_syntax

text \<open>
  Compressed samples (\<open>timeseries/src/serde/timeseries.rs\<close>): the bit reader the decoder reads through, the encoding of
  a series, and the merge of the operands of a key during compaction.  The Gorilla codec is the \<open>tsz\<close> crate, a
  parameter: \<open>tsz_encode\<close> gives the bytes of a stream of data points, \<open>tsz_items\<close> the results the decoder returns before the end
  of the stream, and \<open>tsz_lossless\<close> says that points whose times fit the format come back.

  The lemmas show that the reader yields the bits of the buffer one after the other however single bits, bytes and longer reads are
  mixed, and that a merge keeps one value for each timestamp, that of the newest operand which has it, whatever batches
  the operands arrive in.
\<close>

section \<open>The bit reader\<close>

datatype tsz_error = TszEof

record bytes_reader =
  br_bytes :: bytes
  br_byte_pos :: nat
  br_bit_pos :: nat

definition bytes_reader_new :: "bytes \<Rightarrow> bytes_reader" where
  "bytes_reader_new bs = \<lparr>br_bytes = bs, br_byte_pos = 0, br_bit_pos = 0\<rparr>"

definition read_bit :: "bytes_reader \<Rightarrow> bytes_reader \<times> (bool, tsz_error) result" where
  "read_bit r =
     (let r = (if br_bit_pos r = 8 then r\<lparr>br_byte_pos := br_byte_pos r + 1, br_bit_pos := 0\<rparr> else r) in
      if br_byte_pos r \<ge> length (br_bytes r) then (r, Err TszEof)
      else
        let byte = br_bytes r ! br_byte_pos r in
        (r\<lparr>br_bit_pos := br_bit_pos r + 1\<rparr>, Ok (\<not> (byte AND push_bit (7 - br_bit_pos r) 1 = 0))))"

definition read_byte :: "bytes_reader \<Rightarrow> bytes_reader \<times> (u8, tsz_error) result" where
  "read_byte r =
     (if br_bit_pos r = 0 then
        (if br_byte_pos r \<ge> length (br_bytes r) then (r, Err TszEof)
         else (r\<lparr>br_bit_pos := 8\<rparr>, Ok (br_bytes r ! br_byte_pos r)))
      else if br_bit_pos r = 8 then
        (let r = r\<lparr>br_byte_pos := br_byte_pos r + 1\<rparr> in
         if br_byte_pos r \<ge> length (br_bytes r) then (r, Err TszEof)
         else (r, Ok (br_bytes r ! br_byte_pos r)))
      else if br_byte_pos r \<ge> length (br_bytes r) then (r, Err TszEof)
      else
        let byte = push_bit (br_bit_pos r) (br_bytes r ! br_byte_pos r);
            r = r\<lparr>br_byte_pos := br_byte_pos r + 1\<rparr> in
        if br_byte_pos r \<ge> length (br_bytes r) then (r, Err TszEof)
        else (r, Ok (byte OR drop_bit (8 - br_bit_pos r) (br_bytes r ! br_byte_pos r))))"

function read_bits_loop :: "bytes_reader \<Rightarrow> nat \<Rightarrow> u64 \<Rightarrow> bytes_reader \<times> (u64, tsz_error) result" where
  "read_bits_loop r num bits =
     (if num \<ge> 8 then
        (case read_byte r of
           (r, Ok byte) \<Rightarrow> read_bits_loop r (num - 8) (push_bit 8 bits OR ucast byte)
         | (r, Err e) \<Rightarrow> (r, Err e)
         | (r, Panic) \<Rightarrow> (r, Panic))
      else if num > 0 then
        (case read_bit r of
           (r, Ok b) \<Rightarrow> read_bits_loop r (num - 1) (push_bit 1 bits OR (if b then 1 else 0))
         | (r, Err e) \<Rightarrow> (r, Err e)
         | (r, Panic) \<Rightarrow> (r, Panic))
      else (r, Ok bits))"
  by pat_completeness auto

termination
  by (relation "measure (\<lambda>(r, num, bits). num)") auto

declare read_bits_loop.simps [simp del]

definition read_bits :: "bytes_reader \<Rightarrow> nat \<Rightarrow> bytes_reader \<times> (u64, tsz_error) result" where
  "read_bits r num = read_bits_loop r (if num > 64 then 64 else num) 0"

text \<open>\<open>peak_bits\<close> restores the position, but not when it returns an error.\<close>

definition peak_bits :: "bytes_reader \<Rightarrow> nat \<Rightarrow> bytes_reader \<times> (u64, tsz_error) result" where
  "peak_bits r num =
     (case read_bits r num of
        (r', Ok bits) \<Rightarrow> (r'\<lparr>br_byte_pos := br_byte_pos r, br_bit_pos := br_bit_pos r\<rparr>, Ok bits)
      | (r', x) \<Rightarrow> (r', x))"

section \<open>Series of samples\<close>

record tsz_ops =
  tsz_encode :: "u64 \<Rightarrow> (u64 \<times> u64) list \<Rightarrow> bytes"
  tsz_items :: "bytes \<Rightarrow> (u64 \<times> u64, string) result list"

text \<open>\<open>TimeSeriesIterator\<close>: \<^const>\<open>None\<close> for no bytes, else the items it yields.\<close>

definition time_series_iterator :: "tsz_ops \<Rightarrow> bytes \<Rightarrow> (ts_sample, encoding_error) result list option" where
  "time_series_iterator tz bs =
     (if bs = [] then None
      else Some (map (\<lambda>x. case x of
           Ok (t, v) \<Rightarrow> Ok (sample_new t v)
         | Err e \<Rightarrow> Err (EncodingError ''Gorilla decoding failed: {}'' [])
         | Panic \<Rightarrow> Panic) (tsz_items tz bs)))"

definition time_series_value_encode :: "tsz_ops \<Rightarrow> ts_sample list \<Rightarrow> bytes" where
  "time_series_value_encode tz points =
     (case points of
        [] \<Rightarrow> []
      | p # _ \<Rightarrow> tsz_encode tz (timestamp_ms p) (map (\<lambda>p. (timestamp_ms p, sample_value p)) points))"

fun collect_items :: "('a, 'e) result list \<Rightarrow> ('a list, 'e) result" where
  "collect_items [] = Ok []"
| "collect_items (x # xs) = result_bind x (\<lambda>a. result_map ((#) a) (collect_items xs))"

definition time_series_value_decode :: "tsz_ops \<Rightarrow> bytes \<Rightarrow> (ts_sample list, encoding_error) result" where
  "time_series_value_decode tz buf =
     (if buf = [] then Ok []
      else case time_series_iterator tz buf of None \<Rightarrow> Ok [] | Some items \<Rightarrow> collect_items items)"

section \<open>Merging\<close>

type_synonym prioritized = "nat \<times> i64 \<times> u64"

definition merge_samples_of :: "tsz_ops \<Rightarrow> nat \<times> bytes \<Rightarrow> (prioritized list, encoding_error) result" where
  "merge_samples_of tz src =
     (case time_series_iterator tz (snd src) of
        None \<Rightarrow> Panic
      | Some items \<Rightarrow> result_map (map (\<lambda>s. (fst src, timestamp_ms s, sample_value s))) (collect_items items))"

definition merge_sources :: "tsz_ops \<Rightarrow> bytes list \<Rightarrow> (prioritized list, encoding_error) result" where
  "merge_sources tz sources = result_map concat (collect_items (map (merge_samples_of tz) (enumerate 0 sources)))"

text \<open>\<open>dedup_by\<close> on the timestamp keeps the first of each run.\<close>

fun dedup_timestamps :: "prioritized list \<Rightarrow> prioritized list" where
  "dedup_timestamps (x # y # xs) =
     (if fst (snd y) = fst (snd x) then dedup_timestamps (x # xs) else x # dedup_timestamps (y # xs))"
| "dedup_timestamps xs = xs"

definition sort_samples :: "prioritized list \<Rightarrow> prioritized list" where
  "sort_samples xs = sort_key (\<lambda>(priority, t, v). (sint t, - int priority)) xs"

definition merge_batch_time_series :: "tsz_ops \<Rightarrow> bytes option \<Rightarrow> bytes list \<Rightarrow> (bytes, encoding_error) result" where
  "merge_batch_time_series tz existing operands =
     (let sources = (case existing of Some e \<Rightarrow> if e \<noteq> [] then [e] else [] | None \<Rightarrow> [])
                    @ filter (\<lambda>operand. operand \<noteq> []) operands in
      if sources = [] then Ok []
      else if length sources = 1 then Ok (sources ! 0)
      else result_bind (merge_sources tz sources) (\<lambda>samples.
        if samples = [] then Ok []
        else
          let samples = dedup_timestamps (sort_samples samples) in
          Ok (tsz_encode tz (fst (snd (samples ! 0))) (map snd samples))))"

section \<open>The reader yields the bits of the buffer\<close>

definition byte_bits :: "u8 \<Rightarrow> bool list" where
  "byte_bits b = map (\<lambda>i. bit b (7 - i)) [0..<8]"

definition stream_bits :: "bytes \<Rightarrow> bool list" where
  "stream_bits bs = concat (map byte_bits bs)"

definition bits_value :: "bool list \<Rightarrow> u64" where
  "bits_value bs = foldl (\<lambda>a b. push_bit 1 a OR (if b then 1 else 0)) 0 bs"

definition reader_pos :: "bytes_reader \<Rightarrow> nat" where
  "reader_pos r = 8 * br_byte_pos r + br_bit_pos r"

definition reader_ok :: "bytes_reader \<Rightarrow> bool" where
  "reader_ok r \<longleftrightarrow> br_bit_pos r \<le> 8 \<and> reader_pos r \<le> 8 * length (br_bytes r)"

lemma length_byte_bits [simp]: "length (byte_bits b) = 8"
  by (simp add: byte_bits_def)

lemma length_stream_bits [simp]: "length (stream_bits bs) = 8 * length bs"
  by (induction bs) (simp_all add: stream_bits_def)

lemma nth_byte_bits: "i < 8 \<Longrightarrow> byte_bits b ! i = bit b (7 - i)"
  by (simp add: byte_bits_def)

lemma stream_bits_Nil [simp]: "stream_bits [] = []"
  by (simp add: stream_bits_def)

lemma stream_bits_Cons [simp]: "stream_bits (b # bs) = byte_bits b @ stream_bits bs"
  by (simp add: stream_bits_def)

lemma nth_stream_bits: "n < length bs \<Longrightarrow> k < 8 \<Longrightarrow> stream_bits bs ! (8 * n + k) = bit (bs ! n) (7 - k)"
proof (induction bs arbitrary: n)
  case (Cons b bs)
  then show ?case by (cases n) (simp_all add: nth_append nth_byte_bits)
qed simp

text \<open>The position of the next bit as a byte and a bit within it.\<close>

definition next_bit :: "bytes_reader \<Rightarrow> nat \<times> nat" where
  "next_bit r = (if br_bit_pos r = 8 then (br_byte_pos r + 1, 0) else (br_byte_pos r, br_bit_pos r))"

lemma next_bit_pos:
  assumes "reader_ok r" and "next_bit r = (n, k)"
  shows "reader_pos r = 8 * n + k" and "k < 8" and "n < length (br_bytes r) \<longleftrightarrow> reader_pos r < 8 * length (br_bytes r)"
  using assms by (auto simp: next_bit_def reader_pos_def reader_ok_def split: if_splits)

lemma read_bit_next:
  assumes "next_bit r = (n, k)"
  shows "read_bit r = (if n \<ge> length (br_bytes r) then (r\<lparr>br_byte_pos := n, br_bit_pos := k\<rparr>, Err TszEof)
    else (r\<lparr>br_byte_pos := n, br_bit_pos := k + 1\<rparr>, Ok (bit (br_bytes r ! n) (7 - k))))"
  using assms and_exp_eq_0_iff_not_bit [of "br_bytes r ! n" "7 - k"]
  by (cases "br_bit_pos r = 8") (auto simp: read_bit_def next_bit_def Let_def)

lemma read_bit_refines:
  assumes "reader_ok r"
  shows "reader_pos r < 8 * length (br_bytes r) \<Longrightarrow>
      \<exists>r'. read_bit r = (r', Ok (stream_bits (br_bytes r) ! reader_pos r)) \<and> reader_ok r'
        \<and> br_bytes r' = br_bytes r \<and> reader_pos r' = reader_pos r + 1"
    and "\<not> reader_pos r < 8 * length (br_bytes r) \<Longrightarrow> snd (read_bit r) = Err TszEof"
proof -
  obtain n k where nk: "next_bit r = (n, k)" by fastforce
  note np = next_bit_pos [OF assms nk]
  {
    assume lt: "reader_pos r < 8 * length (br_bytes r)"
    let ?r = "r\<lparr>br_byte_pos := n, br_bit_pos := k + 1\<rparr>"
    have "reader_ok ?r" "reader_pos ?r = reader_pos r + 1"
      using np lt by (simp_all add: reader_ok_def reader_pos_def)
    moreover have "read_bit r = (?r, Ok (stream_bits (br_bytes r) ! reader_pos r))"
      using np lt nth_stream_bits [of n "br_bytes r" k] by (simp add: read_bit_next [OF nk])
    ultimately show "\<exists>r'. read_bit r = (r', Ok (stream_bits (br_bytes r) ! reader_pos r)) \<and> reader_ok r'
        \<and> br_bytes r' = br_bytes r \<and> reader_pos r' = reader_pos r + 1"
      by (intro exI [of _ ?r]) simp
  }
  assume "\<not> reader_pos r < 8 * length (br_bytes r)"
  then show "snd (read_bit r) = Err TszEof" using np by (simp add: read_bit_next [OF nk])
qed

text \<open>A byte read across a byte boundary.\<close>

lemma byte_bits_split:
  assumes "0 < k" and "k < 8"
  shows "byte_bits (push_bit k b OR drop_bit (8 - k) c) = drop k (byte_bits b) @ take k (byte_bits c)"
proof (rule nth_equalityI)
  fix i
  assume "i < length (byte_bits (push_bit k b OR drop_bit (8 - k) c))"
  then have i: "i < 8" by simp
  show "byte_bits (push_bit k b OR drop_bit (8 - k) c) ! i = (drop k (byte_bits b) @ take k (byte_bits c)) ! i"
  proof (cases "i < 8 - k")
    case True
    then have "\<not> bit c (8 - k + (7 - i))" using bit_imp_le_length [of c "8 - k + (7 - i)"] assms by auto
    with True i assms show ?thesis
      by (auto simp: nth_byte_bits nth_append bit_simps diff_diff_left add.commute)
  next
    case False
    with i assms show ?thesis by (auto simp: nth_byte_bits nth_append bit_simps add.commute)
  qed
qed (use assms in simp)

lemma stream_bits_slice:
  assumes "n < length bs" and "k \<le> 8"
  shows "take 8 (drop (8 * n + k) (stream_bits bs))
    = (if k = 0 then byte_bits (bs ! n)
       else if n + 1 < length bs then drop k (byte_bits (bs ! n)) @ take k (byte_bits (bs ! (n + 1)))
       else drop k (byte_bits (bs ! n)))"
  using assms(1)
proof (induction bs arbitrary: n)
  case (Cons b bs)
  show ?case
  proof (cases n)
    case 0
    then show ?thesis using assms(2) by (cases bs) (auto simp: take_append)
  next
    case (Suc m)
    with Cons.prems have "m < length bs" by simp
    then show ?thesis using Cons.IH [of m] Suc by simp
  qed
qed simp

lemma read_byte_refines:
  assumes "reader_ok r"
  shows "reader_pos r + 8 \<le> 8 * length (br_bytes r) \<Longrightarrow>
      \<exists>r' b. read_byte r = (r', Ok b) \<and> byte_bits b = take 8 (drop (reader_pos r) (stream_bits (br_bytes r)))
        \<and> reader_ok r' \<and> br_bytes r' = br_bytes r \<and> reader_pos r' = reader_pos r + 8"
    and "\<not> reader_pos r + 8 \<le> 8 * length (br_bytes r) \<Longrightarrow> snd (read_byte r) = Err TszEof"
proof -
  let ?n = "br_byte_pos r" and ?k = "br_bit_pos r" and ?bs = "br_bytes r"
  have k: "?k \<le> 8" "reader_pos r = 8 * ?n + ?k" using assms by (auto simp: reader_ok_def reader_pos_def)
  {
    assume le: "reader_pos r + 8 \<le> 8 * length ?bs"
    then have n: "?n < length ?bs" using k by simp
    note slice = stream_bits_slice [OF n k(1), folded k(2)]
    consider "?k = 0" | "?k = 8" | "0 < ?k \<and> ?k < 8" using k(1) by linarith
    then show "\<exists>r' b. read_byte r = (r', Ok b) \<and> byte_bits b = take 8 (drop (reader_pos r) (stream_bits (br_bytes r)))
        \<and> reader_ok r' \<and> br_bytes r' = br_bytes r \<and> reader_pos r' = reader_pos r + 8"
    proof cases
      case 1
      with n slice k show ?thesis by (simp add: read_byte_def reader_ok_def reader_pos_def)
    next
      case 2
      then have "?n + 1 < length ?bs" using le k by simp
      with 2 slice k show ?thesis by (simp add: read_byte_def reader_ok_def reader_pos_def Let_def)
    next
      case 3
      then have "?n + 1 < length ?bs" using le k by simp
      with 3 n slice k show ?thesis
        using byte_bits_split [of ?k "?bs ! ?n" "?bs ! (?n + 1)"]
        by (simp add: read_byte_def reader_ok_def reader_pos_def Let_def)
    qed
  }
  assume "\<not> reader_pos r + 8 \<le> 8 * length ?bs"
  with k show "snd (read_byte r) = Err TszEof" by (auto simp: read_byte_def Let_def)
qed

text \<open>Bits as a number: a byte shifted in is its eight bits shifted in.\<close>

lemma bit_bits_value_snoc:
  "bit (bits_value (bs @ [b])) i \<longleftrightarrow> (if i = 0 then b else i < 64 \<and> bit (bits_value bs) (i - 1))"
proof -
  have "bits_value (bs @ [b]) = push_bit 1 (bits_value bs) OR of_bool b" by (simp add: bits_value_def)
  then have "bit (bits_value (bs @ [b])) i \<longleftrightarrow> (1 \<le> i \<and> i < 64 \<and> bit (bits_value bs) (i - 1)) \<or> b \<and> i = 0"
    by (simp only: bit_or_iff bit_push_bit_iff bit_of_bool_iff) (auto simp: possible_bit_def)
  then show ?thesis by auto
qed

lemma bit_bits_value: "bit (bits_value bs) i \<longleftrightarrow> i < 64 \<and> i < length bs \<and> bs ! (length bs - 1 - i)"
proof (induction bs arbitrary: i rule: rev_induct)
  case (snoc b bs)
  show ?case
  proof (cases i)
    case (Suc j)
    then show ?thesis using snoc.IH [of j] by (auto simp: bit_bits_value_snoc nth_append)
  qed (simp add: bit_bits_value_snoc)
qed (simp add: bits_value_def)

lemma bits_value_byte: "bits_value (bs @ byte_bits b) = push_bit 8 (bits_value bs) OR ucast b"
proof (rule bit_word_eqI)
  fix i
  assume i: "i < LENGTH(64)"
  show "bit (bits_value (bs @ byte_bits b)) i \<longleftrightarrow> bit (push_bit 8 (bits_value bs) OR ucast b) i"
  proof (cases "i < 8")
    case True
    then show ?thesis using i by (auto simp: bit_bits_value bit_simps nth_append nth_byte_bits)
  next
    case False
    then have "\<not> bit b i" using bit_imp_le_length [of b i] by auto
    with False i show ?thesis by (auto simp: bit_bits_value bit_simps nth_append)
  qed
qed

text \<open>What a read of \<open>n\<close> bits does, after the bits \<open>pre\<close> were read.\<close>

definition reads_next :: "bytes_reader \<Rightarrow> nat \<Rightarrow> bool list \<Rightarrow> bytes_reader \<times> (u64, tsz_error) result \<Rightarrow> bool" where
  "reads_next r n pre out \<longleftrightarrow>
     (if reader_pos r + n \<le> 8 * length (br_bytes r)
      then snd out = Ok (bits_value (pre @ take n (drop (reader_pos r) (stream_bits (br_bytes r)))))
        \<and> reader_ok (fst out) \<and> br_bytes (fst out) = br_bytes r \<and> reader_pos (fst out) = reader_pos r + n
      else snd out = Err TszEof)"

lemma reads_next_step:
  assumes "reads_next r' n (pre @ take m (drop (reader_pos r) (stream_bits (br_bytes r)))) out"
    and "br_bytes r' = br_bytes r" and "reader_pos r' = reader_pos r + m"
  shows "reads_next r (m + n) pre out"
  using assms by (simp add: reads_next_def take_add add.commute add.left_commute)

lemma take_one_drop: "i < length xs \<Longrightarrow> take (Suc 0) (drop i xs) = [xs ! i]"
  by (simp add: take_Suc_conv_app_nth)

lemma read_bits_loop_refines:
  assumes "reader_ok r"
  shows "reads_next r n pre (read_bits_loop r n (bits_value pre))"
  using assms
proof (induction n arbitrary: r pre rule: less_induct)
  case (less n)
  let ?len = "8 * length (br_bytes r)" and ?next = "\<lambda>m. take m (drop (reader_pos r) (stream_bits (br_bytes r)))"
  consider (byte) "8 \<le> n" | (one) "0 < n" "n < 8" | (none) "n = 0" by linarith
  then show ?case
  proof cases
    case byte
    show ?thesis
    proof (cases "reader_pos r + 8 \<le> ?len")
      case True
      then obtain r' b where r': "read_byte r = (r', Ok b)" "byte_bits b = ?next 8" "reader_ok r'" "br_bytes r' = br_bytes r"
          "reader_pos r' = reader_pos r + 8"
        using read_byte_refines(1) [OF less.prems] by blast
      have "reads_next r' (n - 8) (pre @ ?next 8) (read_bits_loop r' (n - 8) (bits_value (pre @ ?next 8)))"
        using less.IH [of "n - 8" r' "pre @ ?next 8"] byte r'(3) by simp
      moreover have "read_bits_loop r n (bits_value pre) = read_bits_loop r' (n - 8) (bits_value (pre @ ?next 8))"
        using byte r'(1) by (subst read_bits_loop.simps) (simp flip: r'(2) add: bits_value_byte)
      ultimately show ?thesis using reads_next_step [of r' "n - 8" pre 8 r] r'(4,5) byte by simp
    next
      case False
      with read_byte_refines(2) [OF less.prems] obtain r' where "read_byte r = (r', Err TszEof)"
        by (metis prod.collapse)
      with byte False show ?thesis by (subst read_bits_loop.simps) (simp add: reads_next_def)
    qed
  next
    case one
    show ?thesis
    proof (cases "reader_pos r < ?len")
      case True
      then obtain r' where r': "read_bit r = (r', Ok (stream_bits (br_bytes r) ! reader_pos r))" "reader_ok r'"
          "br_bytes r' = br_bytes r" "reader_pos r' = reader_pos r + 1"
        using read_bit_refines(1) [OF less.prems] by blast
      have b: "?next 1 = [stream_bits (br_bytes r) ! reader_pos r]" using True by (simp add: take_one_drop)
      have "reads_next r' (n - 1) (pre @ ?next 1) (read_bits_loop r' (n - 1) (bits_value (pre @ ?next 1)))"
        using less.IH [of "n - 1" r' "pre @ ?next 1"] one r'(2) by simp
      moreover have "read_bits_loop r n (bits_value pre) = read_bits_loop r' (n - 1) (bits_value (pre @ ?next 1))"
        using one r'(1) unfolding b by (subst read_bits_loop.simps) (simp add: bits_value_def)
      ultimately show ?thesis using reads_next_step [of r' "n - 1" pre 1 r] r'(3,4) one by simp
    next
      case False
      with read_bit_refines(2) [OF less.prems] obtain r' where "read_bit r = (r', Err TszEof)"
        by (metis prod.collapse)
      with one False show ?thesis by (subst read_bits_loop.simps) (simp add: reads_next_def)
    qed
  next
    case none
    with less.prems show ?thesis by (subst read_bits_loop.simps) (simp add: reads_next_def reader_ok_def)
  qed
qed

text \<open>
  C22. The bit reader refines a stream of bits: however bits, bytes and longer reads were mixed before, reading \<open>n \<le> 64\<close> bits
  returns the next \<open>n\<close> bits of the buffer as a number, most significant first, and moves the position by \<open>n\<close>; looking ahead
  returns the same and moves nothing; and both report the end of the stream exactly when fewer than \<open>n\<close> bits are left.
\<close>

theorem bytes_reader_refines_bit_stream:
  assumes "reader_ok r" and "n \<le> 64"
  shows "if reader_pos r + n \<le> 8 * length (br_bytes r)
    then (\<exists>r'. read_bits r n = (r', Ok (bits_value (take n (drop (reader_pos r) (stream_bits (br_bytes r))))))
        \<and> reader_ok r' \<and> br_bytes r' = br_bytes r \<and> reader_pos r' = reader_pos r + n)
      \<and> peak_bits r n = (r, Ok (bits_value (take n (drop (reader_pos r) (stream_bits (br_bytes r))))))
    else snd (read_bits r n) = Err TszEof \<and> snd (peak_bits r n) = Err TszEof"
proof -
  obtain r' x where rb: "read_bits r n = (r', x)" by fastforce
  have "bits_value [] = 0" by (simp add: bits_value_def)
  then have "reads_next r n [] (r', x)"
    using read_bits_loop_refines [OF assms(1), of n "[]"] assms(2) rb by (simp add: read_bits_def)
  then show ?thesis by (auto simp: reads_next_def rb peak_bits_def)
qed

theorem bytes_reader_refines_bit_stream_witness:
  "\<exists>r'. read_bits (fst (read_bit (bytes_reader_new [0xA5, 0x3C]))) 12 = (r', Ok 0x4A7) \<and> reader_pos r' = 13"
proof -
  let ?r = "fst (read_bit (bytes_reader_new [0xA5, 0x3C]))"
  have r: "?r = \<lparr>br_bytes = [0xA5, 0x3C], br_byte_pos = 0, br_bit_pos = 1\<rparr>"
    by (simp add: bytes_reader_new_def read_bit_def)
  have "bits_value (take 12 (drop 1 (stream_bits [0xA5, 0x3C]))) = 0x4A7" by code_simp
  then show ?thesis
    using bytes_reader_refines_bit_stream [of ?r 12] by (auto simp: r reader_ok_def reader_pos_def)
qed

section \<open>The newest operand wins\<close>

text \<open>
  The format stores the difference of two successive deltas in 32 bits, computed with wrapping subtraction, so a stream of points
  comes back as written, whatever their order, when their times lie within \<open>2^30\<close> milliseconds of each other.  The times of a bucket do.
\<close>

definition tsz_fits :: "(u64 \<times> u64) list \<Rightarrow> bool" where
  "tsz_fits pts \<longleftrightarrow> pts \<noteq> [] \<and> (\<forall>p \<in> set pts. \<forall>q \<in> set pts. sint (fst q) - sint (fst p) < 2 ^ 30)"

definition tsz_lossless :: "tsz_ops \<Rightarrow> bool" where
  "tsz_lossless tz \<longleftrightarrow> (\<forall>pts. tsz_fits pts \<longrightarrow>
     tsz_encode tz (fst (hd pts)) pts \<noteq> [] \<and> tsz_items tz (tsz_encode tz (fst (hd pts)) pts) = map Ok pts)"

definition series_content :: "ts_sample list \<Rightarrow> i64 \<rightharpoonup> u64" where
  "series_content pts = map_of (map (\<lambda>s. (timestamp_ms s, sample_value s)) pts)"

definition newest_wins :: "ts_sample list list \<Rightarrow> i64 \<rightharpoonup> u64" where
  "newest_wins ptss = foldl (++) Map.empty (map series_content ptss)"

text \<open>The samples of every source with the index of the source, as the merge collects them.\<close>

definition tagged :: "ts_sample list list \<Rightarrow> prioritized list" where
  "tagged ptss = concat (map (\<lambda>(n, pts). map (\<lambda>s. (n, timestamp_ms s, sample_value s)) pts) (enumerate 0 ptss))"

lemma collect_items_Ok [simp]: "collect_items (map Ok xs) = Ok xs"
  by (induction xs) simp_all

lemma collect_items_all2:
  "list_all2 (\<lambda>x a. x = Ok a) xs as \<Longrightarrow> collect_items xs = Ok as"
  by (induction rule: list_all2_induct) simp_all

lemma merge_samples_of_decoded:
  assumes "time_series_value_decode tz bs = Ok pts" and "bs \<noteq> []"
  shows "merge_samples_of tz (n, bs) = Ok (map (\<lambda>s. (n, timestamp_ms s, sample_value s)) pts)"
  using assms by (auto simp: time_series_value_decode_def merge_samples_of_def time_series_iterator_def)

lemma merge_sources_decoded:
  assumes "list_all2 (\<lambda>bs pts. time_series_value_decode tz bs = Ok pts) sources ptss" and "[] \<notin> set sources"
  shows "merge_sources tz sources = Ok (tagged ptss)"
proof -
  have "list_all2 (\<lambda>x a. x = Ok a) (map (merge_samples_of tz) (enumerate 0 sources))
      (map (\<lambda>(n, pts). map (\<lambda>s. (n, timestamp_ms s, sample_value s)) pts) (enumerate 0 ptss))"
    using assms list_all2_lengthD [OF assms(1)]
    by (auto simp: list_all2_conv_all_nth nth_enumerate_eq in_set_conv_nth intro!: merge_samples_of_decoded)
  then show ?thesis by (simp add: merge_sources_def tagged_def collect_items_all2)
qed

lemma tagged_snoc: "tagged (ptss @ [pts]) = tagged ptss @ map (\<lambda>s. (length ptss, timestamp_ms s, sample_value s)) pts"
  by (simp add: tagged_def enumerate_append_eq)

lemma tagged_priority: "x \<in> set (tagged ptss) \<Longrightarrow> fst x < length ptss"
  by (auto simp: tagged_def in_set_enumerate_eq)

lemma map_of_filter_key: "map_of (map snd xs) t = map_of (map snd (filter (\<lambda>x. fst (snd x) = t) xs)) t"
  by (induction xs) auto

lemma sort_key_append_less:
  assumes "\<And>x y. x \<in> set xs \<Longrightarrow> y \<in> set ys \<Longrightarrow> f y < f x"
  shows "sort_key f (xs @ ys) = sort_key f ys @ sort_key f xs"
proof (rule properties_for_sort_key)
  fix k
  have stable: "filter (\<lambda>x. f k = f x) (sort_key f zs) = filter (\<lambda>x. f k = f x) zs" for zs
    using sort_key_stable [of f "f k" zs] by (simp only: eq_commute [of "f k"])
  assume "k \<in> set (sort_key f ys @ sort_key f xs)"
  then consider "k \<in> set ys" | "k \<in> set xs" by auto
  then show "filter (\<lambda>x. f k = f x) (sort_key f ys @ sort_key f xs) = filter (\<lambda>x. f k = f x) (xs @ ys)"
  proof cases
    case 1
    then have "filter (\<lambda>x. f k = f x) xs = []" using assms by (fastforce simp: filter_empty_conv)
    then show ?thesis by (simp add: stable)
  next
    case 2
    then have "filter (\<lambda>x. f k = f x) ys = []" using assms by (fastforce simp: filter_empty_conv)
    then show ?thesis by (simp add: stable)
  qed
next
  show "sorted (map f (sort_key f ys @ sort_key f xs))"
    using assms by (auto simp: sorted_append intro: less_imp_le)
qed simp

lemma content_of_sorted: "map_of (map snd (sort_samples (tagged ptss))) = newest_wins ptss"
proof (induction ptss rule: rev_induct)
  case (snoc pts ptss)
  let ?key = "\<lambda>(priority, t :: i64, v :: u64). (sint t, - int priority)"
  let ?new = "map (\<lambda>s. (length ptss, timestamp_ms s, sample_value s)) pts"
  show ?case
  proof
    fix t
    let ?at = "filter (\<lambda>x :: prioritized. fst (snd x) = t)"
    have "sort_key ?key (?at (tagged ptss) @ ?at ?new) = sort_key ?key (?at ?new) @ sort_key ?key (?at (tagged ptss))"
      by (rule sort_key_append_less) (auto dest: tagged_priority)
    moreover have "map ?key (?at ?new) = map (\<lambda>_. (sint t, - int (length ptss))) (?at ?new)" by auto
    then have "sort_key ?key (?at ?new) = ?at ?new"
      by (intro sort_key_id_if_sorted) (simp only: map_replicate_const sorted_replicate)
    ultimately have "?at (sort_samples (tagged (ptss @ [pts]))) = ?at ?new @ ?at (sort_samples (tagged ptss))"
      by (simp add: sort_samples_def filter_sort tagged_snoc)
    then have "map_of (map snd (sort_samples (tagged (ptss @ [pts])))) t
        = (map_of (map snd (?at (sort_samples (tagged ptss)))) ++ map_of (map snd (?at ?new))) t"
      by (subst map_of_filter_key) simp
    also have "\<dots> = (map_of (map snd (sort_samples (tagged ptss))) ++ map_of (map snd ?new)) t"
      by (simp only: map_add_def map_of_filter_key [symmetric])
    also have "\<dots> = newest_wins (ptss @ [pts]) t"
      by (simp add: snoc.IH newest_wins_def series_content_def comp_def)
    finally show "map_of (map snd (sort_samples (tagged (ptss @ [pts])))) t = newest_wins (ptss @ [pts]) t" .
  qed
qed (simp add: tagged_def sort_samples_def newest_wins_def)

lemma map_of_dedup: "map_of (map snd (dedup_timestamps xs)) = map_of (map snd xs)"
proof (induction xs rule: dedup_timestamps.induct)
  case (1 x y xs)
  then show ?case by (cases x; cases y) (auto simp: fun_eq_iff)
qed simp_all

lemma dedup_head: "xs \<noteq> [] \<Longrightarrow> dedup_timestamps xs \<noteq> [] \<and> hd (dedup_timestamps xs) = hd xs \<and> set (dedup_timestamps xs) \<subseteq> set xs"
  by (induction xs rule: dedup_timestamps.induct) auto

lemma dedup_increasing:
  "sorted (map (\<lambda>x. sint (fst (snd x))) xs) \<Longrightarrow> sorted_wrt (<) (map (\<lambda>x. sint (fst (snd x))) (dedup_timestamps xs))"
proof (induction xs rule: dedup_timestamps.induct)
  case (1 x y xs)
  show ?case
  proof (cases "fst (snd y) = fst (snd x)")
    case False
    have "sint (fst (snd x)) < sint (fst (snd z))" if "z \<in> set (dedup_timestamps (y # xs))" for z
    proof -
      have "z \<in> set (y # xs)" using that dedup_head [of "y # xs"] by auto
      then have "sint (fst (snd y)) \<le> sint (fst (snd z))" "sint (fst (snd x)) \<le> sint (fst (snd y))"
        using "1.prems" by auto
      moreover have "sint (fst (snd x)) \<noteq> sint (fst (snd y))" using False signed_word_eqI by metis
      ultimately show ?thesis by simp
    qed
    with False 1 show ?thesis by simp
  qed (use 1 in simp)
qed simp_all

lemma sort_samples_sorted: "sorted (map (\<lambda>x. sint (fst (snd x))) (sort_samples xs))"
proof -
  have "sorted (map (\<lambda>(priority, t, v). (sint (t :: i64), - int priority)) (sort_samples xs))"
    by (simp add: sort_samples_def)
  then show ?thesis unfolding sorted_map
    by (rule sorted_wrt_mono_rel [rotated]) (auto split: prod.splits)
qed

lemma time_series_value_decode_encoded:
  assumes "tsz_lossless tz" and "tsz_fits pts"
  shows "tsz_encode tz (fst (hd pts)) pts \<noteq> []"
    and "time_series_value_decode tz (tsz_encode tz (fst (hd pts)) pts) = Ok (map (\<lambda>(t, v). sample_new t v) pts)"
proof -
  show ne: "tsz_encode tz (fst (hd pts)) pts \<noteq> []" using assms by (simp add: tsz_lossless_def)
  have "tsz_items tz (tsz_encode tz (fst (hd pts)) pts) = map Ok pts" using assms by (simp add: tsz_lossless_def)
  then have "time_series_iterator tz (tsz_encode tz (fst (hd pts)) pts) = Some (map Ok (map (\<lambda>(t, v). sample_new t v) pts))"
    using ne by (auto simp: time_series_iterator_def)
  with ne show "time_series_value_decode tz (tsz_encode tz (fst (hd pts)) pts) = Ok (map (\<lambda>(t, v). sample_new t v) pts)"
    by (simp only: time_series_value_decode_def if_False option.case collect_items_Ok)
qed

lemma content_of_pairs: "series_content (map (\<lambda>(t, v). sample_new t v) pts) = map_of pts"
  by (simp add: series_content_def sample_new_def comp_def case_prod_beta)

lemma time_series_value_round_trip:
  assumes "tsz_lossless tz" and "pts \<noteq> []"
    and "\<forall>s \<in> set pts. \<forall>s' \<in> set pts. sint (timestamp_ms s') - sint (timestamp_ms s) < 2 ^ 30"
  shows "time_series_value_encode tz pts \<noteq> []" and "time_series_value_decode tz (time_series_value_encode tz pts) = Ok pts"
proof -
  let ?ps = "map (\<lambda>p. (timestamp_ms p, sample_value p)) pts"
  have fits: "tsz_fits ?ps" using assms(2,3) by (auto simp: tsz_fits_def)
  have enc: "time_series_value_encode tz pts = tsz_encode tz (fst (hd ?ps)) ?ps"
    using assms(2) by (cases pts) (simp_all add: time_series_value_encode_def)
  have "map (\<lambda>(t, v). sample_new t v) ?ps = pts" by (simp add: sample_new_def comp_def map_idI)
  then show "time_series_value_encode tz pts \<noteq> []" "time_series_value_decode tz (time_series_value_encode tz pts) = Ok pts"
    unfolding enc using time_series_value_decode_encoded [OF assms(1) fits] by (simp_all only: not_False_eq_True)
qed

text \<open>The times of a bucket lie in one window.\<close>

definition one_window :: "ts_sample list list \<Rightarrow> bool" where
  "one_window ptss \<longleftrightarrow>
     (\<forall>s \<in> set (concat ptss). \<forall>s' \<in> set (concat ptss). sint (timestamp_ms s') - sint (timestamp_ms s) < 2 ^ 30)"

lemma tagged_times: "x \<in> set (tagged ptss) \<Longrightarrow> \<exists>s \<in> set (concat ptss). timestamp_ms s = fst (snd x)"
  by (fastforce simp: tagged_def in_set_enumerate_eq)

lemma tagged_fits:
  assumes "one_window ptss" and "tagged ptss \<noteq> []"
  shows "tsz_fits (map snd (dedup_timestamps (sort_samples (tagged ptss))))"
proof -
  let ?m = "dedup_timestamps (sort_samples (tagged ptss))"
  have ne: "sort_samples (tagged ptss) \<noteq> []" using assms(2) by (simp add: sort_samples_def flip: length_greater_0_conv)
  then have m: "?m \<noteq> []" "set ?m \<subseteq> set (tagged ptss)"
    using dedup_head [OF ne] by (auto simp: sort_samples_def)
  have "sint (fst (snd x)) - sint (fst (snd y)) < 2 ^ 30" if xy: "x \<in> set ?m" "y \<in> set ?m" for x y
  proof -
    obtain s s' where "s \<in> set (concat ptss)" "timestamp_ms s = fst (snd x)" "s' \<in> set (concat ptss)" "timestamp_ms s' = fst (snd y)"
      using tagged_times [of x ptss] tagged_times [of y ptss] m(2) xy by blast
    with assms(1) show ?thesis unfolding one_window_def by metis
  qed
  with m(1) show ?thesis by (auto simp: tsz_fits_def)
qed

lemma newest_wins_Nil [simp]: "newest_wins [] = Map.empty"
  by (simp add: newest_wins_def)

lemma newest_wins_single [simp]: "newest_wins [pts] = series_content pts"
  by (simp add: newest_wins_def)

lemma newest_wins_append: "newest_wins (as @ bs) = newest_wins as ++ newest_wins bs"
proof (induction bs rule: rev_induct)
  case (snoc b bs)
  then show ?case by (simp add: newest_wins_def flip: append_assoc)
qed simp

lemma series_content_Nil [simp]: "series_content [] = Map.empty"
  by (simp add: series_content_def)

definition decoded_as :: "tsz_ops \<Rightarrow> bytes list \<Rightarrow> ts_sample list list \<Rightarrow> bool" where
  "decoded_as tz sources ptss \<longleftrightarrow> list_all2 (\<lambda>bs pts. time_series_value_decode tz bs = Ok pts) sources ptss"

lemma decoded_as_filter:
  assumes "decoded_as tz sources ptss"
  obtains ptss' where "decoded_as tz (filter (\<lambda>bs. bs \<noteq> []) sources) ptss'" "newest_wins ptss' = newest_wins ptss"
    "set (concat ptss') = set (concat ptss)"
proof -
  have "\<exists>ptss'. decoded_as tz (filter (\<lambda>bs. bs \<noteq> []) sources) ptss' \<and> newest_wins ptss' = newest_wins ptss
      \<and> set (concat ptss') = set (concat ptss)"
    using assms unfolding decoded_as_def
  proof (induction rule: list_all2_induct)
    case (Cons bs sources pts ptss)
    then obtain ptss' where IH: "list_all2 (\<lambda>bs pts. time_series_value_decode tz bs = Ok pts) (filter (\<lambda>bs. bs \<noteq> []) sources) ptss'"
        "newest_wins ptss' = newest_wins ptss" "set (concat ptss') = set (concat ptss)" by blast
    have nw: "newest_wins (p # ps) = series_content p ++ newest_wins ps" for p ps
      using newest_wins_append [of "[p]" ps] by simp
    show ?case
    proof (cases "bs = []")
      case True
      with Cons have "pts = []" by (simp add: time_series_value_decode_def)
      with IH True show ?thesis by (intro exI [of _ ptss']) (simp add: nw)
    next
      case False
      with IH Cons show ?thesis by (intro exI [of _ "pts # ptss'"]) (simp add: nw)
    qed
  qed simp
  with that show thesis by blast
qed

definition option_list :: "'a option \<Rightarrow> 'a list" where
  "option_list x = (case x of None \<Rightarrow> [] | Some a \<Rightarrow> [a])"

text \<open>One call: what the merged value decodes to.\<close>

lemma merge_batch_content:
  assumes lossless: "tsz_lossless tz" and dec: "decoded_as tz (option_list existing @ operands) ptss" and win: "one_window ptss"
  shows "\<exists>merged pts. merge_batch_time_series tz existing operands = Ok merged \<and> time_series_value_decode tz merged = Ok pts
    \<and> series_content pts = newest_wins ptss \<and> timestamp_ms ` set pts \<subseteq> timestamp_ms ` set (concat ptss)
    \<and> (1 < length (filter (\<lambda>bs. bs \<noteq> []) (option_list existing @ operands)) \<longrightarrow>
         sorted_wrt (<) (map (\<lambda>s. sint (timestamp_ms s)) pts))"
proof -
  define sources where "sources = filter (\<lambda>bs. bs \<noteq> []) (option_list existing @ operands)"
  obtain ptss' where ptss': "decoded_as tz sources ptss'" "newest_wins ptss' = newest_wins ptss"
      "set (concat ptss') = set (concat ptss)" using decoded_as_filter [OF dec] unfolding sources_def by blast
  have src: "(case existing of Some e \<Rightarrow> if e \<noteq> [] then [e] else [] | None \<Rightarrow> []) @ filter (\<lambda>operand. operand \<noteq> []) operands = sources"
    by (cases existing) (auto simp: option_list_def sources_def)
  have collected: "merge_sources tz sources = Ok (tagged ptss')"
    using ptss'(1) by (intro merge_sources_decoded) (auto simp: decoded_as_def sources_def)
  consider "sources = []" | bs where "sources = [bs]" | "1 < length sources" "tagged ptss' = []" | "1 < length sources" "tagged ptss' \<noteq> []"
    by (cases sources; cases "tl sources") auto
  then show ?thesis
  proof cases
    case 1
    then have "ptss' = []" using ptss'(1) by (simp add: decoded_as_def)
    with 1 ptss' show ?thesis unfolding merge_batch_time_series_def src sources_def [symmetric] by (simp add: time_series_value_decode_def)
  next
    case (2 bs)
    then obtain pts where "ptss' = [pts]" "time_series_value_decode tz bs = Ok pts"
      using ptss'(1) by (auto simp: decoded_as_def list_all2_Cons1)
    with 2 ptss' show ?thesis unfolding merge_batch_time_series_def src sources_def [symmetric] by simp
  next
    case 3
    then have "newest_wins ptss' = Map.empty" using content_of_sorted [of ptss'] by (simp add: sort_samples_def)
    with 3 ptss' collected show ?thesis
      unfolding merge_batch_time_series_def src sources_def [symmetric] by (simp add: time_series_value_decode_def)
  next
    case 4
    let ?m = "dedup_timestamps (sort_samples (tagged ptss'))"
    have "one_window ptss'" using win unfolding one_window_def ptss'(3) .
    then have fits: "tsz_fits (map snd ?m)" using 4(2) by (rule tagged_fits)
    then have hd: "fst (snd (?m ! 0)) = fst (hd (map snd ?m))" by (auto simp: tsz_fits_def hd_conv_nth)
    note enc = time_series_value_decode_encoded [OF lossless fits, folded hd]
    have "merge_batch_time_series tz existing operands = Ok (tsz_encode tz (fst (snd (?m ! 0))) (map snd ?m))"
      using 4 collected unfolding merge_batch_time_series_def src sources_def [symmetric] by (auto simp: Let_def)
    moreover have "series_content (map (\<lambda>(t, v). sample_new t v) (map snd ?m)) = newest_wins ptss"
      unfolding content_of_pairs by (simp add: map_of_dedup content_of_sorted ptss'(2))
    moreover have "timestamp_ms ` set (map (\<lambda>(t, v). sample_new t v) (map snd ?m)) \<subseteq> timestamp_ms ` set (concat ptss)"
      using dedup_head [of "sort_samples (tagged ptss')"] 4(2) ptss'(3)
      by (force simp: sample_new_def sort_samples_def dest!: tagged_times subsetD)
    moreover have "sorted_wrt (<) (map (\<lambda>s. sint (timestamp_ms s)) (map (\<lambda>(t, v). sample_new t v) (map snd ?m)))"
      using dedup_increasing [OF sort_samples_sorted, of "tagged ptss'"] by (simp add: comp_def sample_new_def case_prod_beta)
    ultimately show ?thesis using enc(2) by blast
  qed
qed

text \<open>A codec for the witnesses: the points one after the other, sixteen bytes each.\<close>

definition plain_decode_point :: "bytes \<Rightarrow> ((u64 \<times> u64) \<times> bytes, encoding_error) result" where
  "plain_decode_point buf =
     result_bind (decode_u64 buf) (\<lambda>(t, buf). result_map (\<lambda>(v, buf). ((t, v), buf)) (decode_u64 buf))"

definition plain_tsz :: tsz_ops where
  "plain_tsz = \<lparr>
     tsz_encode = (\<lambda>_ pts. concat (map (\<lambda>(t, v). encode_u64 t @ encode_u64 v) pts)),
     tsz_items = (\<lambda>bs. case decode_items plain_decode_point (length bs div 16) bs of Ok (pts, _) \<Rightarrow> map Ok pts | _ \<Rightarrow> [])\<rparr>"

lemma plain_tsz_items: "tsz_items plain_tsz (tsz_encode plain_tsz t pts) = map Ok pts"
proof -
  let ?enc = "\<lambda>(t :: u64, v :: u64). encode_u64 t @ encode_u64 v"
  have "length (concat (map ?enc pts)) = 16 * length pts"
    by (induction pts) (auto simp: encode_u64_def)
  moreover have "decode_items plain_decode_point (length pts) (concat (map ?enc pts) @ []) = Ok (pts, [])"
    by (rule decode_items_concat) (auto simp: plain_decode_point_def encode_u64_def decode_u64_def)
  ultimately show ?thesis by (simp add: plain_tsz_def)
qed

lemma plain_tsz_lossless: "tsz_lossless plain_tsz"
proof -
  have "tsz_encode plain_tsz t pts \<noteq> []" if "pts \<noteq> []" for t pts
  proof -
    have "encode_u64 v \<noteq> []" for v by (simp add: encode_u64_def flip: length_greater_0_conv)
    with that show ?thesis by (cases pts) (auto simp: plain_tsz_def)
  qed
  then show ?thesis by (auto simp: tsz_lossless_def tsz_fits_def plain_tsz_items)
qed

text \<open>
  C5. Merging is last write wins, and batching cannot be observed: when the operands of a key are merged into the existing value at
  once, or some of them first and the others into that result later, the merged bytes decode, and both hold for
  every timestamp the value of the newest operand which has it, and no other timestamp.
\<close>

theorem merge_batches_newest_wins:
  assumes "tsz_lossless tz" and "decoded_as tz (option_list existing @ first @ later) ptss" and "one_window ptss"
  shows "\<exists>once step twice once_pts twice_pts.
    merge_batch_time_series tz existing (first @ later) = Ok once
    \<and> merge_batch_time_series tz existing first = Ok step \<and> merge_batch_time_series tz (Some step) later = Ok twice
    \<and> time_series_value_decode tz once = Ok once_pts \<and> time_series_value_decode tz twice = Ok twice_pts
    \<and> series_content once_pts = newest_wins ptss \<and> series_content twice_pts = newest_wins ptss"
proof -
  obtain as bs where split: "ptss = as @ bs" "decoded_as tz (option_list existing @ first) as" "decoded_as tz later bs"
    using assms(2) list_all2_append1 [of _ "option_list existing @ first" later ptss] by (auto simp: decoded_as_def)
  obtain once once_pts where once: "merge_batch_time_series tz existing (first @ later) = Ok once"
      "time_series_value_decode tz once = Ok once_pts" "series_content once_pts = newest_wins ptss"
    using merge_batch_content [OF assms] by blast
  have "one_window as" using assms(3) by (auto simp: one_window_def split(1))
  then obtain step pts where step: "merge_batch_time_series tz existing first = Ok step" "time_series_value_decode tz step = Ok pts"
      "series_content pts = newest_wins as" "timestamp_ms ` set pts \<subseteq> timestamp_ms ` set (concat as)"
    using merge_batch_content [OF assms(1) split(2)] by blast
  have "decoded_as tz (option_list (Some step) @ later) (pts # bs)"
    using split(3) step(2) by (simp add: decoded_as_def option_list_def)
  moreover have "one_window (pts # bs)"
  proof -
    have "\<exists>s' \<in> set (concat ptss). timestamp_ms s' = timestamp_ms s" if "s \<in> set (concat (pts # bs))" for s
      using that step(4) split(1) by (fastforce dest: subsetD)
    with assms(3) show ?thesis unfolding one_window_def by metis
  qed
  ultimately obtain twice twice_pts where twice: "merge_batch_time_series tz (Some step) later = Ok twice"
      "time_series_value_decode tz twice = Ok twice_pts" "series_content twice_pts = newest_wins (pts # bs)"
    using merge_batch_content [OF assms(1)] by blast
  have "series_content twice_pts = newest_wins ptss"
    using newest_wins_append [of "[pts]" bs] newest_wins_append [of as bs] split(1) step(3) twice(3) by simp
  with once step(1) twice(1,2) show ?thesis by blast
qed

theorem merge_batches_newest_wins_witness:
  "\<exists>step twice pts. merge_batch_time_series plain_tsz None [tsz_encode plain_tsz 1 [(1, 10), (2, 20)], tsz_encode plain_tsz 2 [(2, 21)]] = Ok step
    \<and> merge_batch_time_series plain_tsz (Some step) [tsz_encode plain_tsz 2 [(2, 22), (3, 30)]] = Ok twice
    \<and> time_series_value_decode plain_tsz twice = Ok pts
    \<and> series_content pts = [1 \<mapsto> 10, 2 \<mapsto> 22, 3 \<mapsto> 30]"
proof -
  let ?p = "\<lambda>pts. map (\<lambda>(t, v). sample_new t v) pts" and ?e = "tsz_encode plain_tsz"
  have dec: "time_series_value_decode plain_tsz (?e (fst (hd pts)) pts) = Ok (?p pts)" if "tsz_fits pts" for pts
    using time_series_value_decode_encoded(2) [OF plain_tsz_lossless that] .
  have "decoded_as plain_tsz (option_list None @ [?e 1 [(1, 10), (2, 20)], ?e 2 [(2, 21)]] @ [?e 2 [(2, 22), (3, 30)]])
      [?p [(1, 10), (2, 20)], ?p [(2, 21)], ?p [(2, 22), (3, 30)]]"
    using dec [of "[(1, 10), (2, 20)]"] dec [of "[(2, 21)]"] dec [of "[(2, 22), (3, 30)]"]
    by (simp add: decoded_as_def option_list_def tsz_fits_def)
  moreover have "one_window [?p [(1, 10), (2, 20)], ?p [(2, 21)], ?p [(2, 22), (3, 30)]]"
    by (simp add: one_window_def sample_new_def)
  moreover have "newest_wins [?p [(1, 10), (2, 20)], ?p [(2, 21)], ?p [(2, 22), (3, 30)]] = [1 \<mapsto> 10, 2 \<mapsto> 22, 3 \<mapsto> 30]"
    by (simp add: newest_wins_def series_content_def sample_new_def map_add_def fun_eq_iff)
  ultimately show ?thesis using merge_batches_newest_wins [OF plain_tsz_lossless] by metis
qed

end
