(* ===== verification/Ts_Delta.thy ===== *)
theory Ts_Delta
  imports Ts_Series Coordinator "HOL-Library.AList"
begin

text \<open>
  Ingestion into one time bucket (\<open>timeseries/src/delta.rs\<close>, \<open>index.rs\<close> and the fingerprints of \<open>util.rs\<close>): the
  two indexes of a bucket and the delta that the write coordinator applies batches of series to.  A hash map is the list of its
  entries, each key once; nothing below depends on their order.  The digest is the \<open>blake3\<close> crate's, a parameter.

  The lemmas show that the delta keeps one series id for each fingerprint, below the next id, and indexes of the new series that agree
  with each other, and that applying a batch appends to each fingerprint exactly the samples of the batch.
\<close>

section \<open>Indexes\<close>

type_synonym forward_index = "(series_id \<times> series_spec) list"
type_synonym inverted_index = "(label \<times> u32 set) list"
type_synonym series_dict = "(series_fingerprint \<times> series_id) list"

definition forward_index_merge :: "forward_index \<Rightarrow> forward_index \<Rightarrow> forward_index" where
  "forward_index_merge idx other = foldl (\<lambda>idx (i, spec). AList.update i spec idx) idx other"

definition get_spec :: "forward_index \<Rightarrow> series_id \<Rightarrow> series_spec option" where
  "get_spec idx i = map_of idx i"

definition all_series :: "forward_index \<Rightarrow> (series_id \<times> series_spec) list" where
  "all_series idx = idx"

definition inverted_intersect :: "inverted_index \<Rightarrow> label list \<Rightarrow> u32 set" where
  "inverted_intersect idx terms =
     (if terms = [] then {}
      else case those (map (map_of idx) terms) of
             None \<Rightarrow> {}
           | Some bitmaps \<Rightarrow> let bitmaps = sort_key card bitmaps in foldl (\<inter>) (bitmaps ! 0) (drop 1 bitmaps))"

definition all_keys :: "inverted_index \<Rightarrow> label list" where
  "all_keys idx = map fst idx"

definition inverted_union :: "inverted_index \<Rightarrow> label list \<Rightarrow> u32 set" where
  "inverted_union idx terms =
     (if terms = [] then {}
      else foldl (\<lambda>result term. case map_of idx term of Some bitmap \<Rightarrow> result \<union> bitmap | None \<Rightarrow> result) {} terms)"

definition postings :: "inverted_index \<Rightarrow> label \<Rightarrow> u32 set" where
  "postings idx l = (case map_of idx l of Some bitmap \<Rightarrow> bitmap | None \<Rightarrow> {})"

definition inverted_insert :: "inverted_index \<Rightarrow> label \<Rightarrow> u32 set \<Rightarrow> inverted_index" where
  "inverted_insert idx l ids = AList.update l (postings idx l \<union> ids) idx"

definition inverted_merge :: "inverted_index \<Rightarrow> inverted_index \<Rightarrow> inverted_index" where
  "inverted_merge idx other = foldl (\<lambda>idx (l, ids). inverted_insert idx l ids) idx other"

section \<open>The delta of a bucket\<close>

record series_samples =
  ss_metric_name :: bytes
  ss_points :: "ts_sample list"

record tsdb_context =
  ctx_bucket :: time_bucket
  ctx_series_dict :: series_dict
  ctx_next_series_id :: u32

record frozen_tsdb_delta =
  fr_bucket :: time_bucket
  fr_forward_index :: forward_index
  fr_inverted_index :: inverted_index
  fr_series_dict_delta :: series_dict
  fr_samples :: "(series_id \<times> series_samples) list"

definition frozen_is_empty :: "frozen_tsdb_delta \<Rightarrow> bool" where
  "frozen_is_empty f \<longleftrightarrow> fr_samples f = [] \<and> fr_series_dict_delta f = []"

record tsdb_write_delta =
  wd_bucket :: time_bucket
  wd_series_dict_base :: series_dict
  wd_series_dict_delta :: series_dict
  wd_forward_index :: forward_index
  wd_inverted_index :: inverted_index
  wd_samples :: "(series_id \<times> series_samples) list"
  wd_next_series_id :: u32

definition fingerprint :: "(bytes \<Rightarrow> bytes) \<Rightarrow> label list \<Rightarrow> series_fingerprint" where
  "fingerprint blake3 labels =
     word_of_nat (le_val (take 16 (blake3 (concat (map (\<lambda>l. label_name l @ label_value l) labels)))))"

definition metric_name_of :: "label list \<Rightarrow> bytes" where
  "metric_name_of labels =
     (case find (\<lambda>l. label_name l = NAME_LABEL) labels of Some l \<Rightarrow> label_value l | None \<Rightarrow> [])"

text \<open>A series that is in neither dictionary gets the next id and is entered into both indexes.\<close>

definition new_series ::
    "tsdb_write_delta \<Rightarrow> series_fingerprint \<Rightarrow> label list \<Rightarrow> bytes option \<Rightarrow> metric_type option \<Rightarrow> tsdb_write_delta \<times> series_id" where
  "new_series d fp labels unit metric_type =
     (let i = wd_next_series_id d;
          spec = \<lparr>spec_unit = unit, spec_metric_type = metric_type, spec_labels = labels\<rparr> in
      (d\<lparr>wd_next_series_id := i + 1,
         wd_series_dict_delta := AList.update fp i (wd_series_dict_delta d),
         wd_forward_index := AList.update i spec (wd_forward_index d),
         wd_inverted_index := foldl (\<lambda>idx l. inverted_insert idx l {i}) (wd_inverted_index d) labels\<rparr>, i))"

definition series_id_of ::
    "tsdb_write_delta \<Rightarrow> series_fingerprint \<Rightarrow> label list \<Rightarrow> bytes option \<Rightarrow> metric_type option \<Rightarrow> tsdb_write_delta \<times> series_id" where
  "series_id_of d fp labels unit metric_type =
     (case map_of (wd_series_dict_delta d) fp of
        Some i \<Rightarrow> (d, i)
      | None \<Rightarrow> (case map_of (wd_series_dict_base d) fp of
                   Some i \<Rightarrow> (d, i)
                 | None \<Rightarrow> new_series d fp labels unit metric_type))"

definition push_sample :: "tsdb_write_delta \<Rightarrow> series_id \<Rightarrow> bytes \<Rightarrow> ts_sample \<Rightarrow> tsdb_write_delta" where
  "push_sample d i metric_name sample =
     (let ss = (case map_of (wd_samples d) i of
                  Some ss \<Rightarrow> ss
                | None \<Rightarrow> \<lparr>ss_metric_name = metric_name, ss_points = []\<rparr>) in
      d\<lparr>wd_samples := AList.update i (ss\<lparr>ss_points := ss_points ss @ [sample]\<rparr>) (wd_samples d)\<rparr>)"

definition ingest_sample ::
    "(bytes \<Rightarrow> bytes) \<Rightarrow> tsdb_write_delta \<Rightarrow> label list \<Rightarrow> bytes option \<Rightarrow> metric_type option \<Rightarrow> ts_sample
      \<Rightarrow> tsdb_write_delta \<times> (unit, string) result" where
  "ingest_sample blake3 d labels unit metric_type sample =
     (if \<not> in_bucket (wd_bucket d) (timestamp_ms sample)
      then (d, Err ''Sample timestamp {} is outside bucket range [{}, {})'')
      else case series_id_of d (fingerprint blake3 labels) labels unit metric_type of
             (d, i) \<Rightarrow> (push_sample d i (metric_name_of labels) sample, Ok ()))"

fun ingest_samples_loop ::
    "(bytes \<Rightarrow> bytes) \<Rightarrow> tsdb_write_delta \<Rightarrow> label list \<Rightarrow> bytes option \<Rightarrow> metric_type option \<Rightarrow> ts_sample list
      \<Rightarrow> tsdb_write_delta \<times> (unit, string) result" where
  "ingest_samples_loop blake3 d labels unit metric_type [] = (d, Ok ())"
| "ingest_samples_loop blake3 d labels unit metric_type (sample # samples) =
     (case ingest_sample blake3 d labels unit metric_type sample of
        (d, Ok _) \<Rightarrow> ingest_samples_loop blake3 d labels unit metric_type samples
      | (d, r) \<Rightarrow> (d, r))"

definition sorted_labels :: "ts_series \<Rightarrow> label list" where
  "sorted_labels series = sort_key label_name (series_labels series)"

definition delta_ingest :: "(bytes \<Rightarrow> bytes) \<Rightarrow> tsdb_write_delta \<Rightarrow> ts_series \<Rightarrow> tsdb_write_delta \<times> (unit, string) result" where
  "delta_ingest blake3 d series =
     ingest_samples_loop blake3 d (sorted_labels series) (series_unit series) (series_metric_type series) (series_samples series)"

definition tsdb_delta_init :: "tsdb_context \<Rightarrow> tsdb_write_delta" where
  "tsdb_delta_init c = \<lparr>wd_bucket = ctx_bucket c, wd_series_dict_base = ctx_series_dict c, wd_series_dict_delta = [],
     wd_forward_index = [], wd_inverted_index = [], wd_samples = [], wd_next_series_id = ctx_next_series_id c\<rparr>"

fun tsdb_delta_apply :: "(bytes \<Rightarrow> bytes) \<Rightarrow> tsdb_write_delta \<Rightarrow> ts_series list \<Rightarrow> tsdb_write_delta \<times> (unit, string) result" where
  "tsdb_delta_apply blake3 d [] = (d, Ok ())"
| "tsdb_delta_apply blake3 d (series # rest) =
     (case delta_ingest blake3 d series of
        (d, Ok _) \<Rightarrow> tsdb_delta_apply blake3 d rest
      | (d, r) \<Rightarrow> (d, r))"

definition tsdb_delta_estimate_size :: "tsdb_write_delta \<Rightarrow> nat" where
  "tsdb_delta_estimate_size d =
     sum_list (map (\<lambda>(i, ss). length (ss_points ss)) (wd_samples d)) * 16
     + length (wd_forward_index d) * 128 + length (wd_inverted_index d) * 64"

definition tsdb_delta_freeze :: "tsdb_write_delta \<Rightarrow> frozen_tsdb_delta \<times> unit \<times> tsdb_context" where
  "tsdb_delta_freeze d =
     (let merged = (if wd_series_dict_delta d = [] then wd_series_dict_base d
                    else foldl (\<lambda>m (fp, i). AList.update fp i m) (wd_series_dict_base d) (wd_series_dict_delta d)) in
      (\<lparr>fr_bucket = wd_bucket d, fr_forward_index = wd_forward_index d, fr_inverted_index = wd_inverted_index d,
         fr_series_dict_delta = wd_series_dict_delta d, fr_samples = wd_samples d\<rparr>, (),
       \<lparr>ctx_bucket = wd_bucket d, ctx_series_dict = merged, ctx_next_series_id = wd_next_series_id d\<rparr>))"

text \<open>The delta as the coordinator runs it.\<close>

definition tsdb_delta_ops ::
    "(bytes \<Rightarrow> bytes) \<Rightarrow> (tsdb_write_delta, tsdb_context, ts_series list, frozen_tsdb_delta, unit, unit, unit) delta_ops" where
  "tsdb_delta_ops blake3 = \<lparr>delta_init = tsdb_delta_init, delta_apply = tsdb_delta_apply blake3,
     delta_estimate_size = tsdb_delta_estimate_size, delta_freeze = tsdb_delta_freeze, delta_reader = (\<lambda>_. ())\<rparr>"

section \<open>Looking up terms\<close>

lemma map_of_update [simp]: "map_of (AList.update k v xs) k' = (if k' = k then Some v else map_of xs k')"
  by (simp add: update_conv')

lemma postings_insert: "postings (inverted_insert idx l ids) l' = postings idx l' \<union> (if l' = l then ids else {})"
  by (auto simp: postings_def inverted_insert_def)

lemma those_eq_None: "those xs = None \<longleftrightarrow> None \<in> set xs"
  by (induction xs) (auto split: option.splits)

lemma those_eq_Some: "those xs = Some ys \<longleftrightarrow> xs = map Some ys"
  by (induction xs arbitrary: ys) (auto split: option.splits simp: Cons_eq_map_conv)

lemma foldl_inter: "foldl (\<inter>) A Bs = A \<inter> \<Inter> (set Bs)"
  by (induction Bs arbitrary: A) auto

text \<open>Sorting the posting lists by length does not change the intersection.\<close>

lemma inverted_intersect_eq: "inverted_intersect idx terms = (if terms = [] then {} else \<Inter> (postings idx ` set terms))"
proof (cases "those (map (map_of idx) terms)")
  case None
  then obtain t where "t \<in> set terms" "map_of idx t = None" by (auto simp: those_eq_None)
  then have "postings idx t = {}" by (simp add: postings_def)
  with None \<open>t \<in> set terms\<close> show ?thesis by (force simp: inverted_intersect_def)
next
  case (Some bitmaps)
  then have eq: "map (map_of idx) terms = map Some bitmaps" by (simp add: those_eq_Some)
  then have "bitmaps = map (postings idx) terms"
    by (auto simp: postings_def list_eq_iff_nth_eq dest: map_eq_imp_length_eq)
  moreover have "foldl (\<inter>) (bs ! 0) (drop 1 bs) = \<Inter> (set bs)" if "bs \<noteq> []" for bs :: "u32 set list"
    using that by (cases bs) (simp_all add: foldl_inter)
  moreover have "sort_key card bitmaps \<noteq> []" if "terms \<noteq> []"
    using that eq by (auto simp flip: length_greater_0_conv dest: map_eq_imp_length_eq)
  ultimately show ?thesis using Some by (simp add: inverted_intersect_def)
qed

lemma inverted_union_eq: "inverted_union idx terms = \<Union> (postings idx ` set terms)"
proof -
  have "foldl (\<lambda>result term. case map_of idx term of Some bitmap \<Rightarrow> result \<union> bitmap | None \<Rightarrow> result) A terms
      = A \<union> \<Union> (postings idx ` set terms)" for A
    by (induction terms arbitrary: A) (auto simp: postings_def split: option.splits)
  then show ?thesis by (auto simp: inverted_union_def)
qed

lemma inverted_merge_postings:
  "distinct (map fst other) \<Longrightarrow> postings (inverted_merge idx other) l = postings idx l \<union> postings other l"
proof (induction other arbitrary: idx)
  case (Cons e other)
  obtain l' ids where e: "e = (l', ids)" by fastforce
  have "inverted_merge idx (e # other) = inverted_merge (inverted_insert idx l' ids) other"
    by (simp add: inverted_merge_def e)
  moreover have "l' \<noteq> l \<or> postings other l = {}" using Cons.prems e by (force simp: postings_def dest: map_of_SomeD split: option.splits)
  moreover have "postings (e # other) l = (if l' = l then ids else postings other l)" by (simp add: e postings_def)
  ultimately show ?case using Cons by (auto simp: postings_insert)
qed (simp add: inverted_merge_def postings_def)

section \<open>What the delta holds\<close>

definition delta_dict :: "tsdb_write_delta \<Rightarrow> series_fingerprint \<Rightarrow> series_id option" where
  "delta_dict d fp = (map_of (wd_series_dict_base d) ++ map_of (wd_series_dict_delta d)) fp"

definition id_points :: "tsdb_write_delta \<Rightarrow> series_id \<Rightarrow> ts_sample list" where
  "id_points d i = (case map_of (wd_samples d) i of Some ss \<Rightarrow> ss_points ss | None \<Rightarrow> [])"

definition delta_held :: "tsdb_write_delta \<Rightarrow> series_fingerprint \<Rightarrow> ts_sample list" where
  "delta_held d fp = (case delta_dict d fp of Some i \<Rightarrow> id_points d i | None \<Rightarrow> [])"

definition delta_keys_distinct :: "tsdb_write_delta \<Rightarrow> bool" where
  "delta_keys_distinct d \<longleftrightarrow> distinct (map fst (wd_series_dict_base d)) \<and> distinct (map fst (wd_series_dict_delta d))
     \<and> distinct (map fst (wd_forward_index d)) \<and> distinct (map fst (wd_inverted_index d)) \<and> distinct (map fst (wd_samples d))"

definition dict_ok :: "tsdb_write_delta \<Rightarrow> bool" where
  "dict_ok d \<longleftrightarrow> (\<forall>fp i. delta_dict d fp = Some i \<longrightarrow> i < wd_next_series_id d)
     \<and> (\<forall>fp fp' i. delta_dict d fp = Some i \<longrightarrow> delta_dict d fp' = Some i \<longrightarrow> fp = fp')"

definition index_ok :: "(bytes \<Rightarrow> bytes) \<Rightarrow> tsdb_write_delta \<Rightarrow> bool" where
  "index_ok blake3 d \<longleftrightarrow>
     (\<forall>fp i. map_of (wd_series_dict_delta d) fp = Some i \<longleftrightarrow>
        (\<exists>spec. map_of (wd_forward_index d) i = Some spec \<and> fingerprint blake3 (spec_labels spec) = fp))
     \<and> (\<forall>l i. i \<in> postings (wd_inverted_index d) l \<longleftrightarrow>
        (\<exists>spec. map_of (wd_forward_index d) i = Some spec \<and> l \<in> set (spec_labels spec)))"

definition samples_ok :: "tsdb_write_delta \<Rightarrow> bool" where
  "samples_ok d \<longleftrightarrow> (\<forall>i ss. map_of (wd_samples d) i = Some ss \<longrightarrow>
     ss_points ss \<noteq> [] \<and> (\<forall>s \<in> set (ss_points ss). in_bucket (wd_bucket d) (timestamp_ms s)) \<and> (\<exists>fp. delta_dict d fp = Some i))"

definition delta_ok :: "(bytes \<Rightarrow> bytes) \<Rightarrow> tsdb_write_delta \<Rightarrow> bool" where
  "delta_ok blake3 d \<longleftrightarrow> delta_keys_distinct d \<and> dict_ok d \<and> index_ok blake3 d \<and> samples_ok d"

text \<open>A dictionary as a freeze or a load should leave it: each id once, all below the next.\<close>

definition context_ok :: "tsdb_context \<Rightarrow> bool" where
  "context_ok c \<longleftrightarrow> distinct (map fst (ctx_series_dict c))
     \<and> (\<forall>fp i. map_of (ctx_series_dict c) fp = Some i \<longrightarrow> i < ctx_next_series_id c)
     \<and> (\<forall>fp fp' i. map_of (ctx_series_dict c) fp = Some i \<longrightarrow> map_of (ctx_series_dict c) fp' = Some i \<longrightarrow> fp = fp')"

lemma delta_ok_init: "context_ok c \<Longrightarrow> delta_ok blake3 (tsdb_delta_init c)"
  by (auto simp: context_ok_def delta_ok_def delta_keys_distinct_def dict_ok_def index_ok_def samples_ok_def tsdb_delta_init_def
      delta_dict_def postings_def)

lemma unat_max_u32: "unat (- 1 :: u32) = 4294967295"
  by (simp add: unsigned_minus_1_eq_mask mask_eq_exp_minus_1)

lemma unat_next_u32: "(w :: u32) \<noteq> - 1 \<Longrightarrow> unat (w + 1) = Suc (unat w)"
  using unatSuc [of w] eq_neg_iff_add_eq_0 [of w 1] by (simp add: add.commute)

lemma less_next_u32: "(w :: u32) \<noteq> - 1 \<Longrightarrow> w < w + 1"
  by (simp add: word_less_nat_alt unat_next_u32)

lemma foldl_postings:
  "i \<in> postings (foldl (\<lambda>idx l. inverted_insert idx l {n}) idx labels) l \<longleftrightarrow> i \<in> postings idx l \<or> i = n \<and> l \<in> set labels"
  by (induction labels arbitrary: idx) (auto simp: postings_insert)

lemma foldl_insert_distinct:
  "distinct (map fst idx) \<Longrightarrow> distinct (map fst (foldl (\<lambda>idx l. inverted_insert idx l {n}) idx labels))"
  by (induction labels arbitrary: idx) (simp_all add: inverted_insert_def distinct_update)

lemma series_id_of_known:
  assumes "delta_dict d fp = Some i"
  shows "series_id_of d fp labels unit mt = (d, i)"
  using assms by (auto simp: series_id_of_def delta_dict_def map_add_Some_iff split: option.splits)

lemma series_id_of_new:
  assumes "delta_dict d fp = None"
  shows "series_id_of d fp labels unit mt = new_series d fp labels unit mt"
  using assms by (simp add: series_id_of_def delta_dict_def map_add_None)

lemma new_series_dict:
  assumes "new_series d fp labels unit mt = (d', i)" and "delta_dict d fp = None"
  shows "delta_dict d' = (delta_dict d)(fp \<mapsto> i)" "i = wd_next_series_id d" "wd_samples d' = wd_samples d" "wd_bucket d' = wd_bucket d"
    "wd_next_series_id d' = wd_next_series_id d + 1"
  using assms by (auto simp: new_series_def Let_def delta_dict_def fun_eq_iff map_add_def split: option.splits)

lemma fresh_id:
  assumes "delta_ok blake3 d"
  shows "delta_dict d fp \<noteq> Some (wd_next_series_id d)" "map_of (wd_samples d) (wd_next_series_id d) = None"
    "map_of (wd_forward_index d) (wd_next_series_id d) = None"
proof -
  show no: "delta_dict d fp \<noteq> Some (wd_next_series_id d)" for fp
    using assms by (auto simp: delta_ok_def dict_ok_def)
  show "map_of (wd_samples d) (wd_next_series_id d) = None"
    using assms no unfolding delta_ok_def samples_ok_def by (metis not_None_eq)
  show "map_of (wd_forward_index d) (wd_next_series_id d) = None"
  proof (rule ccontr)
    assume "map_of (wd_forward_index d) (wd_next_series_id d) \<noteq> None"
    then obtain spec where "map_of (wd_forward_index d) (wd_next_series_id d) = Some spec" by blast
    with assms have "map_of (wd_series_dict_delta d) (fingerprint blake3 (spec_labels spec)) = Some (wd_next_series_id d)"
      by (auto simp: delta_ok_def index_ok_def)
    then have "delta_dict d (fingerprint blake3 (spec_labels spec)) = Some (wd_next_series_id d)"
      by (simp add: delta_dict_def)
    with no show False by blast
  qed
qed

lemma delta_ok_new_series:
  assumes ok: "delta_ok blake3 d" and new: "new_series d fp labels unit mt = (d', i)" and none: "delta_dict d fp = None"
    and fp: "fingerprint blake3 labels = fp" and room: "wd_next_series_id d \<noteq> - 1"
  shows "delta_ok blake3 d'"
proof -
  note nd = new_series_dict [OF new none] and fresh = fresh_id [OF ok]
  have d': "wd_series_dict_delta d' = AList.update fp i (wd_series_dict_delta d)"
      "wd_forward_index d' = AList.update i \<lparr>spec_unit = unit, spec_metric_type = mt, spec_labels = labels\<rparr> (wd_forward_index d)"
      "wd_inverted_index d' = foldl (\<lambda>idx l. inverted_insert idx l {i}) (wd_inverted_index d) labels"
      "wd_series_dict_base d' = wd_series_dict_base d"
    using new by (auto simp: new_series_def Let_def)
  have "delta_keys_distinct d'" using ok d' nd(3)
    by (simp add: delta_ok_def delta_keys_distinct_def distinct_update foldl_insert_distinct)
  moreover have "dict_ok d'"
  proof -
    have lt: "wd_next_series_id d < wd_next_series_id d + 1" using room by (rule less_next_u32)
    have "\<And>fp i. delta_dict d fp = Some i \<Longrightarrow> i < wd_next_series_id d" using ok by (auto simp: delta_ok_def dict_ok_def)
    with lt have "\<And>fp i. delta_dict d fp = Some i \<Longrightarrow> i < wd_next_series_id d + 1" by (metis order.strict_trans)
    moreover have "\<And>fp fp' i. delta_dict d fp = Some i \<Longrightarrow> delta_dict d fp' = Some i \<Longrightarrow> fp = fp'"
      using ok by (auto simp: delta_ok_def dict_ok_def)
    ultimately show ?thesis using lt fresh(1) by (auto simp: dict_ok_def nd)
  qed
  moreover have "index_ok blake3 d'"
  proof -
    have none': "map_of (wd_series_dict_delta d) fp = None" using none by (simp add: delta_dict_def map_add_None)
    have "map_of (wd_series_dict_delta d) fp' \<noteq> Some i" for fp'
      using fresh(1) [of fp'] nd(2) by (auto simp: delta_dict_def)
    moreover have "fingerprint blake3 (spec_labels spec) \<noteq> fp" if "map_of (wd_forward_index d) j = Some spec" for j spec
      using ok that none' unfolding delta_ok_def index_ok_def by (metis option.distinct(1))
    ultimately show ?thesis using ok fresh(3) none'
      by (auto simp: delta_ok_def index_ok_def d' nd(2) foldl_postings fp)
  qed
  moreover have "samples_ok d'"
    using ok fresh(2) nd by (auto simp: delta_ok_def samples_ok_def) (metis none option.distinct(1))
  ultimately show ?thesis by (simp add: delta_ok_def)
qed

section \<open>A batch is a log of samples\<close>

text \<open>
  A batch as the list of its samples with the fingerprints of their series.  The samples are taken in this order until
  one lies outside the bucket.
\<close>

type_synonym sample_event = "series_fingerprint \<times> ts_sample"

definition series_events :: "(bytes \<Rightarrow> bytes) \<Rightarrow> ts_series \<Rightarrow> sample_event list" where
  "series_events blake3 series = map (Pair (fingerprint blake3 (sorted_labels series))) (series_samples series)"

definition batch_events :: "(bytes \<Rightarrow> bytes) \<Rightarrow> ts_series list \<Rightarrow> sample_event list" where
  "batch_events blake3 batch = concat (map (series_events blake3) batch)"

definition event_fits :: "time_bucket \<Rightarrow> sample_event \<Rightarrow> bool" where
  "event_fits b e = in_bucket b (timestamp_ms (snd e))"

definition points_of :: "series_fingerprint \<Rightarrow> sample_event list \<Rightarrow> ts_sample list" where
  "points_of fp evs = map snd (filter (\<lambda>e. fst e = fp) evs)"

definition ingests :: "(bytes \<Rightarrow> bytes) \<Rightarrow> tsdb_write_delta \<Rightarrow> sample_event list \<Rightarrow> tsdb_write_delta \<times> (unit, string) result \<Rightarrow> bool" where
  "ingests blake3 d evs out \<longleftrightarrow> delta_ok blake3 (fst out) \<and> wd_bucket (fst out) = wd_bucket d
     \<and> (\<forall>fp. delta_held (fst out) fp = delta_held d fp @ points_of fp (takeWhile (event_fits (wd_bucket d)) evs))
     \<and> snd out = (if list_all (event_fits (wd_bucket d)) evs then Ok ()
                  else Err ''Sample timestamp {} is outside bucket range [{}, {})'')"

lemma ingests_append:
  assumes "ingests blake3 d evs (d1, Ok u)" and "ingests blake3 d1 evs' out"
  shows "ingests blake3 d (evs @ evs') out"
proof -
  have all: "list_all (event_fits (wd_bucket d)) evs" using assms(1) by (auto simp: ingests_def split: if_splits)
  then have "takeWhile (event_fits (wd_bucket d)) evs = evs"
      "takeWhile (event_fits (wd_bucket d)) (evs @ evs') = evs @ takeWhile (event_fits (wd_bucket d)) evs'"
    by (simp_all add: list_all_iff takeWhile_append2)
  with assms all show ?thesis by (auto simp: ingests_def points_of_def)
qed

lemma ingests_stops:
  assumes "ingests blake3 d evs (d1, r)" and "r \<noteq> Ok ()"
  shows "ingests blake3 d (evs @ evs') (d1, r)"
proof -
  have "\<not> list_all (event_fits (wd_bucket d)) evs" using assms by (auto simp: ingests_def)
  then obtain e where "e \<in> set evs" "\<not> event_fits (wd_bucket d) e" by (auto simp: list_all_iff)
  then have "takeWhile (event_fits (wd_bucket d)) (evs @ evs') = takeWhile (event_fits (wd_bucket d)) evs"
      "\<not> list_all (event_fits (wd_bucket d)) evs" by (auto simp: takeWhile_append1 list_all_iff)
  with assms(1) show ?thesis by (simp add: ingests_def)
qed

lemma push_sample_same [simp]:
  "wd_bucket (push_sample d i n s) = wd_bucket d" "delta_dict (push_sample d i n s) = delta_dict d"
  "wd_series_dict_delta (push_sample d i n s) = wd_series_dict_delta d" "wd_series_dict_base (push_sample d i n s) = wd_series_dict_base d"
  "wd_forward_index (push_sample d i n s) = wd_forward_index d" "wd_inverted_index (push_sample d i n s) = wd_inverted_index d"
  "wd_next_series_id (push_sample d i n s) = wd_next_series_id d"
  by (simp_all add: push_sample_def Let_def delta_dict_def fun_eq_iff)

lemma push_sample_ok:
  assumes ok: "delta_ok blake3 d" and i: "delta_dict d fp = Some i" and s: "in_bucket (wd_bucket d) (timestamp_ms s)"
  shows "ingests blake3 d [(fp, s)] (push_sample d i n s, Ok ())"
proof -
  let ?d = "push_sample d i n s"
  have pts: "id_points ?d j = id_points d j @ (if j = i then [s] else [])" for j
    by (auto simp: push_sample_def Let_def id_points_def split: option.splits)
  have "samples_ok ?d"
  proof -
    have old: "ss_points ss \<noteq> [] \<and> (\<forall>s \<in> set (ss_points ss). in_bucket (wd_bucket d) (timestamp_ms s)) \<and> (\<exists>fp. delta_dict d fp = Some j)"
      if "map_of (wd_samples d) j = Some ss" for j ss using ok that by (simp add: delta_ok_def samples_ok_def)
    then show ?thesis using i s
      by (auto simp: samples_ok_def) (auto simp: push_sample_def Let_def split: if_splits option.splits)
  qed
  then have "delta_ok blake3 ?d" using ok
    by (simp add: delta_ok_def delta_keys_distinct_def dict_ok_def index_ok_def) (simp add: push_sample_def Let_def distinct_update)
  moreover have "delta_held ?d fp' = delta_held d fp' @ (if fp' = fp then [s] else [])" for fp'
    using i ok by (auto simp: delta_held_def pts delta_ok_def dict_ok_def split: option.splits)
  ultimately show ?thesis using s by (simp add: ingests_def event_fits_def points_of_def)
qed

lemma ingest_sample_ok:
  assumes ok: "delta_ok blake3 d" and room: "delta_dict d fp = None \<Longrightarrow> wd_next_series_id d \<noteq> - 1"
    and fp: "fingerprint blake3 labels = fp" and out: "ingest_sample blake3 d labels unit mt s = (d', r)"
  shows "ingests blake3 d [(fp, s)] (d', r)"
    and "unat (wd_next_series_id d') \<le> unat (wd_next_series_id d) + (if delta_dict d fp = None then 1 else 0)"
    and "r = Ok () \<Longrightarrow> delta_dict d' fp \<noteq> None"
proof -
  obtain d1 i where d1: "series_id_of d fp labels unit mt = (d1, i)" by fastforce
  have d1_ok: "delta_ok blake3 d1 \<and> delta_dict d1 fp = Some i \<and> wd_bucket d1 = wd_bucket d \<and> delta_held d1 = delta_held d
      \<and> unat (wd_next_series_id d1) \<le> unat (wd_next_series_id d) + (if delta_dict d fp = None then 1 else 0)"
  proof (cases "delta_dict d fp")
    case None
    then have new: "new_series d fp labels unit mt = (d1, i)" using d1 by (simp add: series_id_of_new)
    note nd = new_series_dict [OF new None]
    have "id_points d1 = id_points d" using nd(3) by (simp add: id_points_def fun_eq_iff)
    moreover have "id_points d (wd_next_series_id d) = []" using fresh_id(2) [OF ok] by (simp add: id_points_def)
    ultimately have "delta_held d1 = delta_held d" using nd(1,2) None by (intro ext) (simp add: delta_held_def split: option.split)
    moreover have "delta_ok blake3 d1" using delta_ok_new_series [OF ok new None fp] room [OF None] by simp
    ultimately show ?thesis using nd None room [OF None] by (simp add: unat_next_u32)
  next
    case (Some j)
    then show ?thesis using d1 ok by (simp add: series_id_of_known)
  qed
  show "ingests blake3 d [(fp, s)] (d', r)"
  proof (cases "in_bucket (wd_bucket d) (timestamp_ms s)")
    case True
    then have "ingests blake3 d1 [(fp, s)] (push_sample d1 i (metric_name_of labels) s, Ok ())"
      using d1_ok by (intro push_sample_ok) simp_all
    moreover have "(d', r) = (push_sample d1 i (metric_name_of labels) s, Ok ())"
      using out True by (simp add: ingest_sample_def fp d1)
    ultimately show ?thesis using d1_ok by (simp add: ingests_def)
  next
    case False
    with out ok show ?thesis by (auto simp: ingest_sample_def ingests_def event_fits_def points_of_def)
  qed
  have d': "d' = d \<or> d' = push_sample d1 i (metric_name_of labels) s"
    using out by (auto simp: ingest_sample_def fp d1 split: if_splits)
  then show "unat (wd_next_series_id d') \<le> unat (wd_next_series_id d) + (if delta_dict d fp = None then 1 else 0)"
    using d1_ok by auto
  show "r = Ok () \<Longrightarrow> delta_dict d' fp \<noteq> None"
    using out d1_ok by (auto simp: ingest_sample_def fp d1 split: if_splits)
qed

lemma ingest_samples_loop_ok:
  assumes "delta_ok blake3 d" and "delta_dict d fp = None \<Longrightarrow> wd_next_series_id d \<noteq> - 1"
    and "fingerprint blake3 labels = fp" and "ingest_samples_loop blake3 d labels unit mt samples = (d', r)"
  shows "ingests blake3 d (map (Pair fp) samples) (d', r)
    \<and> unat (wd_next_series_id d') \<le> unat (wd_next_series_id d) + (if delta_dict d fp = None then 1 else 0)"
  using assms
proof (induction samples arbitrary: d)
  case Nil
  then show ?case by (simp add: ingests_def points_of_def)
next
  case (Cons s samples)
  obtain d1 r1 where s: "ingest_sample blake3 d labels unit mt s = (d1, r1)" by fastforce
  note one = ingest_sample_ok [OF Cons.prems(1,2,3) s]
  show ?case
  proof (cases "r1 = Ok ()")
    case True
    with one(3) have known: "delta_dict d1 fp \<noteq> None" by simp
    have ok1: "delta_ok blake3 d1" using one(1) Cons.prems by (auto simp: ingests_def)
    have "ingests blake3 d1 (map (Pair fp) samples) (d', r) \<and> unat (wd_next_series_id d') \<le> unat (wd_next_series_id d1)"
      using Cons.IH [OF ok1] known Cons.prems(3,4) s True by simp
    with one(2) ingests_append [of blake3 d "[(fp, s)]" d1 "()"] one(1) True Cons.prems show ?thesis by auto
  next
    case False
    with Cons.prems(4) s have "d1 = d'" "r1 = r" by (auto split: result.splits)
    with ingests_stops [of blake3 d "[(fp, s)]" d1 r1] one(1,2) False Cons.prems show ?thesis by auto
  qed
qed

lemma tsdb_delta_apply_ok:
  assumes "delta_ok blake3 d" and "unat (wd_next_series_id d) + length batch < 2 ^ 32"
  shows "ingests blake3 d (batch_events blake3 batch) (tsdb_delta_apply blake3 d batch)"
  using assms
proof (induction batch arbitrary: d)
  case Nil
  then show ?case by (simp add: ingests_def points_of_def batch_events_def)
next
  case (Cons series batch)
  obtain d1 r1 where d1: "delta_ingest blake3 d series = (d1, r1)" by fastforce
  have "wd_next_series_id d \<noteq> - 1" using Cons.prems(2) unat_max_u32 by auto
  then have one: "ingests blake3 d (series_events blake3 series) (d1, r1)"
      "unat (wd_next_series_id d1) \<le> unat (wd_next_series_id d) + 1"
    using ingest_samples_loop_ok [OF Cons.prems(1) _ refl d1 [unfolded delta_ingest_def]]
    by (auto simp: series_events_def split: if_splits)
  have ev: "batch_events blake3 (series # batch) = series_events blake3 series @ batch_events blake3 batch"
    by (simp add: batch_events_def)
  show ?case
  proof (cases "r1 = Ok ()")
    case True
    then have "ingests blake3 d1 (batch_events blake3 batch) (tsdb_delta_apply blake3 d1 batch)"
      using Cons.prems(2) one by (intro Cons.IH) (auto simp: ingests_def)
    with one(1) True show ?thesis unfolding ev by (simp add: d1 ingests_append)
  next
    case False
    then have "tsdb_delta_apply blake3 d (series # batch) = (d1, r1)" by (simp add: d1 split: result.splits)
    with one(1) False show ?thesis unfolding ev by (simp add: ingests_stops)
  qed
qed

lemma dict_extend: "distinct (map fst xs) \<Longrightarrow> map_of (foldl (\<lambda>m (k, v). AList.update k v m) m xs) = map_of m ++ map_of xs"
proof (induction xs arbitrary: m)
  case (Cons x xs)
  then have "fst x \<notin> dom (map_of xs)" by (simp add: dom_map_of_conv_image_fst)
  with Cons show ?case by (cases x) (auto simp: fun_eq_iff map_add_def split: option.splits)
qed simp

lemma dict_extend_distinct: "distinct (map fst m) \<Longrightarrow> distinct (map fst (foldl (\<lambda>m (k, v). AList.update k v m) m xs))"
  by (induction xs arbitrary: m) (auto simp: distinct_update)

lemma tsdb_delta_freeze_context:
  assumes "delta_ok blake3 d" and "tsdb_delta_freeze d = (f, u, c)"
  shows "context_ok c" and "map_of (ctx_series_dict c) = delta_dict d"
proof -
  show dict: "map_of (ctx_series_dict c) = delta_dict d"
    using assms by (auto simp: tsdb_delta_freeze_def Let_def delta_ok_def delta_keys_distinct_def delta_dict_def fun_eq_iff dict_extend)
  have "distinct (map fst (ctx_series_dict c))" "ctx_next_series_id c = wd_next_series_id d"
    using assms by (auto simp: tsdb_delta_freeze_def Let_def delta_ok_def delta_keys_distinct_def dict_extend_distinct)
  with assms(1) dict show "context_ok c" by (auto simp: context_ok_def delta_ok_def dict_ok_def)
qed

text \<open>
  C10. The delta refines a log of samples.  Applying a batch keeps the delta consistent (each series id belongs to one
  fingerprint and is below the next id, the forward index holds exactly the new series, the inverted index exactly their labels,
  every stored point is in the bucket) and appends to the points of each fingerprint the batch's samples of that fingerprint in their
  order, up to the first sample outside the bucket; the result is Ok exactly when there is none.
  A freeze after it gives a context whose dictionary is again consistent, so the next delta starts consistent.
\<close>

theorem delta_refines_sample_log:
  assumes "delta_ok blake3 d" and "unat (wd_next_series_id d) + length batch < 2 ^ 32"
    and "tsdb_delta_apply blake3 d batch = (d', r)"
  shows "delta_ok blake3 d'
    \<and> (\<forall>fp. delta_held d' fp = delta_held d fp
          @ points_of fp (takeWhile (event_fits (wd_bucket d)) (batch_events blake3 batch)))
    \<and> (r = Ok () \<longleftrightarrow> list_all (event_fits (wd_bucket d)) (batch_events blake3 batch))
    \<and> delta_ok blake3 (tsdb_delta_init (snd (snd (tsdb_delta_freeze d'))))"
proof -
  have "ingests blake3 d (batch_events blake3 batch) (d', r)" using tsdb_delta_apply_ok [OF assms(1,2)] assms(3) by simp
  moreover have "delta_ok blake3 (tsdb_delta_init (snd (snd (tsdb_delta_freeze d'))))" if "delta_ok blake3 d'"
    using tsdb_delta_freeze_context(1) [OF that] delta_ok_init by (metis prod.collapse)
  ultimately show ?thesis by (auto simp: ingests_def)
qed

theorem delta_refines_sample_log_witness:
  "\<exists>d'. tsdb_delta_apply (\<lambda>_. []) (tsdb_delta_init \<lparr>ctx_bucket = time_bucket_hour 0, ctx_series_dict = [], ctx_next_series_id = 0\<rparr>)
      [\<lparr>series_labels = [], series_metric_type = None, series_unit = None, series_description = None,
        series_samples = [sample_new 1 2, sample_new (- 1) 3]\<rparr>] = (d', Err ''Sample timestamp {} is outside bucket range [{}, {})'')
    \<and> delta_held d' 0 = [sample_new 1 2]"
proof -
  let ?c = "\<lparr>ctx_bucket = time_bucket_hour 0, ctx_series_dict = [], ctx_next_series_id = 0\<rparr>"
  let ?s = "\<lparr>series_labels = [], series_metric_type = None, series_unit = None, series_description = None,
        series_samples = [sample_new 1 2, sample_new (- 1) 3]\<rparr>"
  let ?d = "tsdb_delta_init ?c"
  have ok: "delta_ok (\<lambda>_. []) ?d" by (rule delta_ok_init) (simp add: context_ok_def)
  have fp: "fingerprint (\<lambda>_. []) ls = 0" for ls by (simp add: fingerprint_def le_val_def be_val_def)
  have b: "in_bucket (time_bucket_hour 0) 1" "\<not> in_bucket (time_bucket_hour 0) (- 1)"
    by (simp_all add: in_bucket_iff time_bucket_hour_def size_in_mins_def)
  have "tsdb_delta_apply (\<lambda>_. []) ?d [?s] = (push_sample (fst (new_series ?d 0 [] None None)) 0 [] (sample_new 1 2),
      Err ''Sample timestamp {} is outside bucket range [{}, {})'')"
    using b by (simp add: delta_ingest_def ingest_sample_def fp sample_new_def series_id_of_def tsdb_delta_init_def
        sorted_labels_def new_series_def Let_def metric_name_of_def push_sample_def)
  moreover have "points_of 0 (takeWhile (event_fits (wd_bucket ?d)) (batch_events (\<lambda>_. []) [?s])) = [sample_new 1 2]"
    using b by (simp add: batch_events_def series_events_def fp event_fits_def tsdb_delta_init_def sample_new_def points_of_def)
  moreover have "delta_held ?d 0 = []" by (simp add: delta_held_def delta_dict_def tsdb_delta_init_def)
  ultimately show ?thesis
    using delta_refines_sample_log [OF ok, of "[?s]"] by (simp add: tsdb_delta_init_def)
qed



end
