(* ===== verification/Ts_Storage.thy ===== *)
theory Ts_Storage
  imports Ts_Delta In_Memory
begin

text \<open>
  The records of the time series database in a storage (\<open>timeseries/src/storage\<close>, \<open>flusher.rs\<close>, \<open>minitsdb.rs\<close>): the
  operations that a flush makes of a frozen delta, the merge operator that combines their operands, the queries of a bucket, and
  the loading of a bucket's dictionary.

  A flush is independent of the order in which the hash maps of the delta are iterated, since its operations are for different keys.
  The lemmas show that a flush through a storage that applies merges makes exactly the samples, series and postings of the delta
  visible in its snapshot, on top of what was there; the locale \<open>merging_storage\<close> says what such a storage promises and is
  interpreted on the in-memory storage with the database's merge operator.
\<close>

section \<open>Errors\<close>

primrec ts_error_of_storage :: "storage_error \<Rightarrow> ts_error" where
  "ts_error_of_storage (Storage msg) = TsStorage msg"
| "ts_error_of_storage (Internal msg) = TsInternal msg"

text \<open>\<open>Display\<close>; the arguments of a message are not rendered.\<close>

fun ts_error_string :: "ts_error \<Rightarrow> string" where
  "ts_error_string (TsStorage msg) = ''Storage error: '' @ msg"
| "ts_error_string (TsEncoding msg args) = ''Encoding error: '' @ msg"
| "ts_error_string (TsInvalidInput msg args) = ''Invalid input: '' @ msg"
| "ts_error_string (TsInternal msg) = ''Internal error: '' @ msg"
| "ts_error_string TsBackpressure = ''Backpressure: write queue is full''"

primrec option_or_panic :: "'a option \<Rightarrow> ('a, 'e) result" where
  "option_or_panic None = Panic"
| "option_or_panic (Some a) = Ok a"

section \<open>Merging\<close>

primrec union_operands :: "roaring_ops \<Rightarrow> u32 set \<Rightarrow> bytes list \<Rightarrow> (u32 set, encoding_error) result" where
  "union_operands ro merged [] = Ok merged"
| "union_operands ro merged (operand # operands) =
     result_bind (inverted_index_value_decode ro operand) (\<lambda>bitmap. union_operands ro (merged \<union> bitmap) operands)"

definition merge_batch_inverted_index :: "roaring_ops \<Rightarrow> bytes option \<Rightarrow> bytes list \<Rightarrow> (bytes, encoding_error) result" where
  "merge_batch_inverted_index ro existing operands =
     result_bind (case existing of Some e \<Rightarrow> inverted_index_value_decode ro e | None \<Rightarrow> Ok {}) (\<lambda>merged.
     result_bind (union_operands ro merged operands) (inverted_index_value_encode ro))"

definition add_bucket :: "bucket_list_value \<Rightarrow> bucket_size \<times> bucket_start \<Rightarrow> bucket_list_value" where
  "add_bucket buckets bucket = (if bucket \<notin> set buckets then buckets @ [bucket] else buckets)"

primrec collect_buckets :: "bucket_list_value \<Rightarrow> bytes list \<Rightarrow> (bucket_list_value, encoding_error) result" where
  "collect_buckets buckets [] = Ok buckets"
| "collect_buckets buckets (operand # operands) =
     result_bind (bucket_list_value_decode operand) (\<lambda>other_buckets. collect_buckets (foldl add_bucket buckets other_buckets) operands)"

definition merge_batch_bucket_list :: "bytes option \<Rightarrow> bytes list \<Rightarrow> (bytes, encoding_error) result" where
  "merge_batch_bucket_list existing operands =
     result_bind (case existing of Some e \<Rightarrow> bucket_list_value_decode e | None \<Rightarrow> Ok []) (\<lambda>buckets.
     result_map (\<lambda>buckets. bucket_list_value_encode (sort_key snd buckets)) (collect_buckets buckets operands))"

text \<open>\<open>OpenTsdbMergeOperator\<close>; \<^const>\<open>None\<close> where it panics.\<close>

definition open_tsdb_merge_batch :: "tsz_ops \<Rightarrow> roaring_ops \<Rightarrow> bytes \<Rightarrow> bytes option \<Rightarrow> bytes list \<Rightarrow> bytes option" where
  "open_tsdb_merge_batch tz ro key existing operands =
     (case key_prefix_from_bytes key of
        Ok key_prefix \<Rightarrow>
          (case ts_record_type_from_prefix key_prefix of
             Ok InvertedIndexType \<Rightarrow> (case merge_batch_inverted_index ro existing operands of Ok v \<Rightarrow> Some v | _ \<Rightarrow> None)
           | Ok TimeSeriesType \<Rightarrow> (case merge_batch_time_series tz existing operands of Ok v \<Rightarrow> Some v | _ \<Rightarrow> None)
           | Ok BucketListType \<Rightarrow> (case merge_batch_bucket_list existing operands of Ok v \<Rightarrow> Some v | _ \<Rightarrow> None)
           | Ok _ \<Rightarrow> default_merge_batch key existing operands (\<lambda>_ _ v. v)
           | _ \<Rightarrow> None)
      | _ \<Rightarrow> None)"

section \<open>Operations of a flush\<close>

definition merge_bucket_list :: "time_bucket \<Rightarrow> ttl \<Rightarrow> (record_op, ts_error) result" where
  "merge_bucket_list b t =
     Ok (Merge (merge_record_op_new_with_ttl
       (record_new bucket_list_key_encode (bucket_list_value_encode [(tb_size b, tb_start b)])) \<lparr>merge_ttl = t\<rparr>))"

definition insert_series_id :: "time_bucket \<Rightarrow> series_fingerprint \<Rightarrow> series_id \<Rightarrow> ttl \<Rightarrow> (record_op, ts_error) result" where
  "insert_series_id b fp i t =
     result_map (\<lambda>key. Put (put_record_op_new_with_options (record_new key (series_dictionary_value_encode i)) \<lparr>put_ttl = t\<rparr>))
       (option_or_panic (series_dictionary_key_encode \<lparr>sdk_bucket = b, sdk_fingerprint = fp\<rparr>))"

definition insert_forward_index :: "time_bucket \<Rightarrow> series_id \<Rightarrow> series_spec \<Rightarrow> ttl \<Rightarrow> (record_op, ts_error) result" where
  "insert_forward_index b i spec t =
     result_bind (option_or_panic (forward_index_key_encode \<lparr>fik_bucket = b, fik_series_id = i\<rparr>)) (\<lambda>key.
     result_map (\<lambda>value. Put (put_record_op_new_with_options (record_new key value) \<lparr>put_ttl = t\<rparr>))
       (option_or_panic (forward_index_value_encode (forward_index_value_of spec))))"

definition merge_inverted_index :: "roaring_ops \<Rightarrow> time_bucket \<Rightarrow> label \<Rightarrow> u32 set \<Rightarrow> ttl \<Rightarrow> (record_op, ts_error) result" where
  "merge_inverted_index ro b l ids t =
     result_bind (option_or_panic (inverted_index_key_encode
        \<lparr>iik_bucket = b, iik_attribute = label_name l, iik_value = label_value l\<rparr>)) (\<lambda>key.
     result_map (\<lambda>value. Merge (merge_record_op_new_with_ttl (record_new key value) \<lparr>merge_ttl = t\<rparr>))
       (result_map_err ts_error_of_encoding (inverted_index_value_encode ro ids)))"

definition merge_samples :: "tsz_ops \<Rightarrow> time_bucket \<Rightarrow> series_id \<Rightarrow> bytes \<Rightarrow> ts_sample list \<Rightarrow> ttl \<Rightarrow> (record_op, ts_error) result" where
  "merge_samples tz b i metric_name samples t =
     result_map (\<lambda>key. Merge (merge_record_op_new_with_ttl (record_new key (time_series_value_encode tz samples)) \<lparr>merge_ttl = t\<rparr>))
       (option_or_panic (time_series_key_encode \<lparr>tsk_bucket = b, tsk_metric_name = metric_name, tsk_series_id = i\<rparr>))"

section \<open>Reading a bucket\<close>

text \<open>
  The reads of \<open>OpenTsdbStorageReadExt\<close> go through the \<open>get\<close> and \<open>scan\<close> of a storage or of one of its snapshots.
\<close>

record storage_read =
  sr_get :: "bytes \<Rightarrow> storage_record option storage_result"
  sr_scan :: "bytes_range \<Rightarrow> storage_record list storage_result"

definition read_of_storage :: "('s, 'r) storage_ops \<Rightarrow> 's \<Rightarrow> storage_read" where
  "read_of_storage ops s = \<lparr>sr_get = op_get ops s, sr_scan = storage_scan ops s\<rparr>"

definition read_of_snapshot :: "('s, 'r) storage_ops \<Rightarrow> 's \<Rightarrow> 'r \<Rightarrow> storage_read" where
  "read_of_snapshot ops s r =
     \<lparr>sr_get = op_snap_get ops s r, sr_scan = (\<lambda>rg. result_bind (op_snap_scan_iter ops s r rg) (scan_collect []))\<rparr>"

definition ts_get :: "storage_read \<Rightarrow> bytes \<Rightarrow> (storage_record option, ts_error) result" where
  "ts_get sr key = result_map_err ts_error_of_storage (sr_get sr key)"

definition ts_scan :: "storage_read \<Rightarrow> bytes_range \<Rightarrow> (storage_record list, ts_error) result" where
  "ts_scan sr rg = result_map_err ts_error_of_storage (sr_scan sr rg)"

definition ts_decode :: "('a, encoding_error) result \<Rightarrow> ('a, ts_error) result" where
  "ts_decode x = result_map_err ts_error_of_encoding x"

definition read_bucket_list :: "storage_read \<Rightarrow> (bucket_list_value option, ts_error) result" where
  "read_bucket_list sr =
     result_bind (ts_get sr bucket_list_key_encode) (\<lambda>record.
       case record of
         Some record \<Rightarrow> result_map Some (ts_decode (bucket_list_value_decode (rec_value record)))
       | None \<Rightarrow> Ok None)"

text \<open>
  \<open>get_buckets_in_range\<close>: the seconds are divided towards zero and cut to 32 bits; taking the remainder by a size of
  zero minutes panics.
\<close>

definition minutes_of :: "i64 \<Rightarrow> u32" where
  "minutes_of s = word_of_int (if sint s < 0 then - (- sint s div 60) else sint s div 60)"

definition bucket_start_of :: "time_bucket \<Rightarrow> u32 \<Rightarrow> u32 option" where
  "bucket_start_of b minute = (if size_in_mins b = 0 then None else Some (minute - minute mod size_in_mins b))"

definition bucket_in_range :: "u32 option \<Rightarrow> u32 option \<Rightarrow> time_bucket \<Rightarrow> bool option" where
  "bucket_in_range start_min end_min b =
     (case (start_min, end_min) of
        (None, None) \<Rightarrow> Some True
      | (Some s, None) \<Rightarrow> map_option (\<lambda>s. s \<le> tb_start b) (bucket_start_of b s)
      | (None, Some e) \<Rightarrow> map_option (\<lambda>e. tb_start b \<le> e) (bucket_start_of b e)
      | (Some s, Some e) \<Rightarrow> Option.bind (bucket_start_of b s) (\<lambda>s.
          map_option (\<lambda>e. s \<le> tb_start b \<and> tb_start b \<le> e) (bucket_start_of b e)))"

definition bucket_of_entry :: "bucket_size \<times> bucket_start \<Rightarrow> time_bucket" where
  "bucket_of_entry e = \<lparr>tb_start = snd e, tb_size = fst e\<rparr>"

fun filter_opt :: "('a \<Rightarrow> bool option) \<Rightarrow> 'a list \<Rightarrow> 'a list option" where
  "filter_opt P [] = Some []"
| "filter_opt P (x # xs) =
     Option.bind (P x) (\<lambda>b. map_option (\<lambda>ys. if b then x # ys else ys) (filter_opt P xs))"

definition get_buckets_in_range :: "storage_read \<Rightarrow> i64 option \<Rightarrow> i64 option \<Rightarrow> (time_bucket list, ts_error) result" where
  "get_buckets_in_range sr start_secs end_secs =
     (if (case (start_secs, end_secs) of (Some start, Some end_secs) \<Rightarrow> end_secs <s start | _ \<Rightarrow> False)
      then Err (TsInvalidInput ''end must be greater than or equal to start'' [])
      else
        result_bind (read_bucket_list sr) (\<lambda>buckets.
        result_map (sort_key tb_start)
          (option_or_panic (filter_opt (bucket_in_range (map_option minutes_of start_secs) (map_option minutes_of end_secs))
             (map bucket_of_entry (case buckets of Some bl \<Rightarrow> bl | None \<Rightarrow> []))))))"

definition bucket_overlaps :: "(i64 \<times> i64) list \<Rightarrow> time_bucket \<Rightarrow> bool" where
  "bucket_overlaps ranges b =
     (let bucket_start_min = ucast (tb_start b) :: i64;
          bucket_end_min = bucket_start_min + ucast (size_in_mins b);
          bucket_start_secs = bucket_start_min * 60;
          bucket_end_secs = bucket_end_min * 60 in
      list_ex (\<lambda>(r_start, r_end). r_start <s bucket_end_secs \<and> bucket_start_secs \<le>s r_end) ranges)"

definition get_buckets_for_ranges :: "storage_read \<Rightarrow> (i64 \<times> i64) list \<Rightarrow> (time_bucket list, ts_error) result" where
  "get_buckets_for_ranges sr ranges =
     (if ranges = [] then Ok []
      else result_map
        (\<lambda>buckets. case buckets of None \<Rightarrow> [] | Some bl \<Rightarrow> sort_key tb_start (filter (bucket_overlaps ranges) (map bucket_of_entry bl)))
        (read_bucket_list sr))"

primrec forward_index_loop :: "forward_index \<Rightarrow> storage_record list \<Rightarrow> (forward_index, ts_error) result" where
  "forward_index_loop idx [] = Ok idx"
| "forward_index_loop idx (record # records) =
     result_bind (ts_decode (forward_index_key_decode (rec_key record))) (\<lambda>key.
     result_bind (ts_decode (forward_index_value_decode (rec_value record))) (\<lambda>value.
       forward_index_loop (AList.update (fik_series_id key) (series_spec_of value) idx) records))"

definition get_forward_index :: "storage_read \<Rightarrow> time_bucket \<Rightarrow> (forward_index, ts_error) result" where
  "get_forward_index sr b =
     result_bind (option_or_panic (bucket_range ForwardIndexType b)) (\<lambda>rg.
     result_bind (ts_scan sr rg) (forward_index_loop []))"

primrec inverted_index_loop :: "roaring_ops \<Rightarrow> inverted_index \<Rightarrow> storage_record list \<Rightarrow> (inverted_index, ts_error) result" where
  "inverted_index_loop ro idx [] = Ok idx"
| "inverted_index_loop ro idx (record # records) =
     result_bind (ts_decode (inverted_index_key_decode (rec_key record))) (\<lambda>key.
     result_bind (ts_decode (inverted_index_value_decode ro (rec_value record))) (\<lambda>value.
       inverted_index_loop ro (AList.update (Label (iik_attribute key) (iik_value key)) value idx) records))"

definition get_inverted_index :: "roaring_ops \<Rightarrow> storage_read \<Rightarrow> time_bucket \<Rightarrow> (inverted_index, ts_error) result" where
  "get_inverted_index ro sr b =
     result_bind (option_or_panic (bucket_range InvertedIndexType b)) (\<lambda>rg.
     result_bind (ts_scan sr rg) (inverted_index_loop ro []))"

definition get_inverted_index_term :: "roaring_ops \<Rightarrow> storage_read \<Rightarrow> time_bucket \<Rightarrow> label \<Rightarrow> (u32 set option, ts_error) result" where
  "get_inverted_index_term ro sr b l =
     result_bind (option_or_panic (inverted_index_key_encode
        \<lparr>iik_bucket = b, iik_attribute = label_name l, iik_value = label_value l\<rparr>)) (\<lambda>key.
     result_bind (ts_get sr key) (\<lambda>record.
       case record of
         Some r \<Rightarrow> result_map Some (ts_decode (inverted_index_value_decode ro (rec_value r)))
       | None \<Rightarrow> Ok None))"

primrec get_inverted_index_terms ::
    "roaring_ops \<Rightarrow> storage_read \<Rightarrow> time_bucket \<Rightarrow> inverted_index \<Rightarrow> label list \<Rightarrow> (inverted_index, ts_error) result" where
  "get_inverted_index_terms ro sr b acc [] = Ok acc"
| "get_inverted_index_terms ro sr b acc (l # ls) =
     result_bind (get_inverted_index_term ro sr b l) (\<lambda>ids.
       get_inverted_index_terms ro sr b (case ids of Some ids \<Rightarrow> AList.update l ids acc | None \<Rightarrow> acc) ls)"

definition get_forward_index_one :: "storage_read \<Rightarrow> time_bucket \<Rightarrow> series_id \<Rightarrow> (series_spec option, ts_error) result" where
  "get_forward_index_one sr b i =
     result_bind (option_or_panic (forward_index_key_encode \<lparr>fik_bucket = b, fik_series_id = i\<rparr>)) (\<lambda>key.
     result_bind (ts_get sr key) (\<lambda>record.
       case record of
         Some r \<Rightarrow> result_map (\<lambda>v. Some (series_spec_of v)) (ts_decode (forward_index_value_decode (rec_value r)))
       | None \<Rightarrow> Ok None))"

primrec get_forward_index_series ::
    "storage_read \<Rightarrow> time_bucket \<Rightarrow> forward_index \<Rightarrow> series_id list \<Rightarrow> (forward_index, ts_error) result" where
  "get_forward_index_series sr b acc [] = Ok acc"
| "get_forward_index_series sr b acc (i # is) =
     result_bind (get_forward_index_one sr b i) (\<lambda>spec.
       get_forward_index_series sr b (case spec of Some spec \<Rightarrow> AList.update i spec acc | None \<Rightarrow> acc) is)"

text \<open>\<open>load_series_dictionary\<close> with the insertion into a map that its callers pass.\<close>

primrec dictionary_loop :: "series_dict \<times> u32 \<Rightarrow> storage_record list \<Rightarrow> (series_dict \<times> u32, ts_error) result" where
  "dictionary_loop acc [] = Ok acc"
| "dictionary_loop acc (record # records) =
     result_bind (ts_decode (series_dictionary_key_decode (rec_key record))) (\<lambda>key.
     result_bind (ts_decode (series_dictionary_value_decode (rec_value record))) (\<lambda>i.
       dictionary_loop (AList.update (sdk_fingerprint key) i (fst acc), max (snd acc) i) records))"

definition load_series_dictionary :: "storage_read \<Rightarrow> time_bucket \<Rightarrow> (series_dict \<times> u32, ts_error) result" where
  "load_series_dictionary sr b =
     result_bind (option_or_panic (bucket_range SeriesDictionaryType b)) (\<lambda>rg.
     result_bind (ts_scan sr rg) (dictionary_loop ([], 0)))"

definition bucket_list_contains :: "storage_read \<Rightarrow> time_bucket \<Rightarrow> (bool, ts_error) result" where
  "bucket_list_contains sr b =
     result_map (\<lambda>buckets. case buckets of None \<Rightarrow> False | Some bl \<Rightarrow> (tb_size b, tb_start b) \<in> set bl) (read_bucket_list sr)"

primrec label_values_loop :: "bytes list \<Rightarrow> storage_record list \<Rightarrow> (bytes list, ts_error) result" where
  "label_values_loop values [] = Ok values"
| "label_values_loop values (record # records) =
     result_bind (ts_decode (inverted_index_key_decode (rec_key record))) (\<lambda>key.
       label_values_loop (values @ [iik_value key]) records)"

definition get_label_values :: "storage_read \<Rightarrow> time_bucket \<Rightarrow> bytes \<Rightarrow> (bytes list, ts_error) result" where
  "get_label_values sr b name =
     result_bind (option_or_panic (attribute_range b name)) (\<lambda>rg.
     result_bind (ts_scan sr rg) (label_values_loop []))"

definition coalesce_bucket_list :: "('s, 'r) storage_ops \<Rightarrow> 's \<Rightarrow> 's \<times> (unit, ts_error) result" where
  "coalesce_bucket_list ops s =
     (case ts_get (read_of_storage ops s) bucket_list_key_encode of
        Ok None \<Rightarrow> (s, Ok ())
      | Ok (Some record) \<Rightarrow>
          (case storage_put ops s [put_record_op_new (record_new bucket_list_key_encode (rec_value record))] of
             (s, r) \<Rightarrow> (s, result_map (\<lambda>_. ()) (result_map_err ts_error_of_storage r)))
      | Err e \<Rightarrow> (s, Err e)
      | Panic \<Rightarrow> (s, Panic))"

text \<open>\<open>MiniQueryReader::samples\<close>; items the decoder rejects are dropped.\<close>

definition ok_items :: "('a, 'e) result list \<Rightarrow> 'a list" where
  "ok_items xs = concat (map (\<lambda>x. case x of Ok a \<Rightarrow> [a] | _ \<Rightarrow> []) xs)"

definition mini_reader_samples ::
    "tsz_ops \<Rightarrow> storage_read \<Rightarrow> time_bucket \<Rightarrow> series_id \<Rightarrow> bytes \<Rightarrow> i64 \<Rightarrow> i64 \<Rightarrow> (ts_sample list, ts_error) result" where
  "mini_reader_samples tz sr b i metric_name start_ms end_ms =
     result_bind (option_or_panic (time_series_key_encode \<lparr>tsk_bucket = b, tsk_metric_name = metric_name, tsk_series_id = i\<rparr>)) (\<lambda>key.
     result_bind (ts_get sr key) (\<lambda>record.
       case record of
         Some record \<Rightarrow>
           (case time_series_iterator tz (rec_value record) of
              None \<Rightarrow> Err (TsInternal ''Invalid timeseries data in storage'')
            | Some items \<Rightarrow> Ok (filter (\<lambda>s. start_ms <s timestamp_ms s \<and> timestamp_ms s \<le>s end_ms) (ok_items items)))
       | None \<Rightarrow> Ok []))"

section \<open>The flusher\<close>

definition i64_saturating_add :: "i64 \<Rightarrow> i64 \<Rightarrow> i64" where
  "i64_saturating_add a b = word_of_int (max (- (2 ^ 63)) (min (2 ^ 63 - 1) (sint a + sint b)))"

definition bucket_ttl :: "time_bucket \<Rightarrow> nat option \<Rightarrow> ttl" where
  "bucket_ttl b retention =
     (case retention of
        None \<Rightarrow> Default
      | Some d \<Rightarrow> ExpireAt (i64_saturating_add (bucket_start_ms b) (word_of_int (int d div ns_per_ms))))"

definition flush_ops :: "tsz_ops \<Rightarrow> roaring_ops \<Rightarrow> ttl \<Rightarrow> bool \<Rightarrow> frozen_tsdb_delta \<Rightarrow> (record_op list, ts_error) result" where
  "flush_ops tz ro t bucket_announced f =
     (let b = fr_bucket f in
      collect_items
        ((if \<not> bucket_announced then [merge_bucket_list b t] else [])
         @ map (\<lambda>(fp, i). insert_series_id b fp i t) (fr_series_dict_delta f)
         @ map (\<lambda>(i, spec). insert_forward_index b i spec t) (fr_forward_index f)
         @ map (\<lambda>(l, ids). merge_inverted_index ro b l ids t) (fr_inverted_index f)
         @ map (\<lambda>(i, ss). merge_samples tz b i (ss_metric_name ss) (ss_points ss) t) (fr_samples f)))"

definition tsdb_snapshot :: "('s, 'r) storage_ops \<Rightarrow> 's \<Rightarrow> 's \<times> ('r, string) result" where
  "tsdb_snapshot ops s = map_prod (\<lambda>s. s) (result_map_err storage_error_string) (op_snapshot ops s)"

definition tsdb_flush_delta ::
    "tsz_ops \<Rightarrow> roaring_ops \<Rightarrow> nat option \<Rightarrow> ('s, 'r) storage_ops \<Rightarrow> 's \<Rightarrow> frozen_tsdb_delta \<Rightarrow> u64 \<times> u64 \<Rightarrow> 's \<times> ('r, string) result" where
  "tsdb_flush_delta tz ro retention ops s f epochs =
     (if frozen_is_empty f then tsdb_snapshot ops s
      else
        case result_map_err ts_error_string
               (result_bind (bucket_list_contains (read_of_storage ops s) (fr_bucket f)) (\<lambda>bucket_announced.
                  flush_ops tz ro (bucket_ttl (fr_bucket f) retention) bucket_announced f)) of
          Ok rops \<Rightarrow>
            (case storage_apply ops s rops of
               (s, Ok _) \<Rightarrow> tsdb_snapshot ops s
             | (s, Err e) \<Rightarrow> (s, Err (storage_error_string e))
             | (s, Panic) \<Rightarrow> (s, Panic))
        | Err e \<Rightarrow> (s, Err e)
        | Panic \<Rightarrow> (s, Panic))"

definition tsdb_flush_storage :: "('s, 'r) storage_ops \<Rightarrow> 's \<Rightarrow> 's \<times> (unit, string) result" where
  "tsdb_flush_storage ops s = map_prod (\<lambda>s. s) (result_map_err storage_error_string) (op_flush ops s)"

definition tsdb_flusher_ops :: "tsz_ops \<Rightarrow> roaring_ops \<Rightarrow> nat option \<Rightarrow> ('s, 'r) storage_ops \<Rightarrow> ('s, frozen_tsdb_delta, 'r) flusher_ops" where
  "tsdb_flusher_ops tz ro retention ops =
     \<lparr>flusher_flush_delta = tsdb_flush_delta tz ro retention ops, flusher_flush_storage = tsdb_flush_storage ops\<rparr>"

section \<open>Loading a bucket\<close>

definition load_context :: "('s, 'r) storage_ops \<Rightarrow> 's \<Rightarrow> time_bucket \<Rightarrow> 's \<times> (tsdb_context, ts_error) result" where
  "load_context ops s b =
     (case op_snapshot ops s of
        (s, Ok r) \<Rightarrow> (s, result_map (\<lambda>(dict, next_id). \<lparr>ctx_bucket = b, ctx_series_dict = dict, ctx_next_series_id = next_id\<rparr>)
           (load_series_dictionary (read_of_snapshot ops s r) b))
      | (s, Err e) \<Rightarrow> (s, Err (ts_error_of_storage e))
      | (s, Panic) \<Rightarrow> (s, Panic))"

definition mini_tsdb_load ::
    "(bytes \<Rightarrow> bytes) \<Rightarrow> nat \<Rightarrow> ('s, 'r) storage_ops \<Rightarrow> 's \<Rightarrow> time_bucket
      \<Rightarrow> ((tsdb_write_delta, frozen_tsdb_delta, unit, unit, 'r, 's) coordinator, ts_error) result" where
  "mini_tsdb_load blake3 threshold ops s b =
     (case load_context ops s b of
        (s, Ok ctx) \<Rightarrow>
          (case op_snapshot ops s of
             (s, Ok initial_snapshot) \<Rightarrow> Ok (coordinator_new (tsdb_delta_ops blake3) threshold ctx initial_snapshot s)
           | (s, Err e) \<Rightarrow> Err (TsStorage (storage_error_string e))
           | (s, Panic) \<Rightarrow> Panic)
      | (s, Err e) \<Rightarrow> Err e
      | (s, Panic) \<Rightarrow> Panic)"

fun map_write_error :: "unit write_error \<Rightarrow> ts_error" where
  "map_write_error (Backpressure _) = TsBackpressure"
| "map_write_error (TimeoutError _) = TsBackpressure"
| "map_write_error WriterShutdown = TsInternal ''Write coordinator shut down''"
| "map_write_error (ApplyError _ msg) = TsInternal msg"
| "map_write_error (FlushError msg) = TsStorage msg"
| "map_write_error (InternalError msg) = TsInternal msg"

section \<open>Keys of a bucket\<close>

definition scoped_key :: "ts_record_type \<Rightarrow> time_bucket \<Rightarrow> bytes \<Rightarrow> bytes" where
  "scoped_key rt b rest = [TS_SUBSYSTEM, TS_KEY_VERSION, scope_tag rt b] @ put_u32 (tb_start b) @ rest"

definition dict_key :: "time_bucket \<Rightarrow> series_fingerprint \<Rightarrow> bytes" where
  "dict_key b fp = scoped_key SeriesDictionaryType b (be_enc 16 (unat fp))"

definition forward_key :: "time_bucket \<Rightarrow> series_id \<Rightarrow> bytes" where
  "forward_key b i = scoped_key ForwardIndexType b (put_u32 i)"

definition inverted_key :: "time_bucket \<Rightarrow> label \<Rightarrow> bytes" where
  "inverted_key b l = scoped_key InvertedIndexType b (terminated_serialize (label_name l) @ label_value l)"

definition points_key :: "time_bucket \<Rightarrow> bytes \<Rightarrow> series_id \<Rightarrow> bytes" where
  "points_key b n i = scoped_key TimeSeriesType b (terminated_serialize n @ put_u32 i)"

lemma key_encodes:
  assumes "bucket_ok b"
  shows "series_dictionary_key_encode \<lparr>sdk_bucket = b, sdk_fingerprint = fp\<rparr> = Some (dict_key b fp)"
    and "forward_index_key_encode \<lparr>fik_bucket = b, fik_series_id = i\<rparr> = Some (forward_key b i)"
    and "inverted_index_key_encode \<lparr>iik_bucket = b, iik_attribute = label_name l, iik_value = label_value l\<rparr> = Some (inverted_key b l)"
    and "time_series_key_encode \<lparr>tsk_bucket = b, tsk_metric_name = n, tsk_series_id = i\<rparr> = Some (points_key b n i)"
  using assms
  by (simp_all add: series_dictionary_key_encode_def forward_index_key_encode_def inverted_index_key_encode_def attribute_prefix_def
      time_series_key_encode_def scope_simps scoped_key_def dict_key_def forward_key_def inverted_key_def points_key_def)

lemma scoped_key_eq [simp]: "bucket_ok b \<Longrightarrow> scoped_key rt b x = scoped_key rt' b y \<longleftrightarrow> rt = rt' \<and> x = y"
  by (auto simp: scoped_key_def scope_tag_inj)

lemma bucket_list_key_scoped [simp]: "bucket_list_key_encode \<noteq> scoped_key rt b x" "scoped_key rt b x \<noteq> bucket_list_key_encode"
proof -
  have "length (scoped_key rt b x) \<noteq> length bucket_list_key_encode" by (simp add: scoped_key_def bucket_list_key_encode_def)
  then show "bucket_list_key_encode \<noteq> scoped_key rt b x" "scoped_key rt b x \<noteq> bucket_list_key_encode" by metis+
qed

lemma be_enc_u128_eq [simp]: "be_enc 16 (unat f) = be_enc 16 (unat g) \<longleftrightarrow> f = (g :: 128 word)"
  using be_val_u128 by metis

lemma terminated_append_eq: "terminated_serialize a @ s = terminated_serialize c @ t \<longleftrightarrow> a = c \<and> s = t"
  using terminated.enc_append_inject [of a s c t] by auto

lemmas bucket_keys = dict_key_def forward_key_def inverted_key_def points_key_def

lemma key_eqs [simp]:
  assumes "bucket_ok b"
  shows "dict_key b fp = dict_key b fp' \<longleftrightarrow> fp = fp'" and "forward_key b i = forward_key b i' \<longleftrightarrow> i = i'"
    and "inverted_key b l = inverted_key b l' \<longleftrightarrow> l = l'" and "points_key b n i = points_key b n' i' \<longleftrightarrow> n = n' \<and> i = i'"
proof -
  show "dict_key b fp = dict_key b fp' \<longleftrightarrow> fp = fp'" "forward_key b i = forward_key b i' \<longleftrightarrow> i = i'"
    using assms by (simp_all add: bucket_keys)
  show "inverted_key b l = inverted_key b l' \<longleftrightarrow> l = l'"
    using assms by (cases l; cases l') (simp add: bucket_keys terminated_append_eq)
  show "points_key b n i = points_key b n' i' \<longleftrightarrow> n = n' \<and> i = i'"
    using assms by (simp add: bucket_keys terminated_append_eq)
qed

lemma key_neqs [simp]:
  assumes "bucket_ok b"
  shows "dict_key b fp \<noteq> forward_key b i" and "dict_key b fp \<noteq> inverted_key b l" and "dict_key b fp \<noteq> points_key b n i"
    and "forward_key b i \<noteq> inverted_key b l" and "forward_key b i \<noteq> points_key b n i'" and "inverted_key b l \<noteq> points_key b n i"
    and "bucket_list_key_encode \<noteq> dict_key b fp" and "bucket_list_key_encode \<noteq> forward_key b i"
    and "bucket_list_key_encode \<noteq> inverted_key b l" and "bucket_list_key_encode \<noteq> points_key b n i"
  using assms by (simp_all add: bucket_keys)

lemmas key_neqs' [simp] = key_neqs [symmetric]

lemma scoped_key_type:
  assumes "bucket_ok b"
  shows "\<exists>p. key_prefix_from_bytes (scoped_key rt b x) = Ok p \<and> ts_record_type_from_prefix p = Ok rt"
  using scope_tag_halves [OF assms, of rt]
  by (auto simp: scoped_key_def key_prefix_from_bytes_def TS_SUBSYSTEM_def TS_KEY_VERSION_def ts_record_type_from_prefix_def
      record_type_from_id_id validate_subsystem_def validate_key_version_def validate_record_tag_def)

lemma bucket_list_key_type:
  "\<exists>p. key_prefix_from_bytes bucket_list_key_encode = Ok p \<and> ts_record_type_from_prefix p = Ok BucketListType"
  by (rule exI [of _ "\<lparr>kp_subsystem = 1, kp_version = 1, kp_tag = 0x10\<rparr>"]) code_simp

section \<open>What a reader of a bucket sees\<close>

text \<open>The content of a bucket as a view of the storage shows it, and that its values can be decoded.\<close>

definition decoded :: "('a, 'e) result \<Rightarrow> 'a option" where
  "decoded x = (case x of Ok a \<Rightarrow> Some a | _ \<Rightarrow> None)"

definition view_buckets :: "view \<Rightarrow> (bucket_size \<times> bucket_start) set" where
  "view_buckets m = (case Option.bind (m bucket_list_key_encode) (\<lambda>v. decoded (bucket_list_value_decode v)) of Some bl \<Rightarrow> set bl | None \<Rightarrow> {})"

definition view_dict :: "view \<Rightarrow> time_bucket \<Rightarrow> series_fingerprint \<Rightarrow> series_id option" where
  "view_dict m b fp = Option.bind (m (dict_key b fp)) (\<lambda>v. decoded (series_dictionary_value_decode v))"

definition view_spec :: "view \<Rightarrow> time_bucket \<Rightarrow> series_id \<Rightarrow> series_spec option" where
  "view_spec m b i = Option.bind (m (forward_key b i)) (\<lambda>v. map_option series_spec_of (decoded (forward_index_value_decode v)))"

definition view_postings :: "roaring_ops \<Rightarrow> view \<Rightarrow> time_bucket \<Rightarrow> label \<Rightarrow> u32 set" where
  "view_postings ro m b l =
     (case Option.bind (m (inverted_key b l)) (\<lambda>v. decoded (inverted_index_value_decode ro v)) of Some ids \<Rightarrow> ids | None \<Rightarrow> {})"

definition view_points :: "tsz_ops \<Rightarrow> view \<Rightarrow> time_bucket \<Rightarrow> bytes \<Rightarrow> series_id \<Rightarrow> i64 \<rightharpoonup> u64" where
  "view_points tz m b n i =
     (case Option.bind (m (points_key b n i)) (\<lambda>v. decoded (time_series_value_decode tz v)) of
        Some pts \<Rightarrow> series_content pts | None \<Rightarrow> Map.empty)"

definition store_ok :: "tsz_ops \<Rightarrow> roaring_ops \<Rightarrow> view \<Rightarrow> time_bucket \<Rightarrow> bool" where
  "store_ok tz ro m b \<longleftrightarrow>
     (\<forall>v. m bucket_list_key_encode = Some v \<longrightarrow> (\<exists>bl. bucket_list_value_decode v = Ok bl))
     \<and> (\<forall>l v. m (inverted_key b l) = Some v \<longrightarrow> (\<exists>ids. inverted_index_value_decode ro v = Ok ids))
     \<and> (\<forall>n i v. m (points_key b n i) = Some v \<longrightarrow>
          v \<noteq> [] \<and> (\<exists>pts. time_series_value_decode tz v = Ok pts \<and> (\<forall>s \<in> set pts. in_bucket b (timestamp_ms s))))"

text \<open>The serialised form of a bitmap gives the bitmap back.\<close>

definition roaring_lossless :: "roaring_ops \<Rightarrow> bool" where
  "roaring_lossless ro \<longleftrightarrow> (\<forall>ids. \<exists>bs. roaring_serialize ro ids = Ok bs \<and> roaring_deserialize ro bs = Ok ids)"

lemma inverted_index_value_round_trip:
  assumes "roaring_lossless ro"
  shows "\<exists>bs. inverted_index_value_encode ro ids = Ok bs \<and> inverted_index_value_decode ro bs = Ok ids"
proof -
  obtain bs where "roaring_serialize ro ids = Ok bs" "roaring_deserialize ro bs = Ok ids"
    using assms by (auto simp: roaring_lossless_def)
  then show ?thesis by (simp add: inverted_index_value_encode_def inverted_index_value_decode_def)
qed

section \<open>Merging one operand\<close>

lemma merge_postings:
  assumes "roaring_lossless ro" and "bucket_ok b" and "inverted_index_value_decode ro operand = Ok ids"
    and "\<And>v. existing = Some v \<Longrightarrow> \<exists>old. inverted_index_value_decode ro v = Ok old"
  shows "\<exists>v. open_tsdb_merge_batch tz ro (inverted_key b l) existing [operand] = Some v
    \<and> inverted_index_value_decode ro v
      = Ok ((case Option.bind existing (\<lambda>v. decoded (inverted_index_value_decode ro v)) of Some old \<Rightarrow> old | None \<Rightarrow> {}) \<union> ids)"
proof -
  obtain old where old: "(case existing of Some e \<Rightarrow> inverted_index_value_decode ro e | None \<Rightarrow> Ok {}) = Ok old"
      "(case Option.bind existing (\<lambda>v. decoded (inverted_index_value_decode ro v)) of Some old \<Rightarrow> old | None \<Rightarrow> {}) = old"
    using assms(4) by (cases existing) (auto simp: decoded_def)
  obtain bs where bs: "inverted_index_value_encode ro (old \<union> ids) = Ok bs" "inverted_index_value_decode ro bs = Ok (old \<union> ids)"
    using inverted_index_value_round_trip [OF assms(1)] by blast
  obtain p where "key_prefix_from_bytes (inverted_key b l) = Ok p" "ts_record_type_from_prefix p = Ok InvertedIndexType"
    using scoped_key_type [OF assms(2)] unfolding inverted_key_def by blast
  then have "open_tsdb_merge_batch tz ro (inverted_key b l) existing [operand] = Some bs"
    using old(1) assms(3) bs(1) by (simp add: open_tsdb_merge_batch_def merge_batch_inverted_index_def)
  with bs(2) old(2) show ?thesis by simp
qed

lemma set_add_bucket: "set (foldl add_bucket bl bs) = set bl \<union> set bs"
  by (induction bs arbitrary: bl) (auto simp: add_bucket_def)

lemma merge_buckets:
  assumes "\<And>v. existing = Some v \<Longrightarrow> \<exists>bl. bucket_list_value_decode v = Ok bl"
  shows "\<exists>v bl. open_tsdb_merge_batch tz ro bucket_list_key_encode existing [bucket_list_value_encode new] = Some v
    \<and> bucket_list_value_decode v = Ok bl
    \<and> set bl = (case Option.bind existing (\<lambda>v. decoded (bucket_list_value_decode v)) of Some old \<Rightarrow> set old | None \<Rightarrow> {}) \<union> set new"
proof -
  obtain old where old: "(case existing of Some e \<Rightarrow> bucket_list_value_decode e | None \<Rightarrow> Ok []) = Ok old"
      "(case Option.bind existing (\<lambda>v. decoded (bucket_list_value_decode v)) of Some old \<Rightarrow> set old | None \<Rightarrow> {}) = set old"
    using assms by (cases existing) (auto simp: decoded_def)
  obtain p where "key_prefix_from_bytes bucket_list_key_encode = Ok p" "ts_record_type_from_prefix p = Ok BucketListType"
    using bucket_list_key_type by blast
  then have "open_tsdb_merge_batch tz ro bucket_list_key_encode existing [bucket_list_value_encode new]
      = Some (bucket_list_value_encode (sort_key snd (foldl add_bucket old new)))"
    using old(1) by (simp add: open_tsdb_merge_batch_def merge_batch_bucket_list_def bucket_list_value_round_trip)
  with old(2) show ?thesis by (auto simp: bucket_list_value_round_trip set_add_bucket)
qed

lemma in_bucket_window:
  assumes "in_bucket b t" and "in_bucket b t'"
  shows "sint t' - sint t < 2 ^ 30"
proof -
  have "uint (size_in_mins b) \<le> 255"
    using uint_lt2p [of "tb_size b ^ 2 * 60"] by (simp add: size_in_mins_def uint_up_ucast is_up)
  with assms show ?thesis by (simp add: in_bucket_iff)
qed

lemma merge_points:
  assumes "tsz_lossless tz" and "bucket_ok b" and "pts \<noteq> []" and "\<forall>s \<in> set pts. in_bucket b (timestamp_ms s)"
    and "\<And>v. existing = Some v \<Longrightarrow> \<exists>old. time_series_value_decode tz v = Ok old \<and> (\<forall>s \<in> set old. in_bucket b (timestamp_ms s))"
  shows "\<exists>v pts'. open_tsdb_merge_batch tz ro (points_key b n i) existing [time_series_value_encode tz pts] = Some v
    \<and> v \<noteq> [] \<and> time_series_value_decode tz v = Ok pts' \<and> (\<forall>s \<in> set pts'. in_bucket b (timestamp_ms s))
    \<and> series_content pts'
      = (case Option.bind existing (\<lambda>v. decoded (time_series_value_decode tz v)) of Some old \<Rightarrow> series_content old | None \<Rightarrow> Map.empty)
        ++ series_content pts"
proof -
  define olds where "olds = (case existing of None \<Rightarrow> [] | Some v \<Rightarrow> [the (decoded (time_series_value_decode tz v))])"
  have enc: "time_series_value_decode tz (time_series_value_encode tz pts) = Ok pts"
    using assms(3,4) in_bucket_window by (intro time_series_value_round_trip(2) [OF assms(1)]) blast+
  have dec: "decoded_as tz (option_list existing @ [time_series_value_encode tz pts]) (olds @ [pts])"
    using assms(5) enc by (cases existing) (auto simp: decoded_as_def option_list_def olds_def decoded_def)
  have inb: "\<forall>s \<in> set (concat (olds @ [pts])). in_bucket b (timestamp_ms s)"
    using assms(4,5) by (cases existing) (force simp: olds_def decoded_def)+
  then have "one_window (olds @ [pts])" unfolding one_window_def using in_bucket_window by blast
  then obtain v pts' where v: "merge_batch_time_series tz existing [time_series_value_encode tz pts] = Ok v"
      "time_series_value_decode tz v = Ok pts'" "series_content pts' = newest_wins (olds @ [pts])"
      "timestamp_ms ` set pts' \<subseteq> timestamp_ms ` set (concat (olds @ [pts]))"
    using merge_batch_content [OF assms(1) dec] by blast
  obtain p where "key_prefix_from_bytes (points_key b n i) = Ok p" "ts_record_type_from_prefix p = Ok TimeSeriesType"
    using scoped_key_type [OF assms(2)] unfolding points_key_def by blast
  then have "open_tsdb_merge_batch tz ro (points_key b n i) existing [time_series_value_encode tz pts] = Some v"
    using v(1) by (simp add: open_tsdb_merge_batch_def)
  moreover have "newest_wins olds
      = (case Option.bind existing (\<lambda>v. decoded (time_series_value_decode tz v)) of Some old \<Rightarrow> series_content old | None \<Rightarrow> Map.empty)"
    using assms(5) by (cases existing) (auto simp: olds_def decoded_def)
  moreover have "\<forall>s \<in> set pts'. in_bucket b (timestamp_ms s)"
  proof
    fix s
    assume "s \<in> set pts'"
    with v(4) obtain s' where "s' \<in> set (concat (olds @ [pts]))" "timestamp_ms s = timestamp_ms s'" by fast
    with inb show "in_bucket b (timestamp_ms s)" by simp
  qed
  moreover have "v \<noteq> []"
  proof
    assume "v = []"
    then have "newest_wins olds ++ series_content pts = Map.empty"
      using v(2,3) by (simp add: time_series_value_decode_def newest_wins_append)
    moreover have "timestamp_ms (hd pts) \<in> dom (series_content pts)"
      using assms(3) by (cases pts) (simp_all add: series_content_def)
    ultimately show False by (metis dom_map_add domIff empty_iff Un_iff dom_empty)
  qed
  ultimately show ?thesis using v(2,3) by (simp add: newest_wins_append)
qed

section \<open>The operations of a flush\<close>

primrec op_key :: "record_op \<Rightarrow> bytes" where
  "op_key (Put op) = rec_key (put_record op)"
| "op_key (Merge op) = rec_key (merge_record op)"
| "op_key (Delete k) = k"

lemma op_meaning_other: "k \<noteq> op_key op \<Longrightarrow> op_meaning live f op m k = m k"
  by (cases op) (simp_all add: put_view_def Let_def)

lemma op_meaning_local: "m (op_key op) = m' (op_key op) \<Longrightarrow> op_meaning live f op m (op_key op) = op_meaning live f op m' (op_key op)"
  by (cases op) (simp_all add: put_view_def Let_def)

lemma fold_meaning_other: "k \<notin> op_key ` set rops \<Longrightarrow> fold (op_meaning live f) rops m k = m k"
  by (induction rops arbitrary: m) (simp_all add: op_meaning_other)

text \<open>The operations of a batch with different keys act each on their own.\<close>

lemma fold_meaning_at:
  "distinct (map op_key rops) \<Longrightarrow> op \<in> set rops \<Longrightarrow> fold (op_meaning live f) rops m (op_key op) = op_meaning live f op m (op_key op)"
proof (induction rops arbitrary: m)
  case (Cons r rops)
  show ?case
  proof (cases "op = r")
    case True
    with Cons.prems show ?thesis by (simp add: fold_meaning_other)
  next
    case False
    with Cons have "fold (op_meaning live f) rops (op_meaning live f r m) (op_key op) = op_meaning live f op (op_meaning live f r m) (op_key op)"
      and "op_key op \<noteq> op_key r" by (auto simp: rev_image_eqI)
    then show ?thesis using op_meaning_local [of "op_meaning live f r m" op m live f] by (simp add: op_meaning_other)
  qed
qed simp

definition put_op :: "ttl \<Rightarrow> bytes \<Rightarrow> bytes \<Rightarrow> record_op" where
  "put_op t k v = Put (put_record_op_new_with_options (record_new k v) \<lparr>put_ttl = t\<rparr>)"

definition merge_op :: "ttl \<Rightarrow> bytes \<Rightarrow> bytes \<Rightarrow> record_op" where
  "merge_op t k v = Merge (merge_record_op_new_with_ttl (record_new k v) \<lparr>merge_ttl = t\<rparr>)"

lemma op_key_ops [simp]: "op_key (put_op t k v) = k" "op_key (merge_op t k v) = k"
  by (simp_all add: put_op_def merge_op_def put_record_op_new_with_options_def merge_record_op_new_with_ttl_def record_new_def)

lemma op_meaning_ops [simp]:
  "live t \<Longrightarrow> op_meaning live f (put_op t k v) m k = Some v"
  "live t \<Longrightarrow> op_meaning live f (merge_op t k v) m k = Some (f k (m k) [v])"
  by (simp_all add: put_op_def merge_op_def put_record_op_new_with_options_def merge_record_op_new_with_ttl_def record_new_def
      put_view_def Let_def)

definition spec_ok :: "series_spec \<Rightarrow> bool" where
  "spec_ok spec \<longleftrightarrow> pred_option text_ok (spec_unit spec) \<and> list_all label_ok (spec_labels spec) \<and> length (spec_labels spec) \<le> 65535"

text \<open>A frozen delta that can be encoded; the keys of its maps are different.\<close>

definition frozen_ok :: "frozen_tsdb_delta \<Rightarrow> bool" where
  "frozen_ok f \<longleftrightarrow> bucket_ok (fr_bucket f)
     \<and> distinct (map fst (fr_series_dict_delta f)) \<and> distinct (map fst (fr_forward_index f))
     \<and> distinct (map fst (fr_inverted_index f)) \<and> distinct (map fst (fr_samples f))
     \<and> (\<forall>(i, spec) \<in> set (fr_forward_index f). spec_ok spec)
     \<and> (\<forall>(i, ss) \<in> set (fr_samples f). ss_points ss \<noteq> [] \<and> (\<forall>s \<in> set (ss_points ss). in_bucket (fr_bucket f) (timestamp_ms s)))"

definition postings_bytes :: "roaring_ops \<Rightarrow> u32 set \<Rightarrow> bytes" where
  "postings_bytes ro ids = the (decoded (inverted_index_value_encode ro ids))"

definition spec_bytes :: "series_spec \<Rightarrow> bytes" where
  "spec_bytes spec = the (forward_index_value_encode (forward_index_value_of spec))"

definition flush_plan :: "tsz_ops \<Rightarrow> roaring_ops \<Rightarrow> ttl \<Rightarrow> bool \<Rightarrow> frozen_tsdb_delta \<Rightarrow> record_op list" where
  "flush_plan tz ro t announced f =
     (let b = fr_bucket f in
      (if \<not> announced then [merge_op t bucket_list_key_encode (bucket_list_value_encode [(tb_size b, tb_start b)])] else [])
      @ map (\<lambda>(fp, i). put_op t (dict_key b fp) (series_dictionary_value_encode i)) (fr_series_dict_delta f)
      @ map (\<lambda>(i, spec). put_op t (forward_key b i) (spec_bytes spec)) (fr_forward_index f)
      @ map (\<lambda>(l, ids). merge_op t (inverted_key b l) (postings_bytes ro ids)) (fr_inverted_index f)
      @ map (\<lambda>(i, ss). merge_op t (points_key b (ss_metric_name ss) i) (time_series_value_encode tz (ss_points ss))) (fr_samples f))"

lemma collect_items_append:
  "collect_items xs = Ok as \<Longrightarrow> collect_items ys = Ok bs \<Longrightarrow> collect_items (xs @ ys) = Ok (as @ bs)"
proof (induction xs arbitrary: as)
  case (Cons x xs)
  then show ?case by (cases x; cases "collect_items xs") auto
qed simp

lemma collect_items_map:
  "(\<And>x. x \<in> set xs \<Longrightarrow> f x = Ok (g x)) \<Longrightarrow> collect_items (map f xs) = Ok (map g xs)"
  by (induction xs) simp_all

lemma flush_ops_plan:
  assumes "frozen_ok f" and "roaring_lossless ro"
  shows "flush_ops tz ro t announced f = Ok (flush_plan tz ro t announced f)"
proof -
  let ?b = "fr_bucket f"
  have b: "bucket_ok ?b" using assms(1) by (simp add: frozen_ok_def)
  have "collect_items (map (\<lambda>(fp, i). insert_series_id ?b fp i t) (fr_series_dict_delta f))
      = Ok (map (\<lambda>(fp, i). put_op t (dict_key ?b fp) (series_dictionary_value_encode i)) (fr_series_dict_delta f))"
    using b by (intro collect_items_map) (auto simp: insert_series_id_def key_encodes put_op_def)
  moreover have "collect_items (map (\<lambda>(i, spec). insert_forward_index ?b i spec t) (fr_forward_index f))
      = Ok (map (\<lambda>(i, spec). put_op t (forward_key ?b i) (spec_bytes spec)) (fr_forward_index f))"
  proof (intro collect_items_map)
    fix e
    assume e: "e \<in> set (fr_forward_index f)"
    obtain i spec where [simp]: "e = (i, spec)" by fastforce
    have "spec_ok spec" using e assms(1) by (auto simp: frozen_ok_def)
    then obtain bs where "forward_index_value_encode (forward_index_value_of spec) = Some bs"
      using forward_index_value_round_trip [of "forward_index_value_of spec"] by (auto simp: spec_ok_def forward_index_value_of_def)
    with b show "(case e of (i, spec) \<Rightarrow> insert_forward_index ?b i spec t)
        = Ok (case e of (i, spec) \<Rightarrow> put_op t (forward_key ?b i) (spec_bytes spec))"
      by (simp add: insert_forward_index_def key_encodes put_op_def spec_bytes_def)
  qed
  moreover have "collect_items (map (\<lambda>(l, ids). merge_inverted_index ro ?b l ids t) (fr_inverted_index f))
      = Ok (map (\<lambda>(l, ids). merge_op t (inverted_key ?b l) (postings_bytes ro ids)) (fr_inverted_index f))"
  proof (intro collect_items_map)
    fix e :: "label \<times> u32 set"
    obtain l ids where [simp]: "e = (l, ids)" by fastforce
    obtain bs where "inverted_index_value_encode ro ids = Ok bs" using inverted_index_value_round_trip [OF assms(2)] by blast
    with b show "(case e of (l, ids) \<Rightarrow> merge_inverted_index ro ?b l ids t)
        = Ok (case e of (l, ids) \<Rightarrow> merge_op t (inverted_key ?b l) (postings_bytes ro ids))"
      by (simp add: merge_inverted_index_def key_encodes merge_op_def postings_bytes_def decoded_def)
  qed
  moreover have "collect_items (map (\<lambda>(i, ss). merge_samples tz ?b i (ss_metric_name ss) (ss_points ss) t) (fr_samples f))
      = Ok (map (\<lambda>(i, ss). merge_op t (points_key ?b (ss_metric_name ss) i) (time_series_value_encode tz (ss_points ss))) (fr_samples f))"
    using b by (intro collect_items_map) (auto simp: merge_samples_def key_encodes merge_op_def)
  moreover have "collect_items (if \<not> announced then [merge_bucket_list ?b t] else [])
      = Ok (if \<not> announced then [merge_op t bucket_list_key_encode (bucket_list_value_encode [(tb_size ?b, tb_start ?b)])] else [])"
    by (simp add: merge_bucket_list_def merge_op_def)
  ultimately show ?thesis
    unfolding flush_ops_def flush_plan_def Let_def by (intro collect_items_append)
qed

lemma distinct_map_fst:
  assumes "distinct (map fst xs)" and "\<And>x y. g x = g y \<Longrightarrow> fst x = fst y"
  shows "distinct (map g xs)"
  using assms(1)
proof (induction xs)
  case (Cons x xs)
  have "g x \<notin> g ` set xs"
  proof
    assume "g x \<in> g ` set xs"
    then obtain y where "y \<in> set xs" "g x = g y" by blast
    moreover have "fst x = fst y" using \<open>g x = g y\<close> by (rule assms(2))
    ultimately show False using Cons.prems by (metis distinct.simps(2) image_eqI list.map(2) list.set_map)
  qed
  with Cons show ?case by simp
qed simp

lemma flush_plan_distinct:
  assumes "frozen_ok f"
  shows "distinct (map op_key (flush_plan tz ro t announced f))"
proof -
  let ?b = "fr_bucket f"
  have b: "bucket_ok ?b" using assms by (simp add: frozen_ok_def)
  have "distinct (map (\<lambda>x. dict_key ?b (fst x)) (fr_series_dict_delta f))" "distinct (map (\<lambda>x. forward_key ?b (fst x)) (fr_forward_index f))"
      "distinct (map (\<lambda>x. inverted_key ?b (fst x)) (fr_inverted_index f))"
      "distinct (map (\<lambda>x. points_key ?b (ss_metric_name (snd x)) (fst x)) (fr_samples f))"
    using assms b by (auto simp: frozen_ok_def intro!: distinct_map_fst)
  then show ?thesis
    using b by (auto simp: flush_plan_def Let_def comp_def case_prod_unfold)
qed

text \<open>The value of each kind of key after the operations of a flush.\<close>

definition tsdb_operator :: "tsz_ops \<Rightarrow> roaring_ops \<Rightarrow> merge_operator" where
  "tsdb_operator tz ro key existing operands = the (open_tsdb_merge_batch tz ro key existing operands)"

definition flushed_view :: "tsz_ops \<Rightarrow> roaring_ops \<Rightarrow> (ttl \<Rightarrow> bool) \<Rightarrow> ttl \<Rightarrow> bool \<Rightarrow> frozen_tsdb_delta \<Rightarrow> view \<Rightarrow> view" where
  "flushed_view tz ro live t announced f m = fold (op_meaning live (tsdb_operator tz ro)) (flush_plan tz ro t announced f) m"

lemma flush_plan_keys:
  "op_key ` set (flush_plan tz ro t announced f) =
     (if announced then {} else {bucket_list_key_encode})
     \<union> dict_key (fr_bucket f) ` dom (map_of (fr_series_dict_delta f)) \<union> forward_key (fr_bucket f) ` dom (map_of (fr_forward_index f))
     \<union> inverted_key (fr_bucket f) ` dom (map_of (fr_inverted_index f))
     \<union> (\<lambda>(i, ss). points_key (fr_bucket f) (ss_metric_name ss) i) ` set (fr_samples f)"
  by (simp add: flush_plan_def Let_def image_Un image_image case_prod_unfold dom_map_of_conv_image_fst Un_assoc)

lemma flushed_at:
  assumes "frozen_ok f" and "op \<in> set (flush_plan tz ro t announced f)"
  shows "flushed_view tz ro live t announced f m (op_key op) = op_meaning live (tsdb_operator tz ro) op m (op_key op)"
  unfolding flushed_view_def by (rule fold_meaning_at [OF flush_plan_distinct [OF assms(1)] assms(2)])

lemma flushed_other:
  "k \<notin> op_key ` set (flush_plan tz ro t announced f) \<Longrightarrow> flushed_view tz ro live t announced f m k = m k"
  unfolding flushed_view_def by (rule fold_meaning_other)

lemma flushed_dict:
  assumes "frozen_ok f" and "live t"
  shows "flushed_view tz ro live t announced f m (dict_key (fr_bucket f) fp)
    = (case map_of (fr_series_dict_delta f) fp of Some i \<Rightarrow> Some (series_dictionary_value_encode i) | None \<Rightarrow> m (dict_key (fr_bucket f) fp))"
proof -
  have b: "bucket_ok (fr_bucket f)" using assms(1) by (simp add: frozen_ok_def)
  show ?thesis
  proof (cases "map_of (fr_series_dict_delta f) fp")
    case None
    then have "dict_key (fr_bucket f) fp \<notin> op_key ` set (flush_plan tz ro t announced f)"
      using b by (auto simp: flush_plan_keys domIff)
    with None show ?thesis by (simp add: flushed_other)
  next
    case (Some i)
    then have "put_op t (dict_key (fr_bucket f) fp) (series_dictionary_value_encode i) \<in> set (flush_plan tz ro t announced f)"
      by (force simp: flush_plan_def Let_def dest: map_of_SomeD)
    from flushed_at [OF assms(1) this] Some assms(2) show ?thesis by simp
  qed
qed

lemma flushed_forward:
  assumes "frozen_ok f" and "live t"
  shows "flushed_view tz ro live t announced f m (forward_key (fr_bucket f) i)
    = (case map_of (fr_forward_index f) i of Some spec \<Rightarrow> Some (spec_bytes spec) | None \<Rightarrow> m (forward_key (fr_bucket f) i))"
proof -
  have b: "bucket_ok (fr_bucket f)" using assms(1) by (simp add: frozen_ok_def)
  show ?thesis
  proof (cases "map_of (fr_forward_index f) i")
    case None
    then have "forward_key (fr_bucket f) i \<notin> op_key ` set (flush_plan tz ro t announced f)"
      using b by (auto simp: flush_plan_keys domIff)
    with None show ?thesis by (simp add: flushed_other)
  next
    case (Some spec)
    then have "put_op t (forward_key (fr_bucket f) i) (spec_bytes spec) \<in> set (flush_plan tz ro t announced f)"
      by (force simp: flush_plan_def Let_def dest: map_of_SomeD)
    from flushed_at [OF assms(1) this] Some assms(2) show ?thesis by simp
  qed
qed

lemma flushed_inverted:
  assumes "frozen_ok f" and "live t"
  shows "flushed_view tz ro live t announced f m (inverted_key (fr_bucket f) l)
    = (case map_of (fr_inverted_index f) l of
         Some ids \<Rightarrow> Some (tsdb_operator tz ro (inverted_key (fr_bucket f) l) (m (inverted_key (fr_bucket f) l)) [postings_bytes ro ids])
       | None \<Rightarrow> m (inverted_key (fr_bucket f) l))"
proof -
  have b: "bucket_ok (fr_bucket f)" using assms(1) by (simp add: frozen_ok_def)
  show ?thesis
  proof (cases "map_of (fr_inverted_index f) l")
    case None
    then have "inverted_key (fr_bucket f) l \<notin> op_key ` set (flush_plan tz ro t announced f)"
      using b by (auto simp: flush_plan_keys domIff)
    with None show ?thesis by (simp add: flushed_other)
  next
    case (Some ids)
    then have "merge_op t (inverted_key (fr_bucket f) l) (postings_bytes ro ids) \<in> set (flush_plan tz ro t announced f)"
      by (force simp: flush_plan_def Let_def dest: map_of_SomeD)
    from flushed_at [OF assms(1) this] Some assms(2) show ?thesis by simp
  qed
qed

definition flushed_points :: "frozen_tsdb_delta \<Rightarrow> bytes \<Rightarrow> series_id \<Rightarrow> ts_sample list" where
  "flushed_points f n i =
     (case map_of (fr_samples f) i of Some ss \<Rightarrow> if ss_metric_name ss = n then ss_points ss else [] | None \<Rightarrow> [])"

lemma flushed_points_ok:
  assumes "frozen_ok f" and "s \<in> set (flushed_points f n i)"
  shows "in_bucket (fr_bucket f) (timestamp_ms s)"
  using assms by (auto simp: flushed_points_def frozen_ok_def split: option.splits if_splits dest!: map_of_SomeD)

lemma flushed_samples:
  assumes "frozen_ok f" and "live t"
  shows "flushed_view tz ro live t announced f m (points_key (fr_bucket f) n i)
    = (if flushed_points f n i = [] then m (points_key (fr_bucket f) n i)
       else Some (tsdb_operator tz ro (points_key (fr_bucket f) n i) (m (points_key (fr_bucket f) n i))
         [time_series_value_encode tz (flushed_points f n i)]))"
proof -
  have b: "bucket_ok (fr_bucket f)" and d: "distinct (map fst (fr_samples f))" using assms(1) by (simp_all add: frozen_ok_def)
  show ?thesis
  proof (cases "flushed_points f n i = []")
    case True
    have "\<not> (\<exists>ss. (i, ss) \<in> set (fr_samples f) \<and> ss_metric_name ss = n)"
    proof
      assume "\<exists>ss. (i, ss) \<in> set (fr_samples f) \<and> ss_metric_name ss = n"
      then obtain ss where ss: "(i, ss) \<in> set (fr_samples f)" "ss_metric_name ss = n" by blast
      then have "ss_points ss = []" using True d by (simp add: flushed_points_def)
      with ss assms(1) show False by (auto simp: frozen_ok_def)
    qed
    then have "points_key (fr_bucket f) n i \<notin> op_key ` set (flush_plan tz ro t announced f)"
      using b by (auto simp: flush_plan_keys)
    with True show ?thesis by (simp add: flushed_other)
  next
    case False
    then obtain ss where ss: "map_of (fr_samples f) i = Some ss" "ss_metric_name ss = n" "ss_points ss = flushed_points f n i"
      by (auto simp: flushed_points_def split: option.splits if_splits)
    have "merge_op t (points_key (fr_bucket f) n i) (time_series_value_encode tz (flushed_points f n i))
        \<in> (\<lambda>(i, ss). merge_op t (points_key (fr_bucket f) (ss_metric_name ss) i) (time_series_value_encode tz (ss_points ss)))
             ` set (fr_samples f)"
      using ss(2,3) by (intro image_eqI [OF _ map_of_SomeD [OF ss(1)]]) simp
    then have "merge_op t (points_key (fr_bucket f) n i) (time_series_value_encode tz (flushed_points f n i))
        \<in> set (flush_plan tz ro t announced f)"
      by (simp add: flush_plan_def Let_def)
    from flushed_at [OF assms(1) this] False assms(2) show ?thesis by simp
  qed
qed

lemma flushed_bucket_list:
  assumes "frozen_ok f" and "live t"
  shows "flushed_view tz ro live t announced f m bucket_list_key_encode
    = (if announced then m bucket_list_key_encode
       else Some (tsdb_operator tz ro bucket_list_key_encode (m bucket_list_key_encode)
         [bucket_list_value_encode [(tb_size (fr_bucket f), tb_start (fr_bucket f))]]))"
proof -
  have b: "bucket_ok (fr_bucket f)" using assms(1) by (simp add: frozen_ok_def)
  show ?thesis
  proof (cases announced)
    case True
    then have "bucket_list_key_encode \<notin> op_key ` set (flush_plan tz ro t announced f)"
      using b by (auto simp: flush_plan_keys)
    with True show ?thesis by (simp add: flushed_other)
  next
    case False
    then have "merge_op t bucket_list_key_encode (bucket_list_value_encode [(tb_size (fr_bucket f), tb_start (fr_bucket f))])
        \<in> set (flush_plan tz ro t announced f)"
      by (simp add: flush_plan_def Let_def)
    from flushed_at [OF assms(1) this] False assms(2) show ?thesis by simp
  qed
qed

section \<open>A flush adds the delta to the bucket\<close>

text \<open>An empty unit is stored as no unit.\<close>

definition stored_spec :: "series_spec \<Rightarrow> series_spec" where
  "stored_spec spec = spec\<lparr>spec_unit := if spec_unit spec = Some [] then None else spec_unit spec\<rparr>"

lemma spec_bytes_decode:
  assumes "spec_ok spec"
  shows "decoded (forward_index_value_decode (spec_bytes spec)) \<noteq> None"
    and "map_option series_spec_of (decoded (forward_index_value_decode (spec_bytes spec))) = Some (stored_spec spec)"
proof -
  obtain bs where bs: "forward_index_value_encode (forward_index_value_of spec) = Some bs"
      "forward_index_value_decode bs = Ok (forward_index_value_of spec
         \<lparr>fiv_metric_unit := if spec_unit spec = Some [] then None else spec_unit spec\<rparr>)"
    using forward_index_value_round_trip [of "forward_index_value_of spec"] assms
    by (auto simp: spec_ok_def forward_index_value_of_def)
  then show "decoded (forward_index_value_decode (spec_bytes spec)) \<noteq> None"
    and "map_option series_spec_of (decoded (forward_index_value_decode (spec_bytes spec))) = Some (stored_spec spec)"
    by (simp_all add: spec_bytes_def decoded_def forward_index_value_of_def metric_meta_round_trip stored_spec_def)
qed

definition bucket_grows :: "tsz_ops \<Rightarrow> roaring_ops \<Rightarrow> frozen_tsdb_delta \<Rightarrow> view \<Rightarrow> view \<Rightarrow> bool" where
  "bucket_grows tz ro f m m' \<longleftrightarrow>
     (let b = fr_bucket f in
      store_ok tz ro m' b
      \<and> view_buckets m' = insert (tb_size b, tb_start b) (view_buckets m)
      \<and> view_dict m' b = view_dict m b ++ map_of (fr_series_dict_delta f)
      \<and> view_spec m' b = view_spec m b ++ (\<lambda>i. map_option stored_spec (map_of (fr_forward_index f) i))
      \<and> (\<forall>l. view_postings ro m' b l = view_postings ro m b l \<union> postings (fr_inverted_index f) l)
      \<and> (\<forall>n i. view_points tz m' b n i = view_points tz m b n i ++ series_content (flushed_points f n i))
      \<and> (\<forall>b' rt x. bucket_ok b' \<longrightarrow> b' \<noteq> b \<longrightarrow> m' (scoped_key rt b' x) = m (scoped_key rt b' x)))"

definition flush_ready :: "tsz_ops \<Rightarrow> roaring_ops \<Rightarrow> frozen_tsdb_delta \<Rightarrow> view \<Rightarrow> bool" where
  "flush_ready tz ro f m \<longleftrightarrow> tsz_lossless tz \<and> roaring_lossless ro \<and> frozen_ok f \<and> store_ok tz ro m (fr_bucket f)"

definition is_announced :: "frozen_tsdb_delta \<Rightarrow> view \<Rightarrow> bool" where
  "is_announced f m \<longleftrightarrow> (tb_size (fr_bucket f), tb_start (fr_bucket f)) \<in> view_buckets m"

lemma flushed_bucket_list_content:
  assumes "flush_ready tz ro f m" and "live t"
  shows "\<exists>bl. Option.bind (flushed_view tz ro live t (is_announced f m) f m bucket_list_key_encode)
      (\<lambda>v. decoded (bucket_list_value_decode v)) = Some bl
    \<and> set bl = insert (tb_size (fr_bucket f), tb_start (fr_bucket f)) (view_buckets m)"
proof (cases "is_announced f m")
  case True
  then have "view_buckets m \<noteq> {}" by (auto simp: is_announced_def)
  then obtain bl where "Option.bind (m bucket_list_key_encode) (\<lambda>v. decoded (bucket_list_value_decode v)) = Some bl"
    by (auto simp: view_buckets_def split: option.splits)
  with True show ?thesis
    using flushed_bucket_list [of f live t tz ro True m] assms by (auto simp: flush_ready_def is_announced_def view_buckets_def)
next
  case False
  have "\<And>v. m bucket_list_key_encode = Some v \<Longrightarrow> \<exists>bl. bucket_list_value_decode v = Ok bl"
    using assms(1) by (auto simp: flush_ready_def store_ok_def)
  then obtain v bl where "open_tsdb_merge_batch tz ro bucket_list_key_encode (m bucket_list_key_encode)
        [bucket_list_value_encode [(tb_size (fr_bucket f), tb_start (fr_bucket f))]] = Some v"
      "bucket_list_value_decode v = Ok bl" "set bl = insert (tb_size (fr_bucket f), tb_start (fr_bucket f)) (view_buckets m)"
    using merge_buckets [of "m bucket_list_key_encode" tz ro "[(tb_size (fr_bucket f), tb_start (fr_bucket f))]"]
    by (auto simp: view_buckets_def)
  with False show ?thesis
    using flushed_bucket_list [of f live t tz ro False m] assms by (auto simp: flush_ready_def tsdb_operator_def decoded_def)
qed

lemma flushed_postings_content:
  assumes "flush_ready tz ro f m" and "live t"
  shows "view_postings ro (flushed_view tz ro live t a f m) (fr_bucket f) l
      = view_postings ro m (fr_bucket f) l \<union> postings (fr_inverted_index f) l
    \<and> (\<forall>v. flushed_view tz ro live t a f m (inverted_key (fr_bucket f) l) = Some v
        \<longrightarrow> (\<exists>ids. inverted_index_value_decode ro v = Ok ids))"
proof (cases "map_of (fr_inverted_index f) l")
  case None
  then show ?thesis
    using flushed_inverted [of f live t tz ro a m l] assms
    by (auto simp: flush_ready_def view_postings_def postings_def store_ok_def)
next
  case (Some ids)
  have pb: "inverted_index_value_decode ro (postings_bytes ro ids) = Ok ids"
    using inverted_index_value_round_trip [of ro ids] assms(1) by (auto simp: flush_ready_def postings_bytes_def decoded_def)
  have "\<And>v. m (inverted_key (fr_bucket f) l) = Some v \<Longrightarrow> \<exists>old. inverted_index_value_decode ro v = Ok old"
    using assms(1) by (auto simp: flush_ready_def store_ok_def)
  with pb obtain v where "open_tsdb_merge_batch tz ro (inverted_key (fr_bucket f) l) (m (inverted_key (fr_bucket f) l))
        [postings_bytes ro ids] = Some v"
      "inverted_index_value_decode ro v = Ok (view_postings ro m (fr_bucket f) l \<union> ids)"
    using merge_postings [of ro "fr_bucket f" "postings_bytes ro ids" ids "m (inverted_key (fr_bucket f) l)" tz l] assms(1)
    by (auto simp: flush_ready_def frozen_ok_def view_postings_def)
  with Some show ?thesis
    using flushed_inverted [of f live t tz ro a m l] assms
    by (auto simp: flush_ready_def view_postings_def postings_def tsdb_operator_def decoded_def)
qed

lemma flushed_points_content:
  assumes "flush_ready tz ro f m" and "live t"
  shows "view_points tz (flushed_view tz ro live t a f m) (fr_bucket f) n i
      = view_points tz m (fr_bucket f) n i ++ series_content (flushed_points f n i)
    \<and> (\<forall>v. flushed_view tz ro live t a f m (points_key (fr_bucket f) n i) = Some v
        \<longrightarrow> v \<noteq> [] \<and> (\<exists>pts. time_series_value_decode tz v = Ok pts \<and> (\<forall>s \<in> set pts. in_bucket (fr_bucket f) (timestamp_ms s))))"
proof (cases "flushed_points f n i = []")
  case True
  then show ?thesis
    using flushed_samples [of f live t tz ro a m n i] assms
    by (auto simp: flush_ready_def view_points_def store_ok_def)
next
  case False
  let ?k = "points_key (fr_bucket f) n i"
  have "\<And>v. m ?k = Some v \<Longrightarrow> \<exists>old. time_series_value_decode tz v = Ok old \<and> (\<forall>s \<in> set old. in_bucket (fr_bucket f) (timestamp_ms s))"
    using assms(1) by (auto simp: flush_ready_def store_ok_def)
  moreover have "\<forall>s \<in> set (flushed_points f n i). in_bucket (fr_bucket f) (timestamp_ms s)"
    using flushed_points_ok assms(1) by (auto simp: flush_ready_def)
  ultimately obtain v pts where "open_tsdb_merge_batch tz ro ?k (m ?k) [time_series_value_encode tz (flushed_points f n i)] = Some v"
      "v \<noteq> []" "time_series_value_decode tz v = Ok pts" "\<forall>s \<in> set pts. in_bucket (fr_bucket f) (timestamp_ms s)"
      "series_content pts = view_points tz m (fr_bucket f) n i ++ series_content (flushed_points f n i)"
    using merge_points [of tz "fr_bucket f" "flushed_points f n i" "m ?k" ro n i] assms(1) False
    by (auto simp: flush_ready_def frozen_ok_def view_points_def)
  with False show ?thesis
    using flushed_samples [of f live t tz ro a m n i] assms
    by (auto simp: flush_ready_def view_points_def tsdb_operator_def decoded_def)
qed

lemma flushed_other_bucket:
  assumes "frozen_ok f" and "bucket_ok b" and "b \<noteq> fr_bucket f"
  shows "flushed_view tz ro live t a f m (scoped_key rt b x) = m (scoped_key rt b x)"
proof -
  have "scoped_key rt b x \<noteq> scoped_key rt' (fr_bucket f) y" for rt' y
    using assms by (auto simp: scoped_key_def scope_tag_inj frozen_ok_def)
  then show ?thesis by (intro flushed_other) (auto simp: flush_plan_keys bucket_keys)
qed

lemma flushed_grows:
  assumes "flush_ready tz ro f m" and "live t"
  shows "bucket_grows tz ro f m (flushed_view tz ro live t (is_announced f m) f m)"
proof -
  let ?b = "fr_bucket f" and ?m = "flushed_view tz ro live t (is_announced f m) f m"
  have fok: "frozen_ok f" using assms(1) by (simp add: flush_ready_def)
  note fl = flushed_bucket_list_content [where live = live and t = t, OF assms]
    flushed_postings_content [where live = live and t = t, OF assms] flushed_points_content [where live = live and t = t, OF assms]
  note fd = flushed_dict [where live = live and t = t, OF fok assms(2)] and ff = flushed_forward [where live = live and t = t, OF fok assms(2)]
  have "store_ok tz ro ?m ?b" using fl by (auto simp: store_ok_def decoded_def split: result.splits)
  moreover have "view_buckets ?m = insert (tb_size ?b, tb_start ?b) (view_buckets m)"
    using fl(1) by (auto simp: view_buckets_def [of ?m])
  moreover have "view_dict ?m ?b = view_dict m ?b ++ map_of (fr_series_dict_delta f)"
    using fd
    by (auto simp: view_dict_def fun_eq_iff map_add_def series_dictionary_value_round_trip decoded_def split: option.splits)
  moreover have "view_spec ?m ?b i = (view_spec m ?b ++ (\<lambda>i. map_option stored_spec (map_of (fr_forward_index f) i))) i" for i
  proof (cases "map_of (fr_forward_index f) i")
    case (Some spec)
    then have "spec_ok spec" using fok by (auto simp: frozen_ok_def dest!: map_of_SomeD)
    from spec_bytes_decode [OF this] Some show ?thesis
      using ff by (simp add: view_spec_def map_add_def)
  qed (use ff in \<open>simp add: view_spec_def map_add_def\<close>)
  ultimately show ?thesis
    using fl(2,3) flushed_other_bucket [OF fok] by (auto simp: bucket_grows_def Let_def)
qed

section \<open>Flushing through a storage that merges\<close>

text \<open>A storage configured with a merge operator applies the merges of a batch with it.\<close>

locale merging_storage = storage_laws ops inv snap_inv view snap_view live
  for ops :: "('s, 'r) storage_ops"
    and inv :: "'s \<Rightarrow> bool" and snap_inv :: "'r \<Rightarrow> bool"
    and view :: "'s \<Rightarrow> view" and snap_view :: "'s \<Rightarrow> 'r \<Rightarrow> view"
    and live :: "'s \<Rightarrow> ttl \<Rightarrow> bool" +
  fixes has_operator :: "'s \<Rightarrow> merge_operator \<Rightarrow> bool"
  assumes apply_merges: "inv s \<Longrightarrow> has_operator s g \<Longrightarrow> op_apply_with_options ops s rops wo = (s', Ok w) \<Longrightarrow>
      inv s' \<and> view s' = fold (op_meaning (live s) g) rops (view s) \<and> live s' = live s"
    and apply_merges_total: "inv s \<Longrightarrow> has_operator s g \<Longrightarrow> snd (op_apply_with_options ops s rops wo) \<noteq> Panic"
begin

lemma read_get: "inv s \<Longrightarrow> ts_get (read_of_storage ops s) k = Ok (map_option (record_new k) (view s k))"
  by (simp add: ts_get_def read_of_storage_def get_view)

lemma bucket_listed:
  assumes "inv s" and "store_ok tz ro (view s) b"
  shows "bucket_list_contains (read_of_storage ops s) b = Ok ((tb_size b, tb_start b) \<in> view_buckets (view s))"
proof (cases "view s bucket_list_key_encode")
  case (Some v)
  with assms(2) obtain bl where "bucket_list_value_decode v = Ok bl" by (auto simp: store_ok_def)
  with Some assms(1) show ?thesis
    by (simp add: bucket_list_contains_def read_bucket_list_def read_get view_buckets_def record_new_def ts_decode_def decoded_def)
qed (use assms(1) in \<open>simp add: bucket_list_contains_def read_bucket_list_def read_get view_buckets_def\<close>)

lemma snapshot_of_storage:
  assumes "inv s" and "tsdb_snapshot ops s = (s', res)"
  shows "inv s' \<and> view s' = view s \<and> live s' = live s \<and> res \<noteq> Panic \<and> (\<forall>r. res = Ok r \<longrightarrow> snap_inv r \<and> snap_view s' r = view s')"
proof -
  obtain x where x: "op_snapshot ops s = (s', x)" "res = result_map_err storage_error_string x"
    using assms(2) by (cases "op_snapshot ops s") (auto simp: tsdb_snapshot_def)
  show ?thesis
  proof (cases x)
    case (Ok r)
    with snapshot_ok [OF assms(1)] x show ?thesis by auto
  next
    case (Err e)
    with snapshot_err [OF assms(1)] x show ?thesis by auto
  next
    case Panic
    with snapshot_total [OF assms(1)] x show ?thesis by simp
  qed
qed

lemma flush_delta_apply:
  assumes "inv s" and "flush_ready tz ro f (view s)" and "\<not> frozen_is_empty f"
  shows "tsdb_flush_delta tz ro retention ops s f e =
      (case storage_apply ops s (flush_plan tz ro (bucket_ttl (fr_bucket f) retention) (is_announced f (view s)) f) of
         (s, Ok _) \<Rightarrow> tsdb_snapshot ops s | (s, Err e) \<Rightarrow> (s, Err (storage_error_string e)) | (s, Panic) \<Rightarrow> (s, Panic))"
proof -
  have "bucket_list_contains (read_of_storage ops s) (fr_bucket f) = Ok (is_announced f (view s))"
    using assms(2) bucket_listed [OF assms(1)] by (auto simp: flush_ready_def is_announced_def)
  then show ?thesis using assms(2,3) by (simp add: tsdb_flush_delta_def flush_ops_plan flush_ready_def)
qed

lemma flush_delta_grows:
  assumes s: "inv s" "has_operator s (tsdb_operator tz ro)" "live s (bucket_ttl (fr_bucket f) retention)"
    and ready: "flush_ready tz ro f (view s)" and ne: "\<not> frozen_is_empty f"
    and out: "tsdb_flush_delta tz ro retention ops s f e = (s', res)"
  shows "inv s' \<and> live s' = live s \<and> res \<noteq> Panic
    \<and> (\<forall>r. res = Ok r \<longrightarrow> bucket_grows tz ro f (view s) (view s') \<and> snap_inv r \<and> snap_view s' r = view s')
    \<and> (view s' = view s \<or> bucket_grows tz ro f (view s) (view s'))"
proof -
  let ?t = "bucket_ttl (fr_bucket f) retention"
  let ?plan = "flush_plan tz ro ?t (is_announced f (view s)) f"
  obtain s1 x where ap: "storage_apply ops s ?plan = (s1, x)" by fastforce
  note fl = flush_delta_apply [OF s(1) ready ne, of retention e, unfolded ap]
  show ?thesis
  proof (cases x)
    case (Ok w)
    with apply_merges [OF s(1,2)] ap have s1: "inv s1" "live s1 = live s" "view s1 = flushed_view tz ro (live s) ?t (is_announced f (view s)) f (view s)"
      by (auto simp: storage_apply_def flushed_view_def)
    then have "bucket_grows tz ro f (view s) (view s1)"
      using flushed_grows [where live = "live s" and t = ?t, OF ready s(3)] by simp
    with snapshot_of_storage [OF s1(1)] s1(2) out fl Ok show ?thesis by auto
  next
    case (Err err)
    with apply_err [OF s(1)] ap have "inv s1 \<and> view s1 = view s \<and> live s1 = live s" by (auto simp: storage_apply_def)
    with out fl Err show ?thesis by auto
  next
    case Panic
    with apply_merges_total [OF s(1,2)] ap show ?thesis by (metis snd_conv storage_apply_def)
  qed
qed

end

interpretation imm: merging_storage in_memory_ops im_inv btree_wf im_view im_snap_view im_live "\<lambda>s g. im_merge_operator s = Some g"
proof unfold_locales
  fix s g rops wo s' w
  assume s: "im_inv s" "im_merge_operator s = Some g"
  show "op_apply_with_options in_memory_ops s rops wo = (s', Ok w) \<Longrightarrow>
      im_inv s' \<and> im_view s' = fold (op_meaning (im_live s) g) rops (im_view s) \<and> im_live s' = im_live s"
    using im_apply_Ok [OF s(1), of rops g wo s' "Ok w"] s(2) by (simp add: in_memory_ops_def im_live_def)
  show "snd (op_apply_with_options in_memory_ops s rops wo) \<noteq> Panic"
    using im_apply_Ok [OF s(1), of rops g wo] s(2)
    by (cases "im_apply_with_options s rops wo") (simp add: in_memory_ops_def)
qed

end
