(* ===== verification/Ts_Pipeline.thy ===== *)
theory Ts_Pipeline
  imports Ts_Storage
begin

text \<open>
  From a batch of series to the readers of its bucket and back: ingestion (\<open>delta.rs\<close>), the flush (\<open>flusher.rs\<close>), queries of
  the snapshot (\<open>minitsdb.rs\<close>) and the reload of the dictionary (\<open>MiniTsdb::load\<close>), composed.
\<close>

section \<open>Queries of a snapshot\<close>

definition reads_view :: "storage_read \<Rightarrow> view \<Rightarrow> bool" where
  "reads_view sr m \<longleftrightarrow> (\<forall>k. sr_get sr k = Ok (map_option (record_new k) (m k)))"

lemma collect_items_eq_Ok: "collect_items xs = Ok as \<Longrightarrow> xs = map Ok as"
proof (induction xs arbitrary: as)
  case (Cons x xs)
  then show ?case by (cases x; cases "collect_items xs") auto
qed simp

lemma ok_items_Ok [simp]: "ok_items (map Ok xs) = xs"
  by (simp add: ok_items_def comp_def)

lemma series_content_filter: "series_content (filter (\<lambda>s. P (timestamp_ms s)) pts) t = (if P t then series_content pts t else None)"
  by (induction pts) (auto simp: series_content_def)

lemma mini_reader_samples_content:
  assumes "reads_view sr m" and "bucket_ok b" and "store_ok tz ro m b"
  shows "\<exists>pts. mini_reader_samples tz sr b i n start_ms end_ms = Ok pts
    \<and> (\<forall>t. series_content pts t = (if start_ms <s t \<and> t \<le>s end_ms then view_points tz m b n i t else None))"
proof (cases "m (points_key b n i)")
  case None
  with assms(1,2) show ?thesis
    by (simp add: mini_reader_samples_def key_encodes reads_view_def ts_get_def view_points_def)
next
  case (Some v)
  with assms(3) obtain pts where v: "v \<noteq> []" "time_series_value_decode tz v = Ok pts" unfolding store_ok_def by blast
  then have "time_series_iterator tz v = Some (map Ok pts)"
    by (auto simp: time_series_value_decode_def time_series_iterator_def dest!: collect_items_eq_Ok split: if_splits)
  with assms(1,2) Some v show ?thesis
    using series_content_filter [of "\<lambda>t. start_ms <s t \<and> t \<le>s end_ms" pts]
    by (simp add: mini_reader_samples_def key_encodes reads_view_def ts_get_def view_points_def record_new_def decoded_def)
qed

lemma inverted_index_term_content:
  assumes "reads_view sr m" and "bucket_ok b" and "store_ok tz ro m b"
  shows "\<exists>x. get_inverted_index_term ro sr b l = Ok x \<and> (case x of Some ids \<Rightarrow> ids | None \<Rightarrow> {}) = view_postings ro m b l"
proof (cases "m (inverted_key b l)")
  case None
  with assms(1,2) show ?thesis
    by (simp add: get_inverted_index_term_def key_encodes reads_view_def ts_get_def view_postings_def)
next
  case (Some v)
  with assms(3) obtain ids where "inverted_index_value_decode ro v = Ok ids" unfolding store_ok_def by blast
  with assms(1,2) Some show ?thesis
    by (simp add: get_inverted_index_term_def key_encodes reads_view_def ts_get_def view_postings_def record_new_def ts_decode_def decoded_def)
qed

lemma forward_index_one_content:
  assumes "reads_view sr m" and "bucket_ok b" and "view_spec m b i = Some spec"
  shows "get_forward_index_one sr b i = Ok (Some spec)"
proof -
  obtain v where v: "m (forward_key b i) = Some v" "map_option series_spec_of (decoded (forward_index_value_decode v)) = Some spec"
    using assms(3) by (auto simp: view_spec_def bind_eq_Some_conv)
  then obtain x where "forward_index_value_decode v = Ok x" "spec = series_spec_of x"
    by (cases "forward_index_value_decode v") (auto simp: decoded_def)
  with assms(1,2) v(1) show ?thesis
    by (simp add: get_forward_index_one_def key_encodes reads_view_def ts_get_def record_new_def ts_decode_def)
qed

section \<open>What a delta takes from its batch\<close>

text \<open>Every entry of the delta comes from one of the series applied to it.\<close>

type_synonym series_head = "label list \<times> bytes option \<times> metric_type option"

definition series_head :: "ts_series \<Rightarrow> series_head" where
  "series_head series = (sorted_labels series, series_unit series, series_metric_type series)"

definition head_spec :: "series_head \<Rightarrow> series_spec" where
  "head_spec h = \<lparr>spec_unit = fst (snd h), spec_metric_type = snd (snd h), spec_labels = fst h\<rparr>"

definition names_from :: "(bytes \<Rightarrow> bytes) \<Rightarrow> tsdb_write_delta \<Rightarrow> series_head set \<Rightarrow> bool" where
  "names_from blake3 d H \<longleftrightarrow> (\<forall>i ss. map_of (wd_samples d) i = Some ss \<longrightarrow>
     (\<exists>h \<in> H. delta_dict d (fingerprint blake3 (fst h)) = Some i \<and> ss_metric_name ss = metric_name_of (fst h)))"

definition specs_from :: "tsdb_write_delta \<Rightarrow> series_head set \<Rightarrow> bool" where
  "specs_from d H \<longleftrightarrow> (\<forall>i spec. map_of (wd_forward_index d) i = Some spec \<longrightarrow> spec \<in> head_spec ` H)"

definition from_heads :: "(bytes \<Rightarrow> bytes) \<Rightarrow> tsdb_write_delta \<Rightarrow> series_head set \<Rightarrow> bool" where
  "from_heads blake3 d H \<longleftrightarrow> names_from blake3 d H \<and> specs_from d H"

lemma names_from_extend:
  assumes "names_from blake3 d H" and "wd_samples d' = wd_samples d"
    and "\<And>fp j. delta_dict d fp = Some j \<Longrightarrow> delta_dict d' fp = Some j"
  shows "names_from blake3 d' H"
  using assms unfolding names_from_def by metis

lemma names_from_push:
  assumes "names_from blake3 d H" and "h \<in> H" and "delta_dict d (fingerprint blake3 (fst h)) = Some i"
  shows "names_from blake3 (push_sample d i (metric_name_of (fst h)) s) H"
  unfolding names_from_def
proof (intro allI impI)
  fix j ss
  assume ss: "map_of (wd_samples (push_sample d i (metric_name_of (fst h)) s)) j = Some ss"
  consider "j \<noteq> i" "map_of (wd_samples d) j = Some ss"
    | "j = i" "map_of (wd_samples d) i = None" "ss_metric_name ss = metric_name_of (fst h)"
    | old where "j = i" "map_of (wd_samples d) i = Some old" "ss_metric_name ss = ss_metric_name old"
    using ss by (cases "map_of (wd_samples d) i") (auto simp: push_sample_def Let_def split: if_splits)
  then show "\<exists>h' \<in> H. delta_dict (push_sample d i (metric_name_of (fst h)) s) (fingerprint blake3 (fst h')) = Some j
      \<and> ss_metric_name ss = metric_name_of (fst h')"
  proof cases
    case 1
    with assms(1) show ?thesis by (simp add: names_from_def)
  next
    case 2
    with assms(2,3) show ?thesis by (intro bexI [of _ h]) simp_all
  next
    case (3 old)
    with assms(1) show ?thesis by (simp add: names_from_def)
  qed
qed

lemma from_heads_ingest_sample:
  assumes src: "from_heads blake3 d H" and h: "(labels, unit, mt) \<in> H"
    and out: "ingest_sample blake3 d labels unit mt s = (d', r)"
  shows "from_heads blake3 d' H"
proof -
  let ?fp = "fingerprint blake3 labels"
  obtain d1 i where d1: "series_id_of d ?fp labels unit mt = (d1, i)" by fastforce
  have ext: "names_from blake3 d1 H" "specs_from d1 H" "delta_dict d1 ?fp = Some i"
  proof -
    have "names_from blake3 d1 H \<and> specs_from d1 H \<and> delta_dict d1 ?fp = Some i"
    proof (cases "delta_dict d ?fp")
      case None
      then have new: "new_series d ?fp labels unit mt = (d1, i)" using d1 by (simp add: series_id_of_new)
      note nd = new_series_dict [OF new None]
      have "names_from blake3 d1 H"
      proof (rule names_from_extend [OF _ nd(3)])
        show "names_from blake3 d H" using src by (simp add: from_heads_def)
        show "delta_dict d1 fp = Some j" if "delta_dict d fp = Some j" for fp j
          unfolding nd(1) using that None by auto
      qed
      moreover have "wd_forward_index d1 = AList.update i (head_spec (labels, unit, mt)) (wd_forward_index d)"
        using new by (auto simp: new_series_def Let_def head_spec_def)
      then have "specs_from d1 H" using src h unfolding from_heads_def specs_from_def by (simp split: if_split)
      ultimately show ?thesis using nd(1) by simp
    next
      case (Some j)
      with d1 src show ?thesis by (simp add: series_id_of_known from_heads_def)
    qed
    then show "names_from blake3 d1 H" "specs_from d1 H" "delta_dict d1 ?fp = Some i" by blast+
  qed
  have "d' = d \<or> d' = push_sample d1 i (metric_name_of labels) s"
    using out by (auto simp: ingest_sample_def d1 split: if_splits)
  moreover have "from_heads blake3 (push_sample d1 i (metric_name_of labels) s) H"
    using names_from_push [OF ext(1) h] ext by (simp add: from_heads_def specs_from_def)
  ultimately show ?thesis using src by blast
qed

lemma from_heads_loop:
  assumes "from_heads blake3 d H" and "(labels, unit, mt) \<in> H"
  shows "from_heads blake3 (fst (ingest_samples_loop blake3 d labels unit mt samples)) H"
  using assms
proof (induction samples arbitrary: d)
  case (Cons s samples)
  obtain d1 r1 where s: "ingest_sample blake3 d labels unit mt s = (d1, r1)" by fastforce
  from from_heads_ingest_sample [OF Cons.prems s] have d1: "from_heads blake3 d1 H" .
  with Cons.IH [OF d1 Cons.prems(2)] s show ?case by (cases r1) simp_all
qed simp

lemma from_heads_apply:
  assumes "from_heads blake3 d H" and "series_head ` set batch \<subseteq> H"
  shows "from_heads blake3 (fst (tsdb_delta_apply blake3 d batch)) H"
  using assms
proof (induction batch arbitrary: d)
  case (Cons series batch)
  obtain d1 r1 where d1: "delta_ingest blake3 d series = (d1, r1)" by fastforce
  have "from_heads blake3 (fst (delta_ingest blake3 d series)) H"
    unfolding delta_ingest_def using Cons.prems by (intro from_heads_loop) (auto simp: series_head_def)
  then have "from_heads blake3 d1 H" by (simp add: d1)
  with Cons d1 show ?case by (cases r1) simp_all
qed simp

lemma freeze_frozen_ok:
  assumes "delta_ok blake3 d" and "bucket_ok (wd_bucket d)" and "from_heads blake3 d H" and "\<forall>h \<in> H. spec_ok (head_spec h)"
  shows "frozen_ok (fst (tsdb_delta_freeze d))"
proof -
  have d: "distinct (map fst (wd_forward_index d))" "distinct (map fst (wd_samples d))"
    using assms(1) by (simp_all add: delta_ok_def delta_keys_distinct_def)
  have "spec_ok spec" if "(i, spec) \<in> set (wd_forward_index d)" for i spec
    using that assms(3,4) d(1) by (auto simp: from_heads_def specs_from_def)
  moreover have "ss_points ss \<noteq> [] \<and> (\<forall>s \<in> set (ss_points ss). in_bucket (wd_bucket d) (timestamp_ms s))"
    if "(i, ss) \<in> set (wd_samples d)" for i ss
    using that assms(1) d(2) by (auto simp: delta_ok_def samples_ok_def)
  ultimately show ?thesis
    using assms(1,2) by (auto simp: frozen_ok_def tsdb_delta_freeze_def Let_def delta_ok_def delta_keys_distinct_def)
qed

lemma in_memory_flush_Ok:
  assumes "im_inv s" and "im_merge_operator s = Some (tsdb_operator tz ro)" and "flush_ready tz ro f (im_view s)" and "\<not> frozen_is_empty f"
  shows "\<exists>s' r. tsdb_flush_delta tz ro retention in_memory_ops s f e = (s', Ok r)"
proof -
  let ?plan = "flush_plan tz ro (bucket_ttl (fr_bucket f) retention) (is_announced f (im_view s)) f"
  obtain s1 x where ap: "im_apply_with_options s ?plan write_options_default = (s1, x)" by fastforce
  from im_apply_Ok [OF assms(1) _ this, of "tsdb_operator tz ro"] assms(2) have "\<exists>w. x = Ok w" "im_inv s1" by auto
  then show ?thesis
    unfolding imm.flush_delta_apply [OF assms(1,3,4)]
    using ap by (auto simp: storage_apply_def in_memory_ops_def tsdb_snapshot_def im_snapshot_def im_inv_def)
qed

lemma reads_snapshot:
  assumes "im_inv s" and "btree_wf r"
  shows "reads_view (read_of_snapshot in_memory_ops s r) (im_snap_view s r)"
  using im.snap_get_view [OF assms] by (simp add: reads_view_def read_of_snapshot_def)

section \<open>Ingest, flush, read\<close>

text \<open>The delta after a batch that was accepted, for one of its series.\<close>

lemma accepted_series:
  assumes ctx: "context_ok ctx" "unat (ctx_next_series_id ctx) + length batch < 2 ^ 32"
    and hash: "inj_on (fingerprint blake3) (sorted_labels ` set batch)"
    and app: "tsdb_delta_apply blake3 (tsdb_delta_init ctx) batch = (d, Ok ())"
    and series: "series \<in> set batch" "series_samples series \<noteq> []"
  shows "delta_ok blake3 d" and "wd_bucket d = ctx_bucket ctx" and "from_heads blake3 d (series_head ` set batch)"
    and "\<exists>i ss. delta_dict d (fingerprint blake3 (sorted_labels series)) = Some i \<and> map_of (wd_samples d) i = Some ss
      \<and> ss_metric_name ss = metric_name_of (sorted_labels series)
      \<and> ss_points ss = points_of (fingerprint blake3 (sorted_labels series)) (batch_events blake3 batch)"
proof -
  let ?fp = "fingerprint blake3 (sorted_labels series)" and ?d0 = "tsdb_delta_init ctx"
  have ing: "ingests blake3 ?d0 (batch_events blake3 batch) (d, Ok ())"
  proof -
    have "wd_next_series_id ?d0 = ctx_next_series_id ctx" by (simp add: tsdb_delta_init_def)
    then show ?thesis using tsdb_delta_apply_ok [OF delta_ok_init [OF ctx(1)], of batch blake3] ctx(2) app by simp
  qed
  then show ok: "delta_ok blake3 d" and "wd_bucket d = ctx_bucket ctx" by (simp_all add: ingests_def tsdb_delta_init_def)
  have "from_heads blake3 ?d0 (series_head ` set batch)"
    by (simp add: from_heads_def names_from_def specs_from_def tsdb_delta_init_def)
  from from_heads_apply [OF this order.refl] app show fh: "from_heads blake3 d (series_head ` set batch)" by simp
  have "delta_held ?d0 ?fp = []"
    by (simp add: delta_held_def id_points_def tsdb_delta_init_def split: option.split)
  moreover have all: "takeWhile (event_fits (wd_bucket ?d0)) (batch_events blake3 batch) = batch_events blake3 batch"
    using ing by (auto simp: ingests_def list_all_iff split: if_splits)
  moreover have "delta_held d ?fp = delta_held ?d0 ?fp @ points_of ?fp (takeWhile (event_fits (wd_bucket ?d0)) (batch_events blake3 batch))"
    using ing by (simp add: ingests_def)
  ultimately have held: "delta_held d ?fp = points_of ?fp (batch_events blake3 batch)" by (simp only: append_Nil)
  have "(?fp, hd (series_samples series)) \<in> set (batch_events blake3 batch)"
    using series by (auto simp: batch_events_def series_events_def intro!: bexI [of _ series])
  then have "points_of ?fp (batch_events blake3 batch) \<noteq> []" by (force simp: points_of_def filter_empty_conv)
  with held obtain i ss where i: "delta_dict d ?fp = Some i" "map_of (wd_samples d) i = Some ss"
      "ss_points ss = points_of ?fp (batch_events blake3 batch)"
    by (auto simp: delta_held_def id_points_def split: option.splits)
  obtain h where h: "h \<in> series_head ` set batch" "delta_dict d (fingerprint blake3 (fst h)) = Some i" "ss_metric_name ss = metric_name_of (fst h)"
    using fh i(2) unfolding from_heads_def names_from_def by blast
  then have "fingerprint blake3 (fst h) = ?fp" using ok i(1) by (auto simp: delta_ok_def dict_ok_def)
  moreover have "fst h \<in> sorted_labels ` set batch" using h(1) by (auto simp: series_head_def)
  ultimately have "fst h = sorted_labels series" using hash series(1) by (auto dest: inj_onD)
  with i h(3) show "\<exists>i ss. delta_dict d ?fp = Some i \<and> map_of (wd_samples d) i = Some ss
      \<and> ss_metric_name ss = metric_name_of (sorted_labels series) \<and> ss_points ss = points_of ?fp (batch_events blake3 batch)"
    by auto
qed

lemma ingest_sample_base: "wd_series_dict_base (fst (ingest_sample blake3 d labels unit mt s)) = wd_series_dict_base d"
  by (auto simp: ingest_sample_def series_id_of_def new_series_def Let_def split: option.splits)

lemma ingest_loop_base: "wd_series_dict_base (fst (ingest_samples_loop blake3 d labels unit mt samples)) = wd_series_dict_base d"
proof (induction samples arbitrary: d)
  case (Cons s samples)
  obtain d1 r1 where "ingest_sample blake3 d labels unit mt s = (d1, r1)" by fastforce
  with Cons.IH [of d1] ingest_sample_base [of blake3 d labels unit mt s] show ?case by (cases r1) simp_all
qed simp

lemma apply_base: "wd_series_dict_base (fst (tsdb_delta_apply blake3 d batch)) = wd_series_dict_base d"
proof (induction batch arbitrary: d)
  case (Cons series batch)
  obtain d1 r1 where d1: "delta_ingest blake3 d series = (d1, r1)" by fastforce
  with ingest_loop_base [of blake3 d "sorted_labels series" "series_unit series" "series_metric_type series" "series_samples series"]
  have "wd_series_dict_base d1 = wd_series_dict_base d" by (simp add: delta_ingest_def)
  with Cons.IH [of d1] d1 show ?case by (cases r1) simp_all
qed simp

lemma new_series_indexed:
  assumes "delta_ok blake3 d" and "from_heads blake3 d (series_head ` set batch)"
    and "inj_on (fingerprint blake3) (sorted_labels ` set batch)" and "series \<in> set batch"
    and "delta_dict d (fingerprint blake3 (sorted_labels series)) = Some i"
    and "map_of (wd_series_dict_base d) (fingerprint blake3 (sorted_labels series)) = None"
  shows "\<exists>spec. map_of (wd_forward_index d) i = Some spec \<and> spec_labels spec = sorted_labels series
    \<and> (\<forall>l \<in> set (series_labels series). i \<in> postings (wd_inverted_index d) l)"
proof -
  have "map_of (wd_series_dict_delta d) (fingerprint blake3 (sorted_labels series)) = Some i"
    using assms(5,6) by (simp add: delta_dict_def map_add_Some_iff)
  then obtain spec where spec: "map_of (wd_forward_index d) i = Some spec"
      "fingerprint blake3 (spec_labels spec) = fingerprint blake3 (sorted_labels series)"
    using assms(1) unfolding delta_ok_def index_ok_def by blast
  then have "spec \<in> head_spec ` series_head ` set batch"
    using assms(2) unfolding from_heads_def specs_from_def by blast
  then have "spec_labels spec \<in> sorted_labels ` set batch" by (auto simp: head_spec_def series_head_def)
  then have eq: "spec_labels spec = sorted_labels series" using spec(2) assms(3,4) by (auto dest: inj_onD)
  moreover have "i \<in> postings (wd_inverted_index d) l" if "l \<in> set (series_labels series)" for l
  proof -
    have "l \<in> set (spec_labels spec)" using that eq by (simp add: sorted_labels_def)
    then show ?thesis using assms(1) spec(1) unfolding delta_ok_def index_ok_def by blast
  qed
  ultimately show ?thesis using spec(1) by blast
qed

text \<open>The flush of what a batch left in the delta.\<close>

lemma flush_accepted:
  assumes "tsz_lossless tz" and "roaring_lossless ro" and "delta_ok blake3 d" and "bucket_ok (wd_bucket d)"
    and "from_heads blake3 d H" and "\<forall>h \<in> H. spec_ok (head_spec h)" and "wd_samples d \<noteq> []"
    and st: "im_inv s" "im_merge_operator s = Some (tsdb_operator tz ro)" "im_live s (bucket_ttl (wd_bucket d) retention)"
      "store_ok tz ro (im_view s) (wd_bucket d)"
  shows "\<exists>s' r. tsdb_flush_delta tz ro retention in_memory_ops s (fst (tsdb_delta_freeze d)) epochs = (s', Ok r)
    \<and> bucket_grows tz ro (fst (tsdb_delta_freeze d)) (im_view s) (im_snap_view s' r)
    \<and> reads_view (read_of_snapshot in_memory_ops s' r) (im_snap_view s' r)"
proof -
  let ?f = "fst (tsdb_delta_freeze d)"
  have fr: "fr_bucket ?f = wd_bucket d" "fr_samples ?f = wd_samples d" by (simp_all add: tsdb_delta_freeze_def Let_def)
  have ready: "flush_ready tz ro ?f (im_view s)"
    using freeze_frozen_ok [OF assms(3-6)] assms(1,2) st(4) fr(1) by (simp add: flush_ready_def)
  have ne: "\<not> frozen_is_empty ?f" using assms(7) fr(2) by (simp add: frozen_is_empty_def)
  obtain s' r where fl: "tsdb_flush_delta tz ro retention in_memory_ops s ?f epochs = (s', Ok r)"
    using in_memory_flush_Ok [OF st(1,2) ready ne] by blast
  then have "bucket_grows tz ro ?f (im_view s) (im_snap_view s' r)" "im_inv s'" "btree_wf r"
    using imm.flush_delta_grows [OF st(1,2) _ ready ne fl] st(3) fr(1) by auto
  with fl reads_snapshot show ?thesis by blast
qed

definition content_between :: "i64 \<Rightarrow> i64 \<Rightarrow> (i64 \<rightharpoonup> u64) \<Rightarrow> i64 \<rightharpoonup> u64" where
  "content_between start_ms end_ms m t = (if start_ms <s t \<and> t \<le>s end_ms then m t else None)"


text \<open>A bitmap format for the witnesses: the ids in ascending order, four bytes each.\<close>

definition plain_decode_id :: "bytes \<Rightarrow> (u32 \<times> bytes, encoding_error) result" where
  "plain_decode_id buf = (if length buf < 4 then Err (EncodingError [] []) else Ok (get_u32_le (take 4 buf), drop 4 buf))"

definition plain_roaring :: roaring_ops where
  "plain_roaring = \<lparr>
     roaring_serialize = (\<lambda>ids. Ok (concat (map put_u32_le (sorted_list_of_set ids)))),
     roaring_deserialize = (\<lambda>bs. case decode_items plain_decode_id (length bs div 4) bs of Ok (ids, _) \<Rightarrow> Ok (set ids) | _ \<Rightarrow> Err [])\<rparr>"

lemma plain_roaring_lossless: "roaring_lossless plain_roaring"
proof -
  have "roaring_deserialize plain_roaring (concat (map put_u32_le xs)) = Ok (set xs)" for xs
  proof -
    have "length (concat (map put_u32_le xs)) = 4 * length xs" by (induction xs) simp_all
    moreover have "decode_items plain_decode_id (length xs) (concat (map put_u32_le xs) @ []) = Ok (xs, [])"
      by (rule decode_items_concat) (simp add: plain_decode_id_def take_append_exact)
    ultimately show ?thesis by (simp add: plain_roaring_def)
  qed
  moreover have "finite ids" for ids :: "u32 set" by (rule finite)
  ultimately show ?thesis by (simp add: roaring_lossless_def) (simp add: plain_roaring_def)
qed

lemma empty_storage:
  "im_inv (in_memory_with_merge_operator t g)" "im_view (in_memory_with_merge_operator t g) k = None"
  "im_merge_operator (in_memory_with_merge_operator t g) = Some g" "im_live (in_memory_with_merge_operator t g) Default"
  by (simp_all add: in_memory_with_merge_operator_def im_inv_def im_view_def data_get_def im_live_def live_at_def is_expired_def
      compute_expire_ts_def)

definition one_series :: ts_series where
  "one_series = \<lparr>series_labels = [Label NAME_LABEL (lit ''up'')], series_metric_type = Some Gauge, series_unit = None,
     series_description = None, series_samples = [sample_new 1 2]\<rparr>"

lemma one_series_accepted:
  "\<exists>d. tsdb_delta_apply blake3 (tsdb_delta_init \<lparr>ctx_bucket = time_bucket_hour 0, ctx_series_dict = [], ctx_next_series_id = 0\<rparr>) [one_series]
     = (d, Ok ())"
proof -
  let ?c = "\<lparr>ctx_bucket = time_bucket_hour 0, ctx_series_dict = [], ctx_next_series_id = 0\<rparr>"
  have "ingests blake3 (tsdb_delta_init ?c) (batch_events blake3 [one_series]) (tsdb_delta_apply blake3 (tsdb_delta_init ?c) [one_series])"
  proof (rule tsdb_delta_apply_ok)
    show "delta_ok blake3 (tsdb_delta_init ?c)" by (rule delta_ok_init) (simp add: context_ok_def)
  qed (simp add: tsdb_delta_init_def)
  moreover have "list_all (event_fits (wd_bucket (tsdb_delta_init ?c))) (batch_events blake3 [one_series])"
    by (simp add: batch_events_def series_events_def one_series_def event_fits_def in_bucket_iff time_bucket_hour_def size_in_mins_def
        tsdb_delta_init_def sample_new_def)
  ultimately have "snd (tsdb_delta_apply blake3 (tsdb_delta_init ?c) [one_series]) = Ok ()" by (simp add: ingests_def)
  then show ?thesis by (metis prod.collapse)
qed


section \<open>Reloading a bucket\<close>

text \<open>The dictionary records of a bucket, and no other keys among them.\<close>

definition holds_dict :: "view \<Rightarrow> time_bucket \<Rightarrow> (series_fingerprint \<rightharpoonup> series_id) \<Rightarrow> bool" where
  "holds_dict m b dict \<longleftrightarrow> (\<forall>x. m (scoped_key SeriesDictionaryType b x) \<noteq> None \<longrightarrow> scoped_key SeriesDictionaryType b x \<in> range (dict_key b))
     \<and> (\<forall>fp. m (dict_key b fp) = map_option series_dictionary_value_encode (dict fp))"

definition dict_record :: "time_bucket \<Rightarrow> (series_fingerprint \<rightharpoonup> series_id) \<Rightarrow> storage_record \<Rightarrow> bool" where
  "dict_record b dict r \<longleftrightarrow> (\<exists>fp i. r = record_new (dict_key b fp) (series_dictionary_value_encode i) \<and> dict fp = Some i)"

lemma dictionary_loop_dict:
  assumes "bucket_ok b" and "\<forall>r \<in> set rs. dict_record b dict r"
  shows "\<exists>d n. dictionary_loop acc rs = Ok (d, n)
    \<and> (\<forall>fp. map_of d fp = (if dict_key b fp \<in> rec_key ` set rs then dict fp else map_of (fst acc) fp))
    \<and> (n = snd acc \<or> (\<exists>fp. dict_key b fp \<in> rec_key ` set rs \<and> dict fp = Some n)) \<and> snd acc \<le> n
    \<and> (\<forall>fp i. dict_key b fp \<in> rec_key ` set rs \<longrightarrow> dict fp = Some i \<longrightarrow> i \<le> n)"
  using assms(2)
proof (induction rs arbitrary: acc)
  case Nil
  show ?case by (intro exI [of _ "fst acc"] exI [of _ "snd acc"]) simp
next
  case (Cons r rs)
  obtain fp i where r: "r = record_new (dict_key b fp) (series_dictionary_value_encode i)" "dict fp = Some i"
    using Cons.prems by (auto simp: dict_record_def)
  have "series_dictionary_key_decode (dict_key b fp) = Ok \<lparr>sdk_bucket = b, sdk_fingerprint = fp\<rparr>"
    using series_dictionary_key_round_trip [of "\<lparr>sdk_bucket = b, sdk_fingerprint = fp\<rparr>"] assms(1) by (simp add: key_encodes)
  then have step: "dictionary_loop acc (r # rs) = dictionary_loop (AList.update fp i (fst acc), max (snd acc) i) rs"
    by (simp add: r record_new_def ts_decode_def series_dictionary_value_round_trip)
  have "\<forall>r \<in> set rs. dict_record b dict r" using Cons.prems by simp
  from Cons.IH [OF this, of "(AList.update fp i (fst acc), max (snd acc) i)", unfolded fst_conv snd_conv] obtain d n
    where d: "dictionary_loop (AList.update fp i (fst acc), max (snd acc) i) rs = Ok (d, n)"
      "\<forall>fp'. map_of d fp' = (if dict_key b fp' \<in> rec_key ` set rs then dict fp' else map_of (AList.update fp i (fst acc)) fp')"
      "n = max (snd acc) i \<or> (\<exists>fp. dict_key b fp \<in> rec_key ` set rs \<and> dict fp = Some n)" "max (snd acc) i \<le> n"
      "\<forall>fp i. dict_key b fp \<in> rec_key ` set rs \<longrightarrow> dict fp = Some i \<longrightarrow> i \<le> n" by blast
  have k: "dict_key b fp' \<in> rec_key ` set (r # rs) \<longleftrightarrow> fp' = fp \<or> dict_key b fp' \<in> rec_key ` set rs" for fp'
    using assms(1) by (auto simp: r(1) record_new_def)
  show ?case
    unfolding step d(1) k using d(2-5) r(2) by (auto simp: max_def split: if_splits)
qed

lemma dictionary_scan:
  assumes "bucket_ok b" and "holds_dict m b dict" and "bucket_range SeriesDictionaryType b = Some rg" and "lists_view m rg rs"
  shows "\<forall>r \<in> set rs. dict_record b dict r" and "dict_key b fp \<in> rec_key ` set rs \<longleftrightarrow> dict fp \<noteq> None"
proof -
  have rg: "range_contains rg k \<longleftrightarrow> (\<exists>x. k = scoped_key SeriesDictionaryType b x)" for k
    using assms(1,3) by (auto simp: bucket_range_def scope_simps range_contains_prefix scoped_key_def prefix_def)
  show "\<forall>r \<in> set rs. dict_record b dict r"
  proof
    fix r
    assume "r \<in> set rs"
    with assms(4) have "m (rec_key r) = Some (rec_value r)" "range_contains rg (rec_key r)" by (auto simp: lists_view_def)
    moreover from this rg obtain fp where fp: "rec_key r = dict_key b fp"
      using assms(2) unfolding holds_dict_def by (metis imageE option.distinct(1))
    ultimately obtain i where "dict fp = Some i" "rec_value r = series_dictionary_value_encode i"
      using assms(2) by (auto simp: holds_dict_def)
    with fp show "dict_record b dict r" by (cases r) (auto simp: dict_record_def record_new_def)
  qed
  show "dict_key b fp \<in> rec_key ` set rs \<longleftrightarrow> dict fp \<noteq> None"
  proof
    assume "dict_key b fp \<in> rec_key ` set rs"
    then obtain r where "r \<in> set rs" "rec_key r = dict_key b fp" by auto
    with assms(4) have "m (dict_key b fp) \<noteq> None" unfolding lists_view_def by (metis option.distinct(1))
    with assms(2) show "dict fp \<noteq> None" by (auto simp: holds_dict_def)
  next
    assume "dict fp \<noteq> None"
    then obtain i where "dict fp = Some i" by blast
    then have "m (dict_key b fp) = Some (series_dictionary_value_encode i)" using assms(2) by (simp add: holds_dict_def)
    then have "record_new (dict_key b fp) (series_dictionary_value_encode i) \<in> set rs"
      using assms(4) rg [of "dict_key b fp"] by (auto simp: lists_view_def record_new_def dict_key_def)
    then show "dict_key b fp \<in> rec_key ` set rs" by (force simp: record_new_def)
  qed
qed

lemma load_context_dict:
  assumes "im_inv s" and "bucket_ok b" and "holds_dict (im_view s) b dict"
  shows "\<exists>ctx. load_context in_memory_ops s b = (s, Ok ctx) \<and> ctx_bucket ctx = b \<and> map_of (ctx_series_dict ctx) = dict
    \<and> (if dict = Map.empty then ctx_next_series_id ctx = 0 else ctx_next_series_id ctx \<in> ran dict)
    \<and> (\<forall>i \<in> ran dict. i \<le> ctx_next_series_id ctx)"
proof -
  have snap: "op_snapshot in_memory_ops s = (s, Ok (im_data s))"
    using assms(1) by (simp add: in_memory_ops_def im_snapshot_def im_inv_def)
  then have sv: "im_snap_view s (im_data s) = im_view s" "btree_wf (im_data s)" using im.snapshot_ok [OF assms(1) snap] by simp_all
  obtain rg where rg: "bucket_range SeriesDictionaryType b = Some rg" "range_ok rg"
    using assms(2) by (auto simp: bucket_range_def scope_simps range_ok_def)
  obtain rs where rs: "op_snap_scan_iter in_memory_ops s (im_data s) rg = Ok (map Ok rs)" "lists_view (im_view s) rg rs"
    using im.snap_scan_view [OF assms(1) sv(2) rg(2)] sv(1) by auto
  note scan = dictionary_scan [OF assms(2,3) rg(1) rs(2)]
  obtain d n where loop: "dictionary_loop ([], 0) rs = Ok (d, n)" "\<forall>fp. map_of d fp = (if dict fp \<noteq> None then dict fp else map_of [] fp)"
      "n = 0 \<or> (\<exists>fp. dict fp \<noteq> None \<and> dict fp = Some n)" "\<forall>fp i. dict fp \<noteq> None \<longrightarrow> dict fp = Some i \<longrightarrow> i \<le> n"
    using dictionary_loop_dict [OF assms(2) scan(1), of "([], 0)", unfolded scan(2) fst_conv snd_conv] by blast
  have d: "dictionary_loop ([], 0) rs = Ok (d, n)" "\<And>fp. map_of d fp = dict fp"
      "n = 0 \<or> (\<exists>fp. dict fp = Some n)" "\<And>fp i. dict fp = Some i \<Longrightarrow> i \<le> n"
  proof -
    show "map_of d fp = dict fp" for fp using loop(2) by (cases "dict fp") simp_all
  qed (use loop in auto)
  have "load_context in_memory_ops s b = (s, Ok \<lparr>ctx_bucket = b, ctx_series_dict = d, ctx_next_series_id = n\<rparr>)"
    using rg(1) rs(1) d(1) by (simp add: load_context_def snap load_series_dictionary_def ts_scan_def read_of_snapshot_def)
  moreover have "map_of d = dict" using d(2) by (rule ext)
  moreover have "if dict = Map.empty then n = 0 else n \<in> ran dict"
  proof (cases "dict = Map.empty")
    case False
    then obtain fp i where fp: "dict fp = Some i" by (metis not_None_eq ext)
    show ?thesis
    proof (cases "n = 0")
      case True
      with d(4) [OF fp] fp False show ?thesis by (auto simp: ran_def)
    next
      case n: False
      with d(3) False show ?thesis by (auto simp: ran_def)
    qed
  qed (use d(3) in simp)
  ultimately show ?thesis using d(4) by (auto simp: ran_def)
qed

text \<open>
  C15. Loading a bucket that already has series hands out a series id that is in use: the dictionary comes back as it was stored, but the
  next series id is the largest id found and not the one after it, so that the first new series of any labels is written under the
  id of an existing one.
\<close>

theorem reload_reuses_series_id:
  assumes "im_inv s" and "bucket_ok b" and "holds_dict (im_view s) b dict" and "dict \<noteq> Map.empty"
  shows "\<exists>ctx fp. load_context in_memory_ops s b = (s, Ok ctx) \<and> map_of (ctx_series_dict ctx) = dict
    \<and> dict fp = Some (ctx_next_series_id ctx)
    \<and> (\<forall>fp' labels unit metric_type. dict fp' = None \<longrightarrow>
         snd (series_id_of (tsdb_delta_init ctx) fp' labels unit metric_type) = ctx_next_series_id ctx)"
proof -
  obtain ctx where ctx: "load_context in_memory_ops s b = (s, Ok ctx)" "map_of (ctx_series_dict ctx) = dict"
      "ctx_next_series_id ctx \<in> ran dict"
    using load_context_dict [OF assms(1-3)] assms(4) by auto
  then obtain fp where "dict fp = Some (ctx_next_series_id ctx)" by (auto simp: ran_def)
  moreover have "snd (series_id_of (tsdb_delta_init ctx) fp' labels unit metric_type) = ctx_next_series_id ctx" if "dict fp' = None"
    for fp' labels unit metric_type
    using that ctx(2) by (simp add: series_id_of_def tsdb_delta_init_def new_series_def Let_def)
  ultimately show ?thesis using ctx(1,2) by blast
qed

theorem reload_reuses_series_id_witness:
  "\<exists>s' ctx. im_put_with_options (in_memory_new 0) [put_record_op_new (record_new (dict_key (time_bucket_hour 0) 7) (series_dictionary_value_encode 0))]
      write_options_default = (s', Ok \<lparr>seqnum = 1\<rparr>)
    \<and> load_context in_memory_ops s' (time_bucket_hour 0) = (s', Ok ctx)
    \<and> map_of (ctx_series_dict ctx) = [7 \<mapsto> 0] \<and> snd (series_id_of (tsdb_delta_init ctx) 8 [] None None) = 0"
proof -
  let ?b = "time_bucket_hour 0" and ?s = "in_memory_new 0"
  let ?op = "put_record_op_new (record_new (dict_key ?b 7) (series_dictionary_value_encode 0))"
  have b: "bucket_ok ?b" by (simp add: bucket_ok_def time_bucket_hour_def)
  have s: "im_inv ?s" "im_view ?s k = None" "im_live ?s Default" for k
    by (simp_all add: in_memory_new_def im_inv_def im_view_def data_get_def im_live_def live_at_def is_expired_def compute_expire_ts_def)
  obtain s' x where s': "im_put_with_options ?s [?op] write_options_default = (s', x)" by fastforce
  then have x: "x = Ok \<lparr>seqnum = 1\<rparr>"
    by (auto simp: im_put_with_options_def in_memory_new_def finish_write_def next_seqnum_def)
  with s' im.put_ok [OF s(1), of "[?op]" write_options_default s' "\<lparr>seqnum = 1\<rparr>"] s(2,3)
  have "im_inv s'" "im_view s' = Map.empty(dict_key ?b 7 \<mapsto> series_dictionary_value_encode 0)"
    by (auto simp: in_memory_ops_def put_view_def put_record_op_new_def put_options_default_def record_new_def)
  moreover from this have "holds_dict (im_view s') ?b [7 \<mapsto> 0]" using b by (auto simp: holds_dict_def)
  ultimately have "\<exists>ctx. load_context in_memory_ops s' ?b = (s', Ok ctx) \<and> map_of (ctx_series_dict ctx) = [7 \<mapsto> 0]
      \<and> snd (series_id_of (tsdb_delta_init ctx) 8 [] None None) = 0"
    using reload_reuses_series_id [OF _ b, of s' "[7 \<mapsto> 0]"] by (auto split: if_splits)
  with s' x show ?thesis by blast
qed

end
